theory Spec2Isabelle
  imports Main
begin

section \<open>Data model shared by \<open>mixed-sim.c\<close> and \<open>ar-sim.c\<close>\<close>

text \<open>
  Both programs keep two singly linked lists (resources and jobs) in global variables and
  drive them from an endless loop \<open>traceall; add_remove; run_send; schedule\<close>.

  \<^item> The states are \<open>#define\<close>d \<open>int\<close> constants; they are kept as the same numbers.
  \<^item> \<open>int\<close> and \<open>long int\<close> fields are unbounded \<open>int\<close>: no claim treated here is about
    overflow, and signed overflow has no defined result in C.
  \<^item> \<open>total_time\<close> and \<open>used_time\<close> are \<open>float\<close>s that only ever hold whole numbers (they start
    at 0 and are changed by \<open>++\<close> alone). They are \<open>nat\<close>, and \<open>++\<close> is \<open>float_incr\<close>: exact below
    \<open>2^24\<close>, and without effect from there on (in single precision \<open>16777216 + 1\<close> rounds back
    to \<open>16777216\<close>).
  \<^item> The chain reachable from \<open>first_res\<close> (\<open>first_job\<close>) through \<open>next\<close> is a HOL list of
    records. A pointer that is stored (\<open>run_on\<close>, \<open>job_to_run\<close>, \<open>last_res\<close>, \<open>last_job\<close>) is the
    \<open>code\<close> of the node it points at (\<open>None\<close> for \<open>NULL\<close>): \<open>code\<close> is assigned from a counter
    that only grows, once per allocated node. Following such a pointer looks the code up in
    the chain; when the node has been freed the lookup fails and the model stops with a
    \<open>fault\<close>, since C gives the access no meaning.
  \<^item> \<open>random()\<close> and \<open>malloc()\<close> are the environment: \<open>random_src e n\<close> is the value of the
    \<open>n\<close>-th call of \<open>random()\<close>, \<open>malloc_src e n\<close> tells whether the \<open>n\<close>-th \<open>malloc\<close> succeeds;
    the state counts the calls made so far.
  \<^item> The general-use pointers \<open>r\<close>, \<open>j\<close>, \<open>rsv\<close> are assigned before every use and carry nothing
    from one function to the next, so they are local here. The statistics that are
    floating-point means (\<open>mean_usage\<close>, \<open>mean_wait_time\<close>) and the output file of
    \<open>record_mean_usage\<close> influence neither the pools nor the counters and are left out.
\<close>

abbreviation (input) AVAILABLE :: int where "AVAILABLE \<equiv> 1"
abbreviation (input) USED :: int where "USED \<equiv> 2"
abbreviation (input) HAS_JOBS :: int where "HAS_JOBS \<equiv> 2"
abbreviation (input) LEAVING :: int where "LEAVING \<equiv> 3"
abbreviation (input) RECEIVING_DATA :: int where "RECEIVING_DATA \<equiv> 4"
abbreviation (input) NO_ACCEPT_JOBS :: int where "NO_ACCEPT_JOBS \<equiv> 4"

abbreviation (input) WAITING :: int where "WAITING \<equiv> 1"
abbreviation (input) RUNNING :: int where "RUNNING \<equiv> 2"
abbreviation (input) DONE :: int where "DONE \<equiv> 3"
abbreviation (input) SENDING_DATA :: int where "SENDING_DATA \<equiv> 4"
abbreviation (input) WAITING_TO_SEND_DATA :: int where "WAITING_TO_SEND_DATA \<equiv> 5"
abbreviation (input) READY_TO_RUN :: int where "READY_TO_RUN \<equiv> 6"

abbreviation (input) FCFS_W :: int where "FCFS_W \<equiv> 1"
abbreviation (input) LWF_W :: int where "LWF_W \<equiv> 1"
abbreviation (input) MAX_JOBS :: int where "MAX_JOBS \<equiv> 100000"
abbreviation (input) RECORD_INTERVAL :: int where "RECORD_INTERVAL \<equiv> 500"
abbreviation (input) RL_PROB :: int where "RL_PROB \<equiv> 300"
abbreviation (input) ADD_RESOURCE_PROB :: int where "ADD_RESOURCE_PROB \<equiv> 50"

text \<open>\<open>ADD_JOB_PROB\<close> is 800 in \<open>mixed-sim.c\<close> and 50 in \<open>ar-sim.c\<close>.\<close>

abbreviation (input) ADD_JOB_PROB_mixed :: int where "ADD_JOB_PROB_mixed \<equiv> 800"
abbreviation (input) ADD_JOB_PROB_ar :: int where "ADD_JOB_PROB_ar \<equiv> 50"

record resource =
  r_code :: int
  r_state :: int
  r_level :: int
  r_total_time :: nat
  r_used_time :: nat

text \<open>
  \<open>struct resource\<close> of \<open>ar-sim.c\<close> has three more fields. The reservations from \<open>first_rsv\<close>
  on are the list \<open>r_rsv\<close> of the \<open>job_to_run\<close> pointers, head first. \<open>last_rsv\<close> is read
  only when \<open>first_rsv\<close> is not \<open>NULL\<close>, and then it points at the last reservation of that
  list (it is stale only while the list is empty), so appending to \<open>r_rsv\<close> is what
  \<open>last_rsv->next_rsv = rsv\<close> does.
\<close>

record ar_resource = resource +
  r_total_workload :: int
  r_rsv :: "int list"

record job =
  j_code :: int
  j_state :: int
  j_workload :: int
  j_send_data :: int
  j_wait_time :: int
  j_run_on :: "int option"

record 'r sim =
  first_res :: "'r list"
  first_job :: "job list"
  last_res :: "int option"
  last_job :: "int option"
  resource_number :: int
  job_number :: int
  resources_gone :: int
  jobs_done :: int
  begin_flag :: bool
  randoms :: nat
  mallocs :: nat

record env =
  random_src :: "nat \<Rightarrow> nat"
  malloc_src :: "nat \<Rightarrow> bool"

datatype fault = Null_deref | Use_after_free

datatype 's step = Next 's | Exit 's | Undefined fault

definition float_incr :: "nat \<Rightarrow> nat" where
  "float_incr x = (if x < 16777216 then x + 1 else x)"

text \<open>The globals as the programs initialise them; \<open>begin\<close> is the \<open>static int begin = 1\<close> of
  \<open>add_remove\<close>.\<close>

definition init :: "'r sim" where
  "init = \<lparr>first_res = [], first_job = [], last_res = None, last_job = None,
           resource_number = 0, job_number = 0, resources_gone = 0, jobs_done = 0,
           begin_flag = True, randoms = 0, mallocs = 0\<rparr>"

subsection \<open>Walking and relinking a chain\<close>

text \<open>\<open>while (p) { if (P) break; p = p->next; }\<close>: the position of the first node with \<open>P\<close>.\<close>

fun first_index :: "('a \<Rightarrow> bool) \<Rightarrow> 'a list \<Rightarrow> nat option" where
  "first_index P [] = None"
| "first_index P (x # xs) = (if P x then Some 0 else map_option Suc (first_index P xs))"

text \<open>
  \<open>last->next = n\<close> where \<open>last\<close> points at the node with code \<open>h\<close>: the chain then ends with
  that node followed by \<open>n\<close>. There is no result when no node of the chain has code \<open>h\<close>.
\<close>

fun link_after :: "('a \<Rightarrow> int) \<Rightarrow> int \<Rightarrow> 'a \<Rightarrow> 'a list \<Rightarrow> 'a list option" where
  "link_after key h n [] = None"
| "link_after key h n (x # xs) =
     (if key x = h then Some [x, n] else map_option ((#) x) (link_after key h n xs))"

text \<open>The tail of \<open>add_res\<close> and \<open>add_job\<close>: link the new node \<open>n\<close> behind \<open>last\<close>, or make it
  the only node when the chain is empty.\<close>

definition append_node ::
  "('a \<Rightarrow> int) \<Rightarrow> 'a \<Rightarrow> 'a list \<Rightarrow> int option \<Rightarrow> fault + 'a list" where
  "append_node key n chain lst =
     (if chain \<noteq> [] then
        (case lst of
           None \<Rightarrow> Inl Null_deref
         | Some h \<Rightarrow>
             (case link_after key h n chain of
                None \<Rightarrow> Inl Use_after_free
              | Some chain' \<Rightarrow> Inr chain'))
      else Inr [n])"

text \<open>\<open>remove_done_jobs\<close> and \<open>remove_leaving_resources\<close>: both loops together unlink every
  node in the given state and keep the others in order; \<open>last_job\<close> and \<open>last_res\<close> are not
  touched.\<close>

definition remove_done_jobs :: "'r sim \<Rightarrow> 'r sim" where
  "remove_done_jobs s = s\<lparr>first_job := filter (\<lambda>j. j_state j \<noteq> DONE) (first_job s)\<rparr>"

definition remove_leaving_resources :: "('a resource_scheme) sim \<Rightarrow> ('a resource_scheme) sim" where
  "remove_leaving_resources s =
     s\<lparr>first_res := filter (\<lambda>r. r_state r \<noteq> LEAVING) (first_res s)\<rparr>"

definition add_job :: "env \<Rightarrow> 'r sim \<Rightarrow> fault + 'r sim" where
  "add_job e s =
     (if \<not> malloc_src e (mallocs s) then Inr (s\<lparr>mallocs := Suc (mallocs s)\<rparr>)
      else
        let c = job_number s + 1;
            j = \<lparr>j_code = c, j_state = WAITING,
                 j_workload = 50 + int (random_src e (randoms s) mod 950),
                 j_send_data = int (random_src e (Suc (randoms s)) mod 30),
                 j_wait_time = 0, j_run_on = None\<rparr>
        in case append_node j_code j (first_job s) (last_job s) of
             Inl f \<Rightarrow> Inl f
           | Inr js \<Rightarrow>
               Inr (s\<lparr>first_job := js, last_job := Some c, job_number := c,
                      randoms := randoms s + 2, mallocs := Suc (mallocs s)\<rparr>))"

section \<open>\<open>mixed-sim.c\<close>\<close>

type_synonym msim = "resource sim"

definition add_res_mixed :: "env \<Rightarrow> msim \<Rightarrow> fault + msim" where
  "add_res_mixed e s =
     (if \<not> malloc_src e (mallocs s) then Inr (s\<lparr>mallocs := Suc (mallocs s)\<rparr>)
      else
        let c = resource_number s + 1;
            r = \<lparr>r_code = c, r_state = AVAILABLE,
                 r_level = 1 + int (random_src e (randoms s) mod 5),
                 r_total_time = 0, r_used_time = 0\<rparr>
        in case append_node r_code r (first_res s) (last_res s) of
             Inl f \<Rightarrow> Inl f
           | Inr rs \<Rightarrow>
               Inr (s\<lparr>first_res := rs, last_res := Some c, resource_number := c,
                      randoms := Suc (randoms s), mallocs := Suc (mallocs s)\<rparr>))"

text \<open>\<open>for (i=1;i<=5;++i) add_res();\<close>\<close>

fun add_res_times_mixed :: "nat \<Rightarrow> env \<Rightarrow> msim \<Rightarrow> fault + msim" where
  "add_res_times_mixed 0 e s = Inr s"
| "add_res_times_mixed (Suc n) e s =
     (case add_res_mixed e s of
        Inl f \<Rightarrow> Inl f
      | Inr s' \<Rightarrow> add_res_times_mixed n e s')"

text \<open>The draw \<open>i = 1 + (random() % 1000)\<close> and the two comparisons that follow it.\<close>

definition add_draw_mixed :: "env \<Rightarrow> msim \<Rightarrow> int \<Rightarrow> fault + msim" where
  "add_draw_mixed e s i =
     (if i \<le> ADD_RESOURCE_PROB then add_res_mixed e s
      else if i > ADD_JOB_PROB_mixed then add_job e s
      else Inr s)"

definition add_remove_mixed :: "env \<Rightarrow> msim \<Rightarrow> fault + msim" where
  "add_remove_mixed e s =
     (case (if begin_flag s then add_res_times_mixed 5 e (s\<lparr>begin_flag := False\<rparr>) else Inr s) of
        Inl f \<Rightarrow> Inl f
      | Inr s1 \<Rightarrow>
          let s2 = remove_leaving_resources (remove_done_jobs s1);
              i = 1 + int (random_src e (randoms s2) mod 1000)
          in add_draw_mixed e (s2\<lparr>randoms := Suc (randoms s2)\<rparr>) i)"

definition score :: "job \<Rightarrow> int" where
  "score j = FCFS_W * j_wait_time j + LWF_W * j_workload j"

text \<open>
  The loop \<open>while (j) { if (j->state == WAITING) { score = ...; if (score > best_score)
  best_job = j; } j = j->next; }\<close>. \<open>best\<close> and \<open>i\<close> are the positions of \<open>best_job\<close> and \<open>j\<close>;
  \<open>best_score\<close> is not assigned in the loop.
\<close>

fun select_best :: "int \<Rightarrow> nat \<Rightarrow> nat \<Rightarrow> job list \<Rightarrow> nat" where
  "select_best best_score best i [] = best"
| "select_best best_score best i (j # js) =
     select_best best_score
       (if j_state j = WAITING \<and> score j > best_score then i else best) (Suc i) js"

definition schedule_mixed :: "msim \<Rightarrow> msim" where
  "schedule_mixed s =
     (case first_index (\<lambda>r. r_state r = AVAILABLE) (first_res s) of
        None \<Rightarrow> s
      | Some ri \<Rightarrow>
          (case first_index (\<lambda>j. j_state j = WAITING) (first_job s) of
             None \<Rightarrow> s
           | Some ji \<Rightarrow>
               let best_score = score (first_job s ! ji);
                   bi = select_best best_score ji ji (drop ji (first_job s));
                   r = first_res s ! ri
               in s\<lparr>first_job := (first_job s)
                      [bi := (first_job s ! bi)\<lparr>j_run_on := Some (r_code r),
                                                j_state := SENDING_DATA\<rparr>],
                    first_res := (first_res s)[ri := r\<lparr>r_state := RECEIVING_DATA\<rparr>]\<rparr>))"

text \<open>Following \<open>j->run_on\<close>: the position in the resource chain of the node pointed at.\<close>

definition deref :: "('a \<Rightarrow> int) \<Rightarrow> int option \<Rightarrow> 'a list \<Rightarrow> fault + nat" where
  "deref key p chain =
     (case p of
        None \<Rightarrow> Inl Null_deref
      | Some h \<Rightarrow>
          (case first_index (\<lambda>x. key x = h) chain of
             None \<Rightarrow> Inl Use_after_free
           | Some i \<Rightarrow> Inr i))"

text \<open>The body of the \<open>switch\<close> of \<open>run_send\<close> for one job: the job, the resource chain and the
  number of \<open>random()\<close> calls, before and after.\<close>

definition run_send_job_mixed ::
  "env \<Rightarrow> job \<Rightarrow> resource list \<Rightarrow> nat \<Rightarrow> fault + (job \<times> resource list \<times> nat)" where
  "run_send_job_mixed e j rs n =
     (if j_state j = SENDING_DATA then
        (let j1 = j\<lparr>j_send_data := j_send_data j - 1\<rparr>
         in if j_send_data j1 \<le> 0 then
              (case deref r_code (j_run_on j1) rs of
                 Inl f \<Rightarrow> Inl f
               | Inr k \<Rightarrow> Inr (j1\<lparr>j_state := RUNNING\<rparr>, rs[k := (rs ! k)\<lparr>r_state := USED\<rparr>], n))
            else Inr (j1, rs, n))
      else if j_state j = RUNNING then
        (case deref r_code (j_run_on j) rs of
           Inl f \<Rightarrow> Inl f
         | Inr k \<Rightarrow>
             (let j1 = j\<lparr>j_workload := j_workload j - r_level (rs ! k)\<rparr>;
                  r1 = (rs ! k)\<lparr>r_used_time := float_incr (r_used_time (rs ! k))\<rparr>
              in if j_workload j1 \<le> 0 then
                   Inr (j1\<lparr>j_state := DONE\<rparr>,
                        rs[k := r1\<lparr>r_state :=
                                     (if int (random_src e n mod 1000) \<le> RL_PROB
                                      then LEAVING else AVAILABLE)\<rparr>],
                        Suc n)
                 else Inr (j1, rs[k := r1], n)))
      else Inr (j, rs, n))"

fun run_send_loop_mixed ::
  "env \<Rightarrow> job list \<Rightarrow> resource list \<Rightarrow> nat \<Rightarrow> fault + (job list \<times> resource list \<times> nat)" where
  "run_send_loop_mixed e [] rs n = Inr ([], rs, n)"
| "run_send_loop_mixed e (j # js) rs n =
     (case run_send_job_mixed e j rs n of
        Inl f \<Rightarrow> Inl f
      | Inr (j', rs', n') \<Rightarrow>
          (case run_send_loop_mixed e js rs' n' of
             Inl f \<Rightarrow> Inl f
           | Inr (js', rs'', n'') \<Rightarrow> Inr (j' # js', rs'', n'')))"

definition run_send_mixed :: "env \<Rightarrow> msim \<Rightarrow> fault + msim" where
  "run_send_mixed e s =
     (case run_send_loop_mixed e (first_job s) (first_res s) (randoms s) of
        Inl f \<Rightarrow> Inl f
      | Inr (js, rs, n) \<Rightarrow> Inr (s\<lparr>first_job := js, first_res := rs, randoms := n\<rparr>))"

text \<open>The job loop of \<open>traceall\<close>: the \<open>switch\<close> for one job.\<close>

definition trace_job_mixed :: "job \<Rightarrow> job" where
  "trace_job_mixed j = (if j_state j = WAITING then j\<lparr>j_wait_time := j_wait_time j + 1\<rparr> else j)"

text \<open>The resource loop of \<open>traceall\<close>; every \<open>LEAVING\<close> resource is one \<open>++resources_gone\<close>.\<close>

definition trace_res :: "'a resource_scheme \<Rightarrow> 'a resource_scheme" where
  "trace_res r = r\<lparr>r_total_time := float_incr (r_total_time r)\<rparr>"

definition traceall_mixed :: "msim \<Rightarrow> msim step" where
  "traceall_mixed s =
     (let s' = s\<lparr>first_job := map trace_job_mixed (first_job s),
                 jobs_done := jobs_done s
                    + int (length (filter (\<lambda>j. j_state j = DONE) (first_job s))),
                 first_res := map trace_res (first_res s),
                 resources_gone := resources_gone s
                    + int (length (filter (\<lambda>r. r_state r = LEAVING) (first_res s)))\<rparr>
      in if jobs_done s' = MAX_JOBS then Exit s' else Next s')"

text \<open>One turn of the \<open>for (;;)\<close> loop of \<open>main\<close> (\<open>INTERVAL\<close> is 0).\<close>

definition tick_mixed :: "env \<Rightarrow> msim \<Rightarrow> msim step" where
  "tick_mixed e s =
     (case traceall_mixed s of
        Next s1 \<Rightarrow>
          (case add_remove_mixed e s1 of
             Inl f \<Rightarrow> Undefined f
           | Inr s2 \<Rightarrow>
               (case run_send_mixed e s2 of
                  Inl f \<Rightarrow> Undefined f
                | Inr s3 \<Rightarrow> Next (schedule_mixed s3)))
      | other \<Rightarrow> other)"

section \<open>\<open>ar-sim.c\<close>\<close>

type_synonym asim = "ar_resource sim"

definition add_res_ar :: "env \<Rightarrow> asim \<Rightarrow> fault + asim" where
  "add_res_ar e s =
     (if \<not> malloc_src e (mallocs s) then Inr (s\<lparr>mallocs := Suc (mallocs s)\<rparr>)
      else
        let c = resource_number s + 1;
            r = \<lparr>r_code = c, r_state = AVAILABLE,
                 r_level = 1 + int (random_src e (randoms s) mod 5),
                 r_total_time = 0, r_used_time = 0,
                 r_total_workload = 0, r_rsv = []\<rparr>
        in case append_node r_code r (first_res s) (last_res s) of
             Inl f \<Rightarrow> Inl f
           | Inr rs \<Rightarrow>
               Inr (s\<lparr>first_res := rs, last_res := Some c, resource_number := c,
                      randoms := Suc (randoms s), mallocs := Suc (mallocs s)\<rparr>))"

fun add_res_times_ar :: "nat \<Rightarrow> env \<Rightarrow> asim \<Rightarrow> fault + asim" where
  "add_res_times_ar 0 e s = Inr s"
| "add_res_times_ar (Suc n) e s =
     (case add_res_ar e s of
        Inl f \<Rightarrow> Inl f
      | Inr s' \<Rightarrow> add_res_times_ar n e s')"

definition add_draw_ar :: "env \<Rightarrow> asim \<Rightarrow> int \<Rightarrow> fault + asim" where
  "add_draw_ar e s i =
     (if i \<le> ADD_RESOURCE_PROB then add_res_ar e s
      else if i > ADD_JOB_PROB_ar then add_job e s
      else Inr s)"

definition add_remove_ar :: "env \<Rightarrow> asim \<Rightarrow> fault + asim" where
  "add_remove_ar e s =
     (case (if begin_flag s then add_res_times_ar 5 e (s\<lparr>begin_flag := False\<rparr>) else Inr s) of
        Inl f \<Rightarrow> Inl f
      | Inr s1 \<Rightarrow>
          let s2 = remove_leaving_resources (remove_done_jobs s1);
              i = 1 + int (random_src e (randoms s2) mod 1000)
          in add_draw_ar e (s2\<lparr>randoms := Suc (randoms s2)\<rparr>) i)"

text \<open>
  The second loop of \<open>schedule\<close>: \<open>while (r) { if ((r->state != NO_ACCEPT_JOBS) &&
  (r->total_workload < best_r->total_workload)) best_r = r; r = r->next; }\<close>. \<open>best\<close> and \<open>i\<close>
  are the positions of \<open>best_r\<close> and \<open>r\<close> in the chain \<open>rs\<close>.
\<close>

fun select_best_res :: "ar_resource list \<Rightarrow> nat \<Rightarrow> nat \<Rightarrow> ar_resource list \<Rightarrow> nat" where
  "select_best_res rs best i [] = best"
| "select_best_res rs best i (r # rest) =
     select_best_res rs
       (if r_state r \<noteq> NO_ACCEPT_JOBS \<and> r_total_workload r < r_total_workload (rs ! best)
        then i else best)
       (Suc i) rest"

definition schedule_ar :: "env \<Rightarrow> asim \<Rightarrow> asim" where
  "schedule_ar e s =
     (case first_index (\<lambda>j. j_state j = WAITING) (first_job s) of
        None \<Rightarrow> s
      | Some ji \<Rightarrow>
          if \<not> malloc_src e (mallocs s) then s\<lparr>mallocs := Suc (mallocs s)\<rparr>
          else
            (case first_index (\<lambda>r. r_state r \<noteq> NO_ACCEPT_JOBS) (first_res s) of
               None \<Rightarrow> s\<lparr>mallocs := Suc (mallocs s)\<rparr>
             | Some ri \<Rightarrow>
                 let bi = select_best_res (first_res s) ri ri (drop ri (first_res s));
                     best_job = first_job s ! ji;
                     best_r = first_res s ! bi
                 in s\<lparr>first_job := (first_job s)
                        [ji := best_job\<lparr>j_state := WAITING_TO_SEND_DATA\<rparr>],
                      first_res := (first_res s)
                        [bi := best_r\<lparr>r_state := HAS_JOBS,
                                      r_total_workload :=
                                        r_total_workload best_r + j_workload best_job,
                                      r_rsv := r_rsv best_r @ [j_code best_job]\<rparr>],
                      mallocs := Suc (mallocs s)\<rparr>))"

text \<open>
  The inner loop of \<open>run_send\<close> ("send input data"), over the reservations from \<open>rsv\<close> on. The
  jobs are reached through \<open>job_to_run\<close>.
\<close>

fun send_data_loop :: "int list \<Rightarrow> job list \<Rightarrow> fault + job list" where
  "send_data_loop [] js = Inr js"
| "send_data_loop (h # hs) js =
     (case deref j_code (Some h) js of
        Inl f \<Rightarrow> Inl f
      | Inr k \<Rightarrow>
          if j_state (js ! k) = SENDING_DATA then
            (let j1 = (js ! k)\<lparr>j_send_data := j_send_data (js ! k) - 1\<rparr>
             in if j_send_data j1 \<le> 0 then
                  (let js1 = js[k := j1\<lparr>j_state := READY_TO_RUN\<rparr>]
                   in case hs of
                        [] \<Rightarrow> Inr js1
                      | h2 # _ \<Rightarrow>
                          (case deref j_code (Some h2) js1 of
                             Inl f \<Rightarrow> Inl f
                           | Inr k2 \<Rightarrow> Inr (js1[k2 := (js1 ! k2)\<lparr>j_state := SENDING_DATA\<rparr>])))
                else Inr (js[k := j1]))
          else if j_state (js ! k) = WAITING_TO_SEND_DATA then
            Inr (js[k := (js ! k)\<lparr>j_state := SENDING_DATA\<rparr>])
          else send_data_loop hs js)"

text \<open>The \<open>switch (rsv->job_to_run->state)\<close> of \<open>run_send\<close> ("run job"), for a resource whose
  first reservation is for the job with code \<open>h\<close>.\<close>

definition run_job_ar ::
  "env \<Rightarrow> int \<Rightarrow> ar_resource \<Rightarrow> job list \<Rightarrow> nat \<Rightarrow> fault + (ar_resource \<times> job list \<times> nat)" where
  "run_job_ar e h r js n =
     (case deref j_code (Some h) js of
        Inl f \<Rightarrow> Inl f
      | Inr k \<Rightarrow>
          if j_state (js ! k) = RUNNING then
            (let j1 = (js ! k)\<lparr>j_workload := j_workload (js ! k) - r_level r\<rparr>;
                 r1 = r\<lparr>r_total_workload := r_total_workload r - r_level r,
                        r_used_time := float_incr (r_used_time r)\<rparr>
             in if j_workload j1 < 0 then
                  Inr ((if int (random_src e n mod 1000) \<le> RL_PROB
                        then r1\<lparr>r_rsv := tl (r_rsv r1), r_state := NO_ACCEPT_JOBS\<rparr>
                        else r1\<lparr>r_rsv := tl (r_rsv r1)\<rparr>),
                       js[k := j1\<lparr>j_state := DONE\<rparr>], Suc n)
                else Inr (r1, js[k := j1], n))
          else if j_state (js ! k) = READY_TO_RUN then
            Inr (r, js[k := (js ! k)\<lparr>j_state := RUNNING\<rparr>], n)
          else Inr (r, js, n))"

text \<open>
  The body of the \<open>while (r)\<close> loop of \<open>run_send\<close> for one resource. After \<open>r->state = LEAVING;
  continue;\<close> the same resource is looked at again: it is no longer \<open>NO_ACCEPT_JOBS\<close> and has
  no reservation, so the loop moves on.
\<close>

definition run_send_res_ar ::
  "env \<Rightarrow> ar_resource \<Rightarrow> job list \<Rightarrow> nat \<Rightarrow> fault + (ar_resource \<times> job list \<times> nat)" where
  "run_send_res_ar e r js n =
     (if r_state r = NO_ACCEPT_JOBS \<and> r_rsv r = [] then Inr (r\<lparr>r_state := LEAVING\<rparr>, js, n)
      else
        (case r_rsv r of
           [] \<Rightarrow> Inr (r, js, n)
         | h # _ \<Rightarrow>
             (case run_job_ar e h r js n of
                Inl f \<Rightarrow> Inl f
              | Inr (r1, js1, n1) \<Rightarrow>
                  (case send_data_loop (r_rsv r1) js1 of
                     Inl f \<Rightarrow> Inl f
                   | Inr js2 \<Rightarrow> Inr (r1, js2, n1)))))"

fun run_send_loop_ar ::
  "env \<Rightarrow> ar_resource list \<Rightarrow> job list \<Rightarrow> nat \<Rightarrow> fault + (ar_resource list \<times> job list \<times> nat)"
  where
  "run_send_loop_ar e [] js n = Inr ([], js, n)"
| "run_send_loop_ar e (r # rs) js n =
     (case run_send_res_ar e r js n of
        Inl f \<Rightarrow> Inl f
      | Inr (r', js', n') \<Rightarrow>
          (case run_send_loop_ar e rs js' n' of
             Inl f \<Rightarrow> Inl f
           | Inr (rs', js'', n'') \<Rightarrow> Inr (r' # rs', js'', n'')))"

definition run_send_ar :: "env \<Rightarrow> asim \<Rightarrow> fault + asim" where
  "run_send_ar e s =
     (case run_send_loop_ar e (first_res s) (first_job s) (randoms s) of
        Inl f \<Rightarrow> Inl f
      | Inr (rs, js, n) \<Rightarrow> Inr (s\<lparr>first_job := js, first_res := rs, randoms := n\<rparr>))"

definition trace_job_ar :: "job \<Rightarrow> job" where
  "trace_job_ar j =
     (if j_state j = WAITING \<or> j_state j = WAITING_TO_SEND_DATA \<or> j_state j = READY_TO_RUN
      then j\<lparr>j_wait_time := j_wait_time j + 1\<rparr> else j)"

definition traceall_ar :: "asim \<Rightarrow> asim step" where
  "traceall_ar s =
     (let s' = s\<lparr>first_job := map trace_job_ar (first_job s),
                 jobs_done := jobs_done s
                    + int (length (filter (\<lambda>j. j_state j = DONE) (first_job s))),
                 first_res := map trace_res (first_res s),
                 resources_gone := resources_gone s
                    + int (length (filter (\<lambda>r. r_state r = LEAVING) (first_res s)))\<rparr>
      in if jobs_done s' \<ge> MAX_JOBS then Exit s' else Next s')"

definition tick_ar :: "env \<Rightarrow> asim \<Rightarrow> asim step" where
  "tick_ar e s =
     (case traceall_ar s of
        Next s1 \<Rightarrow>
          (case add_remove_ar e s1 of
             Inl f \<Rightarrow> Undefined f
           | Inr s2 \<Rightarrow>
               (case run_send_ar e s2 of
                  Inl f \<Rightarrow> Undefined f
                | Inr s3 \<Rightarrow> Next (schedule_ar e s3)))
      | other \<Rightarrow> other)"

section \<open>Executions\<close>

text \<open>The states at the head of the \<open>for (;;)\<close> loop: the initial one, and every state a turn
  of the loop returns to the loop head.\<close>

inductive reach_mixed :: "env \<Rightarrow> msim \<Rightarrow> bool" for e where
  reach_mixed_init: "reach_mixed e init"
| reach_mixed_tick: "reach_mixed e s \<Longrightarrow> tick_mixed e s = Next s' \<Longrightarrow> reach_mixed e s'"

inductive reach_ar :: "env \<Rightarrow> asim \<Rightarrow> bool" for e where
  reach_ar_init: "reach_ar e init"
| reach_ar_tick: "reach_ar e s \<Longrightarrow> tick_ar e s = Next s' \<Longrightarrow> reach_ar e s'"

section \<open>Notions used to state the properties\<close>

text \<open>\<open>i\<close> is the position of the first element of \<open>xs\<close> with \<open>P\<close> (what a search loop that
  \<open>break\<close>s at the first hit stops at).\<close>

definition first_at :: "('a \<Rightarrow> bool) \<Rightarrow> 'a list \<Rightarrow> nat \<Rightarrow> bool" where
  "first_at P xs i \<longleftrightarrow> i < length xs \<and> P (xs ! i) \<and> (\<forall>k<i. \<not> P (xs ! k))"

text \<open>Position \<open>b\<close> holds a resource that accepts jobs and whose \<open>total_workload\<close> is the
  smallest among the accepting ones, and it is the earliest such position.\<close>

definition least_loaded :: "ar_resource list \<Rightarrow> nat \<Rightarrow> bool" where
  "least_loaded rs b \<longleftrightarrow>
     b < length rs \<and> r_state (rs ! b) \<noteq> NO_ACCEPT_JOBS \<and>
     (\<forall>k<length rs. r_state (rs ! k) \<noteq> NO_ACCEPT_JOBS \<longrightarrow>
        r_total_workload (rs ! b) \<le> r_total_workload (rs ! k)) \<and>
     (\<forall>k<b. r_state (rs ! k) \<noteq> NO_ACCEPT_JOBS \<longrightarrow>
        r_total_workload (rs ! b) < r_total_workload (rs ! k))"

text \<open>Whether a call that may fail returned a state with one more job in the pool.\<close>

definition adds_job :: "'r sim \<Rightarrow> fault + 'r sim \<Rightarrow> bool" where
  "adds_job s x =
     (case x of Inl f \<Rightarrow> False
      | Inr s' \<Rightarrow> length (first_job s') = Suc (length (first_job s)))"

subsection \<open>Concrete environments and states\<close>

text \<open>An environment in which every \<open>malloc\<close> succeeds and the first \<open>random()\<close> returns \<open>v\<close>.\<close>

definition env_draw :: "nat \<Rightarrow> env" where
  "env_draw v = \<lparr>random_src = (\<lambda>n. if n = 0 then v else 7), malloc_src = (\<lambda>n. True)\<rparr>"

definition env_ok :: env where
  "env_ok = \<lparr>random_src = (\<lambda>n. 999), malloc_src = (\<lambda>n. True)\<rparr>"

text \<open>The same draws when no memory is left.\<close>

definition env_full :: env where
  "env_full = \<lparr>random_src = (\<lambda>n. 999), malloc_src = (\<lambda>n. False)\<rparr>"

text \<open>One free resource and three waiting jobs with scores 102, 301 and 200.\<close>

definition c1_state :: msim where
  "c1_state = init\<lparr>
     first_res := [\<lparr>r_code = 1, r_state = AVAILABLE, r_level = 3,
                    r_total_time = 9, r_used_time = 4\<rparr>],
     first_job := [\<lparr>j_code = 1, j_state = WAITING, j_workload = 100, j_send_data = 5,
                    j_wait_time = 2, j_run_on = None\<rparr>,
                   \<lparr>j_code = 2, j_state = WAITING, j_workload = 300, j_send_data = 5,
                    j_wait_time = 1, j_run_on = None\<rparr>,
                   \<lparr>j_code = 3, j_state = WAITING, j_workload = 200, j_send_data = 5,
                    j_wait_time = 0, j_run_on = None\<rparr>],
     last_res := Some 1, last_job := Some 3, resource_number := 1, job_number := 3,
     begin_flag := False\<rparr>"

text \<open>A pool with one running job; the resource chain is a parameter so that the state serves
  both programs.\<close>

definition c2_job :: job where
  "c2_job = \<lparr>j_code = 1, j_state = RUNNING, j_workload = 100, j_send_data = 0,
             j_wait_time = 2, j_run_on = Some 1\<rparr>"

definition c2_state :: "'r list \<Rightarrow> 'r sim" where
  "c2_state rs = init\<lparr>first_res := rs, first_job := [c2_job], last_res := Some 1,
     last_job := Some 1, resource_number := 1, job_number := 1, begin_flag := False\<rparr>"

definition c2_res_mixed :: resource where
  "c2_res_mixed = \<lparr>r_code = 1, r_state = USED, r_level = 3, r_total_time = 9, r_used_time = 4\<rparr>"

definition c2_res_ar :: ar_resource where
  "c2_res_ar = \<lparr>r_code = 1, r_state = HAS_JOBS, r_level = 3, r_total_time = 9, r_used_time = 4,
                r_total_workload = 100, r_rsv = [1]\<rparr>"

text \<open>A resource of level 5 whose first reservation is for a running job with 5 units left.\<close>

definition c3_res :: ar_resource where
  "c3_res = \<lparr>r_code = 1, r_state = HAS_JOBS, r_level = 5, r_total_time = 40, r_used_time = 9,
             r_total_workload = 5, r_rsv = [1]\<rparr>"

definition c3_job :: job where
  "c3_job = \<lparr>j_code = 1, j_state = RUNNING, j_workload = 5, j_send_data = 0,
             j_wait_time = 12, j_run_on = None\<rparr>"

text \<open>99999 jobs counted so far, and two jobs that completed in the last \<open>run_send\<close>.\<close>

definition c4_state :: msim where
  "c4_state = init\<lparr>
     first_res := [\<lparr>r_code = 7, r_state = AVAILABLE, r_level = 3,
                    r_total_time = 900, r_used_time = 400\<rparr>,
                   \<lparr>r_code = 9, r_state = AVAILABLE, r_level = 2,
                    r_total_time = 700, r_used_time = 300\<rparr>],
     first_job := [\<lparr>j_code = 100000, j_state = DONE, j_workload = -1, j_send_data = 0,
                    j_wait_time = 2, j_run_on = Some 7\<rparr>,
                   \<lparr>j_code = 100001, j_state = DONE, j_workload = 0, j_send_data = 0,
                    j_wait_time = 1, j_run_on = Some 9\<rparr>],
     last_res := Some 9, last_job := Some 100001, resource_number := 9,
     job_number := 100001, jobs_done := 99999, begin_flag := False\<rparr>"

text \<open>A job whose input data is being sent, in either program.\<close>

definition c5_job :: job where
  "c5_job = \<lparr>j_code = 1, j_state = SENDING_DATA, j_workload = 100, j_send_data = 7,
             j_wait_time = 3, j_run_on = Some 1\<rparr>"

definition c5_mixed :: msim where
  "c5_mixed = init\<lparr>
     first_res := [\<lparr>r_code = 1, r_state = RECEIVING_DATA, r_level = 3,
                    r_total_time = 9, r_used_time = 0\<rparr>],
     first_job := [c5_job],
     last_res := Some 1, last_job := Some 1, resource_number := 1, job_number := 1,
     begin_flag := False\<rparr>"

definition c5_ar :: asim where
  "c5_ar = init\<lparr>
     first_res := [\<lparr>r_code = 1, r_state = HAS_JOBS, r_level = 3,
                    r_total_time = 9, r_used_time = 0, r_total_workload = 100, r_rsv = [1]\<rparr>],
     first_job := [c5_job\<lparr>j_run_on := None\<rparr>],
     last_res := Some 1, last_job := Some 1, resource_number := 1, job_number := 1,
     begin_flag := False\<rparr>"

text \<open>Two accepting resources with \<open>total_workload\<close> 300 and 100, and a waiting job.\<close>

definition c8_state :: asim where
  "c8_state = init\<lparr>
     first_res := [\<lparr>r_code = 1, r_state = HAS_JOBS, r_level = 2, r_total_time = 50,
                    r_used_time = 20, r_total_workload = 300, r_rsv = [1]\<rparr>,
                   \<lparr>r_code = 2, r_state = HAS_JOBS, r_level = 4, r_total_time = 50,
                    r_used_time = 30, r_total_workload = 100, r_rsv = [2]\<rparr>],
     first_job := [\<lparr>j_code = 1, j_state = RUNNING, j_workload = 300, j_send_data = 0,
                    j_wait_time = 4, j_run_on = None\<rparr>,
                   \<lparr>j_code = 2, j_state = RUNNING, j_workload = 100, j_send_data = 0,
                    j_wait_time = 9, j_run_on = None\<rparr>,
                   \<lparr>j_code = 3, j_state = WAITING, j_workload = 70, j_send_data = 12,
                    j_wait_time = 1, j_run_on = None\<rparr>],
     last_res := Some 2, last_job := Some 3, resource_number := 2, job_number := 3,
     begin_flag := False\<rparr>"

subsection \<open>Invariants of the pools\<close>

text \<open>
  A chain as \<open>add_res\<close> and \<open>add_job\<close> build it: the codes grow along the chain, none exceeds
  the counter they are taken from, and while the chain is not empty the \<open>last\<close> pointer is
  the node created last (which may have been freed since).
\<close>

definition chain_ok :: "('a \<Rightarrow> int) \<Rightarrow> 'a list \<Rightarrow> int option \<Rightarrow> int \<Rightarrow> bool" where
  "chain_ok key xs lst num \<longleftrightarrow>
     sorted_wrt (<) (map key xs) \<and> (\<forall>x\<in>set xs. key x \<le> num) \<and> (xs \<noteq> [] \<longrightarrow> lst = Some num)"

text \<open>Mixed program: a job is \<open>active\<close> while a resource is bound to it; \<open>serving_state\<close> is
  the state that resource is in.\<close>

definition active :: "job \<Rightarrow> bool" where
  "active j \<longleftrightarrow> j_state j = SENDING_DATA \<or> j_state j = RUNNING"

definition serving_state :: "job \<Rightarrow> int" where
  "serving_state j = (if j_state j = SENDING_DATA then RECEIVING_DATA else USED)"

definition bound_ok :: "resource list \<Rightarrow> job \<Rightarrow> bool" where
  "bound_ok rs j \<longleftrightarrow>
     (active j \<longrightarrow> (\<exists>r\<in>set rs. j_run_on j = Some (r_code r) \<and> r_state r = serving_state j))"

definition inv_mixed :: "msim \<Rightarrow> bool" where
  "inv_mixed s \<longleftrightarrow>
     chain_ok r_code (first_res s) (last_res s) (resource_number s) \<and>
     (\<forall>j\<in>set (first_job s). bound_ok (first_res s) j) \<and>
     distinct (map j_run_on (filter active (first_job s)))"

text \<open>The utilisation counters at the head of the loop, and between \<open>traceall\<close> and
  \<open>run_send\<close>.\<close>

definition time_ok :: "('a resource_scheme) list \<Rightarrow> bool" where
  "time_ok rs \<longleftrightarrow> (\<forall>r\<in>set rs. r_used_time r \<le> r_total_time r)"

definition time_mid_mixed :: "resource list \<Rightarrow> bool" where
  "time_mid_mixed rs \<longleftrightarrow>
     (\<forall>r\<in>set rs. r_used_time r \<le> r_total_time r \<and>
        (r_state r \<noteq> AVAILABLE \<longrightarrow> float_incr (r_used_time r) \<le> r_total_time r))"

text \<open>What one job step, or a whole pass, of the mixed \<open>run_send\<close> may do to the resource
  chain: the nodes stay, a node changes only if an active job among \<open>js\<close> points at it, and
  then \<open>used_time\<close> is incremented at most once while \<open>total_time\<close> stays.\<close>

definition res_step :: "job list \<Rightarrow> resource list \<Rightarrow> resource list \<Rightarrow> bool" where
  "res_step js rs rs' \<longleftrightarrow>
     map r_code rs' = map r_code rs \<and>
     (\<forall>k<length rs.
        r_total_time (rs' ! k) = r_total_time (rs ! k) \<and>
        r_level (rs' ! k) = r_level (rs ! k) \<and>
        (rs' ! k = rs ! k \<or>
         (\<exists>j\<in>set js. active j \<and> j_run_on j = Some (r_code (rs ! k))) \<and>
         (r_used_time (rs' ! k) = r_used_time (rs ! k) \<or>
          r_used_time (rs' ! k) = float_incr (r_used_time (rs ! k)))))"

text \<open>A job after its step: it points where it pointed, and is active only if it was.\<close>

definition job_step :: "job \<Rightarrow> job \<Rightarrow> bool" where
  "job_step j j' \<longleftrightarrow> j_run_on j' = j_run_on j \<and> j_code j' = j_code j \<and> (active j' \<longrightarrow> active j)"

text \<open>Every resource that is \<open>LEAVING\<close> has a \<open>DONE\<close> job pointing at it.\<close>

definition leaving_ok :: "msim \<Rightarrow> bool" where
  "leaving_ok s \<longleftrightarrow>
     (\<forall>r\<in>set (first_res s). r_state r = LEAVING \<longrightarrow>
        (\<exists>j\<in>set (first_job s). j_state j = DONE \<and> j_run_on j = Some (r_code r)))"

text \<open>Two resource chains with the same nodes, where \<open>total_time\<close> is the same and
  \<open>used_time\<close> has been incremented at most once per node.\<close>

definition used_once :: "('a resource_scheme) list \<Rightarrow> ('a resource_scheme) list \<Rightarrow> bool" where
  "used_once rs rs' \<longleftrightarrow>
     length rs' = length rs \<and>
     (\<forall>k<length rs.
        r_code (rs' ! k) = r_code (rs ! k) \<and>
        r_total_time (rs' ! k) = r_total_time (rs ! k) \<and>
        (r_used_time (rs' ! k) = r_used_time (rs ! k) \<or>
         r_used_time (rs' ! k) = float_incr (r_used_time (rs ! k))))"

text \<open>
  AR program. \<open>job_of js h\<close> is the job a \<open>job_to_run\<close> pointer with code \<open>h\<close> leads to. A
  reservation is \<open>queued\<close> when its job is in the pool in one of the four states between
  scheduling and completion, \<open>completed\<close> when that job is \<open>DONE\<close>.
\<close>

definition job_of :: "job list \<Rightarrow> int \<Rightarrow> job option" where
  "job_of js h = find (\<lambda>j. j_code j = h) js"

definition queued_state :: "int \<Rightarrow> bool" where
  "queued_state st \<longleftrightarrow>
     st = RUNNING \<or> st = SENDING_DATA \<or> st = WAITING_TO_SEND_DATA \<or> st = READY_TO_RUN"

definition queued :: "job list \<Rightarrow> int \<Rightarrow> bool" where
  "queued js h = (case job_of js h of None \<Rightarrow> False | Some j \<Rightarrow> queued_state (j_state j))"

definition completed :: "job list \<Rightarrow> int \<Rightarrow> bool" where
  "completed js h = (case job_of js h of None \<Rightarrow> False | Some j \<Rightarrow> j_state j = DONE)"

text \<open>The sum of the remaining workloads of the jobs of a reservation queue.\<close>

definition workload_of :: "job list \<Rightarrow> int \<Rightarrow> int" where
  "workload_of js h = (case job_of js h of None \<Rightarrow> 0 | Some j \<Rightarrow> j_workload j)"

definition queue_workload :: "job list \<Rightarrow> int list \<Rightarrow> int" where
  "queue_workload js q = sum_list (map (workload_of js) q)"

definition load_ok :: "job list \<Rightarrow> ar_resource \<Rightarrow> bool" where
  "load_ok js r \<longleftrightarrow> r_total_workload r \<le> queue_workload js (r_rsv r)"

text \<open>The reservations of the pool: no job is reserved twice, every reserved job is
  queued, a resource that is \<open>LEAVING\<close> has no reservation, and \<open>total_workload\<close> does not
  exceed the workload of the queue.\<close>

definition pool_ar :: "ar_resource list \<Rightarrow> job list \<Rightarrow> bool" where
  "pool_ar rs js \<longleftrightarrow>
     distinct (concat (map r_rsv rs)) \<and>
     (\<forall>r\<in>set rs. (\<forall>h\<in>set (r_rsv r). queued js h) \<and>
                  (r_state r = LEAVING \<longrightarrow> r_rsv r = []) \<and> load_ok js r)"

definition inv_ar :: "asim \<Rightarrow> bool" where
  "inv_ar s \<longleftrightarrow>
     chain_ok r_code (first_res s) (last_res s) (resource_number s) \<and>
     chain_ok j_code (first_job s) (last_job s) (job_number s) \<and>
     pool_ar (first_res s) (first_job s)"

definition time_mid_ar :: "ar_resource list \<Rightarrow> bool" where
  "time_mid_ar rs \<longleftrightarrow>
     (\<forall>r\<in>set rs. r_used_time r \<le> r_total_time r \<and>
        (r_rsv r \<noteq> [] \<longrightarrow> float_incr (r_used_time r) \<le> r_total_time r))"

text \<open>By how much the workload of the queue of a resource exceeds its \<open>total_workload\<close>.\<close>

definition load_gap :: "job list \<Rightarrow> ar_resource \<Rightarrow> int" where
  "load_gap js r = queue_workload js (r_rsv r) - r_total_workload r"

text \<open>
  What the body of the \<open>run_send\<close> loop of \<open>ar-sim.c\<close> does to one resource \<open>r\<close> (\<open>r'\<close>
  afterwards), \<open>js\<close> and \<open>js'\<close> being the job chain before the step and at the time of
  observation: the queue is left alone or loses its head, whose job is then completed; the
  jobs still reserved are queued; \<open>used_time\<close> grows at most once, and only if there was a
  reservation; \<open>load_gap\<close> is the same, or the head has been removed and \<open>load_gap\<close> has
  grown by what the workload of its job has gone below zero.
\<close>

definition ar_step :: "job list \<Rightarrow> job list \<Rightarrow> ar_resource \<Rightarrow> ar_resource \<Rightarrow> bool" where
  "ar_step js js' r r' \<longleftrightarrow>
     r_code r' = r_code r \<and> r_level r' = r_level r \<and> r_total_time r' = r_total_time r \<and>
     (r_used_time r' = r_used_time r \<or>
      r_rsv r \<noteq> [] \<and> r_used_time r' = float_incr (r_used_time r)) \<and>
     (r_rsv r' = r_rsv r \<or>
      r_rsv r \<noteq> [] \<and> r_rsv r' = tl (r_rsv r) \<and> completed js' (hd (r_rsv r))) \<and>
     (\<forall>h\<in>set (r_rsv r'). queued js' h) \<and>
     (r_state r' = LEAVING \<longrightarrow> r_rsv r' = []) \<and>
     (load_ok js r \<longrightarrow> load_ok js' r') \<and>
     (r_rsv r' = r_rsv r \<and> load_gap js' r' = load_gap js r \<or>
      r_rsv r \<noteq> [] \<and> r_rsv r' = tl (r_rsv r) \<and> completed js' (hd (r_rsv r)) \<and>
      workload_of js' (hd (r_rsv r)) < 0 \<and>
      load_gap js' r' = load_gap js r - workload_of js' (hd (r_rsv r)))"

text \<open>The jobs outside the queues \<open>H\<close> are untouched, and no job changes its code.\<close>

definition jobs_frame :: "int set \<Rightarrow> job list \<Rightarrow> job list \<Rightarrow> bool" where
  "jobs_frame H js js' \<longleftrightarrow>
     map j_code js' = map j_code js \<and> (\<forall>h. h \<notin> H \<longrightarrow> job_of js' h = job_of js h)"

text \<open>What the "send input data" loop may do to a job: nothing but to make it
  \<open>READY_TO_RUN\<close> or \<open>SENDING_DATA\<close> (and count \<open>send_data\<close> down).\<close>

definition send_rel :: "job \<Rightarrow> job \<Rightarrow> bool" where
  "send_rel j j' \<longleftrightarrow>
     j_code j' = j_code j \<and> j_workload j' = j_workload j \<and>
     (j_state j' = j_state j \<or> j_state j' = READY_TO_RUN \<or> j_state j' = SENDING_DATA)"

text \<open>
  The order of service in \<open>ar-sim.c\<close>. \<open>queued_before a b q\<close>: the reservation for job \<open>a\<close>
  stands before one for job \<open>b\<close> in the queue \<open>q\<close>; \<open>ahead\<close>: in the queue of some resource
  of the chain; \<open>in_queue\<close>: job \<open>b\<close> has a reservation in the chain. \<open>ticks_ar e n s\<close> is the
  state \<open>n\<close> turns of the loop after \<open>s\<close>, if the loop gets that far.
\<close>

fun queued_before :: "int \<Rightarrow> int \<Rightarrow> int list \<Rightarrow> bool" where
  "queued_before a b [] = False"
| "queued_before a b (h # t) = (if h = a then b \<in> set t else queued_before a b t)"

definition ahead :: "ar_resource list \<Rightarrow> int \<Rightarrow> int \<Rightarrow> bool" where
  "ahead rs a b \<longleftrightarrow> (\<exists>r\<in>set rs. queued_before a b (r_rsv r))"

definition in_queue :: "ar_resource list \<Rightarrow> int \<Rightarrow> bool" where
  "in_queue rs b \<longleftrightarrow> (\<exists>r\<in>set rs. b \<in> set (r_rsv r))"

fun ticks_ar :: "env \<Rightarrow> nat \<Rightarrow> asim \<Rightarrow> asim option" where
  "ticks_ar e 0 s = Some s"
| "ticks_ar e (Suc n) s = (case tick_ar e s of Next s' \<Rightarrow> ticks_ar e n s' | _ \<Rightarrow> None)"

text \<open>
  What a pass of \<open>run_send\<close> does to a queue and to a job. \<open>pop_step js'\<close>: the queue is
  the same, or has lost its first reservation, whose job is then \<open>DONE\<close>. \<open>heads\<close>: the
  jobs of the first reservations. \<open>head_step H\<close>: the job keeps its code, and its state is
  the same, or \<open>READY_TO_RUN\<close> or \<open>SENDING_DATA\<close>, unless its code is in \<open>H\<close>.
\<close>

text \<open>
  \<open>load_gap\<close> over a whole turn of the loop, for a resource \<open>r\<close> at the head of the turn and
  the same resource \<open>r'\<close> at the head of the next (\<open>js\<close> and \<open>js'\<close> are the job chains). When
  the job of the first reservation of \<open>r\<close> is \<open>DONE\<close> in \<open>js'\<close>, its workload is not positive
  and \<open>load_gap\<close> has grown by what it has gone below zero; otherwise \<open>load_gap\<close> is the same.
\<close>

definition head_done :: "job list \<Rightarrow> ar_resource \<Rightarrow> bool" where
  "head_done js' r \<longleftrightarrow> r_rsv r \<noteq> [] \<and> completed js' (hd (r_rsv r))"

definition gap_step :: "job list \<Rightarrow> job list \<Rightarrow> ar_resource \<Rightarrow> ar_resource \<Rightarrow> bool" where
  "gap_step js js' r r' \<longleftrightarrow>
     r_code r' = r_code r \<and>
     (if head_done js' r
      then workload_of js' (hd (r_rsv r)) \<le> 0 \<and>
           load_gap js' r' = load_gap js r - workload_of js' (hd (r_rsv r))
      else load_gap js' r' = load_gap js r)"

definition pop_step :: "job list \<Rightarrow> ar_resource \<Rightarrow> ar_resource \<Rightarrow> bool" where
  "pop_step js' r r' \<longleftrightarrow>
     r_rsv r' = r_rsv r \<or>
     r_rsv r \<noteq> [] \<and> r_rsv r' = tl (r_rsv r) \<and> completed js' (hd (r_rsv r))"

definition heads :: "ar_resource list \<Rightarrow> int set" where
  "heads rs = set (concat (map (\<lambda>r. take 1 (r_rsv r)) rs))"

definition head_step :: "int set \<Rightarrow> job \<Rightarrow> job \<Rightarrow> bool" where
  "head_step H j j' \<longleftrightarrow>
     j_code j' = j_code j \<and>
     (j_state j' = j_state j \<or> j_state j' = READY_TO_RUN \<or> j_state j' = SENDING_DATA \<or>
      j_code j \<in> H)"

subsection \<open>Two executions from the initial state\<close>

text \<open>
  An environment in which only the first resource, the first job and (in \<open>ar-sim.c\<close>) its
  reservation can be allocated, the resource gets level 5, and the job a workload of 50 and
  no input data. The states below are the ones the loop head sees in that environment.
\<close>

definition env_single :: env where
  "env_single = \<lparr>random_src = (\<lambda>n. if n = 0 then 4 else if n = 1 then 999 else 0),
                 malloc_src = (\<lambda>n. n = 0 \<or> n = 5 \<or> n = 6)\<rparr>"

definition env_single_mixed :: env where
  "env_single_mixed = \<lparr>random_src = (\<lambda>n. if n = 0 then 4 else if n = 1 then 999 else 0),
                       malloc_src = (\<lambda>n. n = 0 \<or> n = 5)\<rparr>"

text \<open>\<open>ar-sim.c\<close>: the job is scheduled in the first turn, starts sending in the second, is
  ready after the third and running after the fourth.\<close>

definition ar_start :: "int \<Rightarrow> int \<Rightarrow> int \<Rightarrow> nat \<Rightarrow> asim" where
  "ar_start st sd wt k = \<lparr>first_res =
     [\<lparr>r_code = 1, r_state = HAS_JOBS, r_level = 5, r_total_time = k,
       r_used_time = 0, r_total_workload = 50, r_rsv = [1]\<rparr>],
     first_job =
       [\<lparr>j_code = 1, j_state = st, j_workload = 50, j_send_data = sd,
         j_wait_time = wt, j_run_on = None\<rparr>],
     last_res = Some 1, last_job = Some 1, resource_number = 1,
     job_number = 1, resources_gone = 0, jobs_done = 0, begin_flag = False,
     randoms = 4 + k, mallocs = 7 + k\<rparr>"

text \<open>After \<open>k\<close> turns of running.\<close>

definition ar_run :: "nat \<Rightarrow> asim" where
  "ar_run k = \<lparr>first_res =
     [\<lparr>r_code = 1, r_state = HAS_JOBS, r_level = 5, r_total_time = 3 + k,
       r_used_time = k, r_total_workload = 50 - 5 * int k, r_rsv = [1]\<rparr>],
     first_job =
       [\<lparr>j_code = 1, j_state = RUNNING, j_workload = 50 - 5 * int k, j_send_data = - 1,
         j_wait_time = 2, j_run_on = None\<rparr>],
     last_res = Some 1, last_job = Some 1, resource_number = 1,
     job_number = 1, resources_gone = 0, jobs_done = 0, begin_flag = False,
     randoms = 7 + k, mallocs = 10 + k\<rparr>"

text \<open>After the eleventh turn of running the job is \<open>DONE\<close>.\<close>

definition ar_done :: asim where
  "ar_done = \<lparr>first_res =
     [\<lparr>r_code = 1, r_state = NO_ACCEPT_JOBS, r_level = 5, r_total_time = 14,
       r_used_time = 11, r_total_workload = - 5, r_rsv = []\<rparr>],
     first_job =
       [\<lparr>j_code = 1, j_state = DONE, j_workload = - 5, j_send_data = - 1,
         j_wait_time = 2, j_run_on = None\<rparr>],
     last_res = Some 1, last_job = Some 1, resource_number = 1,
     job_number = 1, resources_gone = 0, jobs_done = 0, begin_flag = False,
     randoms = 19, mallocs = 21\<rparr>"

text \<open>
  The same execution of \<open>ar-sim.c\<close> when the job gets a workload of 52, which is not a
  multiple of the level: it is at 2 after ten turns of running and at -3 after the eleventh.
\<close>

definition env_rest :: env where
  "env_rest = \<lparr>random_src = (\<lambda>n. if n = 0 then 4 else if n = 1 then 999
                                   else if n = 2 then 2 else 0),
               malloc_src = (\<lambda>n. n = 0 \<or> n = 5 \<or> n = 6)\<rparr>"

definition rest_start :: "int \<Rightarrow> int \<Rightarrow> int \<Rightarrow> nat \<Rightarrow> asim" where
  "rest_start st sd wt k = \<lparr>first_res =
     [\<lparr>r_code = 1, r_state = HAS_JOBS, r_level = 5, r_total_time = k,
       r_used_time = 0, r_total_workload = 52, r_rsv = [1]\<rparr>],
     first_job =
       [\<lparr>j_code = 1, j_state = st, j_workload = 52, j_send_data = sd,
         j_wait_time = wt, j_run_on = None\<rparr>],
     last_res = Some 1, last_job = Some 1, resource_number = 1,
     job_number = 1, resources_gone = 0, jobs_done = 0, begin_flag = False,
     randoms = 4 + k, mallocs = 7 + k\<rparr>"

definition rest_run :: "nat \<Rightarrow> asim" where
  "rest_run k = \<lparr>first_res =
     [\<lparr>r_code = 1, r_state = HAS_JOBS, r_level = 5, r_total_time = 3 + k,
       r_used_time = k, r_total_workload = 52 - 5 * int k, r_rsv = [1]\<rparr>],
     first_job =
       [\<lparr>j_code = 1, j_state = RUNNING, j_workload = 52 - 5 * int k, j_send_data = - 1,
         j_wait_time = 2, j_run_on = None\<rparr>],
     last_res = Some 1, last_job = Some 1, resource_number = 1,
     job_number = 1, resources_gone = 0, jobs_done = 0, begin_flag = False,
     randoms = 7 + k, mallocs = 10 + k\<rparr>"

definition rest_done :: asim where
  "rest_done = \<lparr>first_res =
     [\<lparr>r_code = 1, r_state = NO_ACCEPT_JOBS, r_level = 5, r_total_time = 14,
       r_used_time = 11, r_total_workload = - 3, r_rsv = []\<rparr>],
     first_job =
       [\<lparr>j_code = 1, j_state = DONE, j_workload = - 3, j_send_data = - 1,
         j_wait_time = 2, j_run_on = None\<rparr>],
     last_res = Some 1, last_job = Some 1, resource_number = 1,
     job_number = 1, resources_gone = 0, jobs_done = 0, begin_flag = False,
     randoms = 19, mallocs = 21\<rparr>"

text \<open>\<open>mixed-sim.c\<close>: the job is bound in the first turn and running after the second.\<close>

definition mixed_start :: msim where
  "mixed_start = \<lparr>first_res =
     [\<lparr>r_code = 1, r_state = RECEIVING_DATA, r_level = 5, r_total_time = 0,
       r_used_time = 0\<rparr>],
     first_job =
       [\<lparr>j_code = 1, j_state = SENDING_DATA, j_workload = 50, j_send_data = 0,
         j_wait_time = 0, j_run_on = Some 1\<rparr>],
     last_res = Some 1, last_job = Some 1, resource_number = 1,
     job_number = 1, resources_gone = 0, jobs_done = 0, begin_flag = False,
     randoms = 4, mallocs = 6\<rparr>"

definition mixed_run :: "nat \<Rightarrow> msim" where
  "mixed_run k = \<lparr>first_res =
     [\<lparr>r_code = 1, r_state = USED, r_level = 5, r_total_time = 1 + k,
       r_used_time = k\<rparr>],
     first_job =
       [\<lparr>j_code = 1, j_state = RUNNING, j_workload = 50 - 5 * int k, j_send_data = - 1,
         j_wait_time = 0, j_run_on = Some 1\<rparr>],
     last_res = Some 1, last_job = Some 1, resource_number = 1,
     job_number = 1, resources_gone = 0, jobs_done = 0, begin_flag = False,
     randoms = 5 + k, mallocs = 7 + k\<rparr>"

text \<open>
  An environment of \<open>ar-sim.c\<close> in which one resource of level 5 and two jobs of workload
  50 can be allocated, the second job in the second turn.
\<close>

definition env_pair :: env where
  "env_pair = \<lparr>random_src = (\<lambda>n. if n = 0 then 4 else if n = 1 \<or> n = 4 then 999 else 0),
               malloc_src = (\<lambda>n. n = 0 \<or> (5 \<le> n \<and> n \<le> 8))\<rparr>"

text \<open>The states at the head of the loop in that environment: after the second and the
  third turn, while the first job runs, after it is \<open>DONE\<close>, while the second job runs, and
  after that one is \<open>DONE\<close>.\<close>

definition pair_res :: "int \<Rightarrow> nat \<Rightarrow> nat \<Rightarrow> int \<Rightarrow> int list \<Rightarrow> ar_resource" where
  "pair_res st tt ut tw q =
     \<lparr>r_code = 1, r_state = st, r_level = 5, r_total_time = tt, r_used_time = ut,
      r_total_workload = tw, r_rsv = q\<rparr>"

definition pair_job :: "int \<Rightarrow> int \<Rightarrow> int \<Rightarrow> int \<Rightarrow> int \<Rightarrow> job" where
  "pair_job c st w sd wt =
     \<lparr>j_code = c, j_state = st, j_workload = w, j_send_data = sd, j_wait_time = wt,
      j_run_on = None\<rparr>"

definition pair_state :: "ar_resource \<Rightarrow> job list \<Rightarrow> int \<Rightarrow> nat \<Rightarrow> nat \<Rightarrow> asim" where
  "pair_state r js d rn mn =
     \<lparr>first_res = [r], first_job = js, last_res = Some 1, last_job = Some 2,
      resource_number = 1, job_number = 2, resources_gone = 0, jobs_done = d,
      begin_flag = False, randoms = rn, mallocs = mn\<rparr>"

definition pair_queued :: asim where
  "pair_queued = pair_state (pair_res HAS_JOBS 1 0 100 [1, 2])
     [pair_job 1 SENDING_DATA 50 0 1, pair_job 2 WAITING_TO_SEND_DATA 50 0 0] 0 7 9"

definition pair_sent :: asim where
  "pair_sent = pair_state (pair_res HAS_JOBS 2 0 100 [1, 2])
     [pair_job 1 READY_TO_RUN 50 (- 1) 1, pair_job 2 SENDING_DATA 50 0 1] 0 8 10"

definition pair_first :: "nat \<Rightarrow> asim" where
  "pair_first k = pair_state (pair_res HAS_JOBS (3 + k) k (100 - 5 * int k) [1, 2])
     [pair_job 1 RUNNING (50 - 5 * int k) (- 1) 2,
      pair_job 2 READY_TO_RUN 50 (- 1) (1 + int k)] 0 (9 + k) (11 + k)"

definition pair_popped :: asim where
  "pair_popped = pair_state (pair_res NO_ACCEPT_JOBS 14 11 45 [2])
     [pair_job 1 DONE (- 5) (- 1) 2, pair_job 2 READY_TO_RUN 50 (- 1) 12] 0 21 22"

definition pair_second :: "nat \<Rightarrow> asim" where
  "pair_second k = pair_state (pair_res NO_ACCEPT_JOBS (15 + k) (11 + k) (45 - 5 * int k) [2])
     [pair_job 2 RUNNING (50 - 5 * int k) (- 1) 13] 1 (22 + k) (23 + k)"

definition pair_done :: asim where
  "pair_done = pair_state (pair_res NO_ACCEPT_JOBS 26 22 (- 10) [])
     [pair_job 2 DONE (- 5) (- 1) 13] 1 34 34"

section \<open>Chains built by add_res and add_job\<close>

lemma link_after_sorted:
  "sorted_wrt (<) (map key xs) \<Longrightarrow> \<forall>x\<in>set xs. key x \<le> h \<Longrightarrow>
   link_after key h n xs = Some ys \<Longrightarrow> ys = xs @ [n]"
proof (induction xs arbitrary: ys)
  case Nil
  then show ?case by simp
next
  case (Cons x xs)
  show ?case
  proof (cases "key x = h")
    case True
    have "xs = []"
    proof (rule ccontr)
      assume "xs \<noteq> []"
      then obtain y where y: "y \<in> set xs" by (cases xs) auto
      with Cons.prems(1) have "key x < key y" by auto
      moreover from y Cons.prems(2) have "key y \<le> h" by auto
      ultimately show False using True by simp
    qed
    with True Cons.prems(3) show ?thesis by simp
  next
    case False
    with Cons.prems(3) obtain zs where zs: "link_after key h n xs = Some zs" and ys: "ys = x # zs"
      by auto
    from Cons.IH[OF _ _ zs] Cons.prems(1,2) have "zs = xs @ [n]" by simp
    with ys show ?thesis by simp
  qed
qed

lemma append_node_ok:
  assumes "chain_ok key xs lst num" and "append_node key n xs lst = Inr ys"
  shows "ys = xs @ [n]"
proof (cases "xs = []")
  case True
  with assms(2) show ?thesis by (simp add: append_node_def)
next
  case False
  with assms(1) have lst: "lst = Some num" by (simp add: chain_ok_def)
  with False assms(2) obtain zs where "link_after key num n xs = Some zs" "ys = zs"
    by (auto simp: append_node_def split: option.splits)
  with link_after_sorted[of key xs num n zs] assms(1) show ?thesis
    by (simp add: chain_ok_def)
qed

lemma chain_ok_append:
  assumes "chain_ok key xs lst num" and "key n = num + 1"
  shows "chain_ok key (xs @ [n]) (Some (num + 1)) (num + 1)"
  using assms by (fastforce simp: chain_ok_def sorted_wrt_append)

lemma chain_ok_filter:
  assumes "chain_ok key xs lst num"
  shows "chain_ok key (filter P xs) lst num"
proof -
  have "sorted_wrt (<) (map key (filter P xs))"
    using assms by (simp add: chain_ok_def sorted_wrt_map sorted_wrt_filter)
  moreover have "filter P xs \<noteq> [] \<longrightarrow> xs \<noteq> []" by auto
  ultimately show ?thesis using assms by (auto simp: chain_ok_def)
qed

lemma chain_ok_distinct: "chain_ok key xs lst num \<Longrightarrow> distinct (map key xs)"
  unfolding chain_ok_def by (metis strict_sorted_iff strict_sorted_imp_sorted sorted_wrt_map distinct_map sorted_wrt_mono_rel order_less_imp_le  )

section \<open>Following a stored pointer; one job of the mixed executor\<close>

lemma first_index_Some: "first_index P xs = Some i \<longleftrightarrow> first_at P xs i"
proof (induction xs arbitrary: i)
  case Nil
  then show ?case by (simp add: first_at_def)
next
  case (Cons x xs)
  show ?case
  proof (cases "P x")
    case True
    then show ?thesis by (auto simp: first_at_def)
  next
    case False
    show ?thesis
    proof (cases i)
      case 0
      with False show ?thesis by (auto simp: first_at_def)
    next
      case (Suc m)
      have "first_at P (x # xs) (Suc m) \<longleftrightarrow> first_at P xs m"
        using False by (auto simp: first_at_def less_Suc_eq_0_disj)
      with False Suc Cons.IH[of m] show ?thesis by auto
    qed
  qed
qed

lemma first_index_None: "first_index P xs = None \<longleftrightarrow> (\<forall>x\<in>set xs. \<not> P x)"
  by (induction xs) auto

lemma first_index_key:
  assumes "distinct (map key xs)" and "k < length xs"
  shows "first_index (\<lambda>x. key x = key (xs ! k)) xs = Some k"
proof -
  have "\<forall>i<k. key (xs ! i) \<noteq> key (xs ! k)"
    using assms by (auto simp: distinct_conv_nth)
  with assms(2) show ?thesis by (simp add: first_index_Some first_at_def)
qed

lemma deref_live:
  assumes "distinct (map key xs)" and "k < length xs"
  shows "deref key (Some (key (xs ! k))) xs = Inr k"
  using first_index_key[OF assms] by (simp add: deref_def)

lemma deref_Inr:
  "deref key p xs = Inr k \<Longrightarrow> k < length xs \<and> p = Some (key (xs ! k))"
  by (auto simp: deref_def first_index_Some first_at_def split: option.splits)

lemma bound_ok_index:
  assumes "distinct (map r_code rs)" and "bound_ok rs j" and "active j"
  obtains k where "k < length rs" and "deref r_code (j_run_on j) rs = Inr k"
    and "j_run_on j = Some (r_code (rs ! k))" and "r_state (rs ! k) = serving_state j"
proof -
  from assms(2,3) obtain r where r: "r \<in> set rs" "j_run_on j = Some (r_code r)"
    "r_state r = serving_state j" by (auto simp: bound_ok_def)
  then obtain k where k: "k < length rs" "rs ! k = r" by (auto simp: in_set_conv_nth)
  with deref_live[OF assms(1) k(1)] r show ?thesis by (intro that[of k]) auto
qed

lemma res_step_refl: "res_step js rs rs"
  by (simp add: res_step_def)

lemma res_step_update:
  assumes "k < length rs" and "active j" and "j_run_on j = Some (r_code (rs ! k))"
    and "r_code r' = r_code (rs ! k)" and "r_total_time r' = r_total_time (rs ! k)"
    and "r_level r' = r_level (rs ! k)"
    and "r_used_time r' = r_used_time (rs ! k) \<or> r_used_time r' = float_incr (r_used_time (rs ! k))"
  shows "res_step [j] rs (rs[k := r'])"
  unfolding res_step_def
proof (intro conjI allI impI)
  show "map r_code (rs[k := r']) = map r_code rs"
    using assms(1,4) by (simp add: map_update list_update_same_conv)
next
  fix i assume "i < length rs"
  then show "r_total_time (rs[k := r'] ! i) = r_total_time (rs ! i)"
    using assms(5) by (cases "i = k") auto
next
  fix i assume "i < length rs"
  then show "r_level (rs[k := r'] ! i) = r_level (rs ! i)"
    using assms(6) by (cases "i = k") auto
next
  fix i assume "i < length rs"
  then show "rs[k := r'] ! i = rs ! i \<or>
         (\<exists>j\<in>set [j]. active j \<and> j_run_on j = Some (r_code (rs ! i))) \<and>
         (r_used_time (rs[k := r'] ! i) = r_used_time (rs ! i) \<or>
          r_used_time (rs[k := r'] ! i) = float_incr (r_used_time (rs ! i)))"
    using assms(2,3,7) by (cases "i = k") auto
qed

lemma bound_ok_update:
  assumes "k < length rs" and "j_run_on j' = Some (r_code r')" and "r_state r' = serving_state j'"
  shows "bound_ok (rs[k := r']) j'"
  unfolding bound_ok_def using assms by (auto intro!: bexI[of _ r'] simp: set_update_memI)

lemma run_send_job_mixed_ok:
  assumes "distinct (map r_code rs)" and "bound_ok rs j"
  shows "\<exists>j' rs' n'. run_send_job_mixed e j rs n = Inr (j', rs', n') \<and>
           res_step [j] rs rs' \<and> job_step j j' \<and> bound_ok rs' j'"
proof -
  consider (send) "j_state j = SENDING_DATA" | (run) "j_state j = RUNNING" | (other) "\<not> active j"
    by (auto simp: active_def)
  then show ?thesis
  proof cases
    case send
    then have act: "active j" by (simp add: active_def)
    from bound_ok_index[OF assms act] obtain k where k: "k < length rs"
      "deref r_code (j_run_on j) rs = Inr k" "j_run_on j = Some (r_code (rs ! k))"
      "r_state (rs ! k) = serving_state j" by blast
    show ?thesis
    proof (cases "j_send_data j - 1 \<le> 0")
      case True
      let ?j = "j\<lparr>j_send_data := j_send_data j - 1, j_state := RUNNING\<rparr>"
      let ?r = "(rs ! k)\<lparr>r_state := USED\<rparr>"
      have "run_send_job_mixed e j rs n = Inr (?j, rs[k := ?r], n)"
        using send True k(2) by (simp add: run_send_job_mixed_def)
      moreover have "res_step [j] rs (rs[k := ?r])"
        by (rule res_step_update[OF k(1) act k(3)]) simp_all
      moreover have "job_step j ?j" using act by (simp add: job_step_def)
      moreover have "bound_ok (rs[k := ?r]) ?j"
        by (rule bound_ok_update[OF k(1)]) (simp_all add: k(3) serving_state_def)
      ultimately show ?thesis by blast
    next
      case False
      let ?j = "j\<lparr>j_send_data := j_send_data j - 1\<rparr>"
      have "run_send_job_mixed e j rs n = Inr (?j, rs, n)"
        using send False by (simp add: run_send_job_mixed_def)
      moreover have "job_step j ?j" by (simp add: job_step_def active_def)
      moreover have "bound_ok rs ?j"
        using assms(2) by (simp add: bound_ok_def active_def serving_state_def)
      ultimately show ?thesis using res_step_refl by blast
    qed
  next
    case run
    then have act: "active j" by (simp add: active_def)
    from bound_ok_index[OF assms act] obtain k where k: "k < length rs"
      "deref r_code (j_run_on j) rs = Inr k" "j_run_on j = Some (r_code (rs ! k))"
      "r_state (rs ! k) = serving_state j" by blast
    let ?r1 = "(rs ! k)\<lparr>r_used_time := float_incr (r_used_time (rs ! k))\<rparr>"
    show ?thesis
    proof (cases "j_workload j - r_level (rs ! k) \<le> 0")
      case True
      let ?j = "j\<lparr>j_workload := j_workload j - r_level (rs ! k), j_state := DONE\<rparr>"
      let ?r = "?r1\<lparr>r_state := (if int (random_src e n mod 1000) \<le> RL_PROB
                                      then LEAVING else AVAILABLE)\<rparr>"
      have "run_send_job_mixed e j rs n = Inr (?j, rs[k := ?r], Suc n)"
        using run True k(2) by (simp add: run_send_job_mixed_def Let_def)
      moreover have "res_step [j] rs (rs[k := ?r])"
        by (rule res_step_update[OF k(1) act k(3)]) simp_all
      moreover have "job_step j ?j" using act by (simp add: job_step_def)
      moreover have "bound_ok (rs[k := ?r]) ?j" by (simp add: bound_ok_def active_def)
      ultimately show ?thesis by blast
    next
      case False
      let ?j = "j\<lparr>j_workload := j_workload j - r_level (rs ! k)\<rparr>"
      have "run_send_job_mixed e j rs n = Inr (?j, rs[k := ?r1], n)"
        using run False k(2) by (simp add: run_send_job_mixed_def Let_def)
      moreover have "res_step [j] rs (rs[k := ?r1])"
        by (rule res_step_update[OF k(1) act k(3)]) simp_all
      moreover have "job_step j ?j" using act by (simp add: job_step_def)
      moreover have "bound_ok (rs[k := ?r1]) ?j"
        by (rule bound_ok_update[OF k(1)])
          (use k(3,4) run in \<open>simp_all add: serving_state_def\<close>)
      ultimately show ?thesis by blast
    qed
  next
    case other
    then have "run_send_job_mixed e j rs n = Inr (j, rs, n)"
      by (simp add: run_send_job_mixed_def active_def)
    moreover have "job_step j j" by (simp add: job_step_def)
    ultimately show ?thesis using res_step_refl assms(2) by blast
  qed
qed

section \<open>The executor pass of mixed-sim.c\<close>

lemma res_step_length: "res_step js rs rs' \<Longrightarrow> length rs' = length rs"
  unfolding res_step_def by (metis length_map)

lemma res_step_distinct:
  "res_step js rs rs' \<Longrightarrow> distinct (map r_code rs) \<Longrightarrow> distinct (map r_code rs')"
  by (simp add: res_step_def)

lemma bound_ok_frame:
  assumes "res_step X rs rs'" and "bound_ok rs j"
    and "\<forall>x\<in>set X. active x \<longrightarrow> j_run_on x \<noteq> j_run_on j"
  shows "bound_ok rs' j"
  unfolding bound_ok_def
proof
  assume "active j"
  with assms(2) obtain r where r: "r \<in> set rs" "j_run_on j = Some (r_code r)"
    "r_state r = serving_state j" by (auto simp: bound_ok_def)
  then obtain k where k: "k < length rs" "rs ! k = r" by (auto simp: in_set_conv_nth)
  from assms(1) k(1) have "rs' ! k = rs ! k \<or>
      (\<exists>j\<in>set X. active j \<and> j_run_on j = Some (r_code (rs ! k)))"
    unfolding res_step_def by blast
  with assms(3) r(2) k(2) have "rs' ! k = r" by auto
  moreover have "k < length rs'" using k(1) res_step_length[OF assms(1)] by simp
  ultimately have "r \<in> set rs'" by (metis nth_mem)
  with r show "\<exists>r\<in>set rs'. j_run_on j = Some (r_code r) \<and> r_state r = serving_state j"
    by blast
qed

lemma res_step_trans:
  assumes "res_step [j] rs rs1" and "res_step js rs1 rs'"
    and "active j \<longrightarrow> (\<forall>x\<in>set js. active x \<longrightarrow> j_run_on x \<noteq> j_run_on j)"
  shows "res_step (j # js) rs rs'"
  unfolding res_step_def
proof (intro conjI allI impI)
  show "map r_code rs' = map r_code rs"
    using assms(1,2) by (simp add: res_step_def)
next
  fix k assume k: "k < length rs"
  then have k1: "k < length rs1" using res_step_length[OF assms(1)] by simp
  from assms(1) have c: "map r_code rs1 = map r_code rs" by (simp add: res_step_def)
  have code: "r_code (rs1 ! k) = r_code (rs ! k)"
    using k k1 c by (metis nth_map)
  from assms(1) k have a: "r_total_time (rs1 ! k) = r_total_time (rs ! k)"
    "r_level (rs1 ! k) = r_level (rs ! k)"
    "rs1 ! k = rs ! k \<or> active j \<and> j_run_on j = Some (r_code (rs ! k)) \<and>
         (r_used_time (rs1 ! k) = r_used_time (rs ! k) \<or>
          r_used_time (rs1 ! k) = float_incr (r_used_time (rs ! k)))"
    unfolding res_step_def by auto
  from assms(2) k1 have b: "r_total_time (rs' ! k) = r_total_time (rs1 ! k)"
    "r_level (rs' ! k) = r_level (rs1 ! k)"
    "rs' ! k = rs1 ! k \<or> (\<exists>x\<in>set js. active x \<and> j_run_on x = Some (r_code (rs1 ! k))) \<and>
         (r_used_time (rs' ! k) = r_used_time (rs1 ! k) \<or>
          r_used_time (rs' ! k) = float_incr (r_used_time (rs1 ! k)))"
    unfolding res_step_def by auto
  show "r_total_time (rs' ! k) = r_total_time (rs ! k)" using a(1) b(1) by simp
  show "r_level (rs' ! k) = r_level (rs ! k)" using a(2) b(2) by simp
  show "rs' ! k = rs ! k \<or>
         (\<exists>j\<in>set (j # js). active j \<and> j_run_on j = Some (r_code (rs ! k))) \<and>
         (r_used_time (rs' ! k) = r_used_time (rs ! k) \<or>
          r_used_time (rs' ! k) = float_incr (r_used_time (rs ! k)))"
  proof (cases "rs1 ! k = rs ! k")
    case True
    with b(3) show ?thesis by auto
  next
    case False
    with a(3) have j: "active j" "j_run_on j = Some (r_code (rs ! k))"
      and u: "r_used_time (rs1 ! k) = r_used_time (rs ! k) \<or>
              r_used_time (rs1 ! k) = float_incr (r_used_time (rs ! k))" by auto
    from j assms(3) code have "\<not> (\<exists>x\<in>set js. active x \<and> j_run_on x = Some (r_code (rs1 ! k)))"
      by auto
    with b(3) have "rs' ! k = rs1 ! k" by blast
    with j u show ?thesis by auto
  qed
qed

lemma job_step_distinct:
  assumes "list_all2 job_step js js'"
  shows "set (map j_run_on (filter active js')) \<subseteq> set (map j_run_on (filter active js)) \<and>
         (distinct (map j_run_on (filter active js)) \<longrightarrow>
          distinct (map j_run_on (filter active js')))"
  using assms
proof (induction rule: list_all2_induct)
  case Nil
  then show ?case by simp
next
  case (Cons j js j' js')
  then show ?case by (auto simp: job_step_def)
qed

lemma run_send_loop_mixed_ok:
  assumes "distinct (map r_code rs)" and "\<forall>j\<in>set js. bound_ok rs j"
    and "distinct (map j_run_on (filter active js))"
  shows "\<exists>js' rs' n'. run_send_loop_mixed e js rs n = Inr (js', rs', n') \<and>
           res_step js rs rs' \<and> list_all2 job_step js js' \<and> (\<forall>j\<in>set js'. bound_ok rs' j)"
  using assms
proof (induction js arbitrary: rs n)
  case Nil
  then show ?case by (simp add: res_step_refl)
next
  case (Cons j js)
  from Cons.prems(2) have bj: "bound_ok rs j" by simp
  from run_send_job_mixed_ok[OF Cons.prems(1) bj, of e n]
  obtain j' rs1 n1 where h: "run_send_job_mixed e j rs n = Inr (j', rs1, n1)"
    "res_step [j] rs rs1" "job_step j j'" "bound_ok rs1 j'" by blast
  have sep: "active j \<longrightarrow> (\<forall>x\<in>set js. active x \<longrightarrow> j_run_on x \<noteq> j_run_on j)"
  proof (intro impI ballI)
    fix x assume "active j" "x \<in> set js" "active x"
    with Cons.prems(3) have "j_run_on j \<notin> j_run_on ` {x \<in> set js. active x}"
      and "j_run_on x \<in> j_run_on ` {x \<in> set js. active x}" by auto
    then show "j_run_on x \<noteq> j_run_on j" by metis
  qed
  have d1: "distinct (map r_code rs1)" by (rule res_step_distinct[OF h(2) Cons.prems(1)])
  have b1: "\<forall>x\<in>set js. bound_ok rs1 x"
  proof
    fix x assume x: "x \<in> set js"
    show "bound_ok rs1 x"
    proof (cases "active x")
      case True
      with sep x have "\<forall>y\<in>set [j]. active y \<longrightarrow> j_run_on y \<noteq> j_run_on x" by auto
      with bound_ok_frame[OF h(2)] Cons.prems(2) x show ?thesis by auto
    next
      case False
      then show ?thesis by (simp add: bound_ok_def)
    qed
  qed
  have d2: "distinct (map j_run_on (filter active js))" using Cons.prems(3) by (auto split: if_splits)
  from Cons.IH[OF d1 b1 d2, of n1]
  obtain js' rs' n' where ih: "run_send_loop_mixed e js rs1 n1 = Inr (js', rs', n')"
    "res_step js rs1 rs'" "list_all2 job_step js js'" "\<forall>x\<in>set js'. bound_ok rs' x" by blast
  have "run_send_loop_mixed e (j # js) rs n = Inr (j' # js', rs', n')"
    using h(1) ih(1) by simp
  moreover have "res_step (j # js) rs rs'" by (rule res_step_trans[OF h(2) ih(2) sep])
  moreover have "list_all2 job_step (j # js) (j' # js')" using h(3) ih(3) by simp
  moreover have "bound_ok rs' j'"
  proof (cases "active j'")
    case True
    with h(3) sep have "\<forall>x\<in>set js. active x \<longrightarrow> j_run_on x \<noteq> j_run_on j'"
      by (auto simp: job_step_def)
    from bound_ok_frame[OF ih(2) h(4) this] show ?thesis .
  next
    case False
    then show ?thesis by (simp add: bound_ok_def)
  qed
  ultimately show ?case using ih(4) by auto
qed

section \<open>The trace and admission steps of mixed-sim.c\<close>

lemma float_incr_mono: "a \<le> b \<Longrightarrow> float_incr a \<le> float_incr b"
  by (simp add: float_incr_def)

lemma float_incr_ge: "a \<le> float_incr a"
  by (simp add: float_incr_def)

lemma trace_job_mixed_simps [simp]:
  "j_run_on (trace_job_mixed j) = j_run_on j"
  "j_state (trace_job_mixed j) = j_state j"
  "j_code (trace_job_mixed j) = j_code j"
  "active (trace_job_mixed j) = active j"
  "serving_state (trace_job_mixed j) = serving_state j"
  by (simp_all add: trace_job_mixed_def active_def serving_state_def)

lemma trace_res_simps [simp]:
  "r_code (trace_res r) = r_code r"
  "r_state (trace_res r) = r_state r"
  "r_level (trace_res r) = r_level r"
  "r_used_time (trace_res r) = r_used_time r"
  "r_total_time (trace_res r) = float_incr (r_total_time r)"
  by (simp_all add: trace_res_def)

lemma bound_ok_trace:
  "bound_ok rs j \<Longrightarrow> bound_ok (map trace_res rs) (trace_job_mixed j)"
  unfolding bound_ok_def by auto

lemma chain_ok_cong:
  "map key ys = map key xs \<Longrightarrow> chain_ok key xs lst num \<Longrightarrow> chain_ok key ys lst num"
  unfolding chain_ok_def
  by (metis (no_types, lifting) Nil_is_map_conv image_iff list.set_map)

lemma traceall_mixed_fields:
  assumes "traceall_mixed s = Next s' \<or> traceall_mixed s = Exit s'"
  shows "first_job s' = map trace_job_mixed (first_job s)"
    and "first_res s' = map trace_res (first_res s)"
    and "last_res s' = last_res s" and "resource_number s' = resource_number s"
    and "last_job s' = last_job s" and "job_number s' = job_number s"
  using assms by (auto simp: traceall_mixed_def Let_def split: if_splits)

lemma traceall_mixed_inv:
  assumes "traceall_mixed s = Next s'" and "inv_mixed s" and "time_ok (first_res s)"
  shows "inv_mixed s' \<and> time_mid_mixed (first_res s')"
proof -
  note f = traceall_mixed_fields[OF disjI1, OF assms(1)]
  have "chain_ok r_code (first_res s') (last_res s') (resource_number s')"
    using assms(2) unfolding f inv_mixed_def
    by (auto intro: chain_ok_cong[rotated] simp: comp_def)
  moreover have "\<forall>j\<in>set (first_job s'). bound_ok (first_res s') j"
    using assms(2) unfolding f inv_mixed_def by (auto intro: bound_ok_trace)
  moreover have "distinct (map j_run_on (filter active (first_job s')))"
    using assms(2) unfolding f inv_mixed_def by (simp add: filter_map comp_def)
  moreover have "time_mid_mixed (first_res s')"
    using assms(3) unfolding f time_ok_def time_mid_mixed_def
    by (auto intro: float_incr_mono order_trans[OF _ float_incr_ge])
  ultimately show ?thesis by (simp add: inv_mixed_def)
qed

lemma bound_ok_mono: "bound_ok rs j \<Longrightarrow> set rs \<subseteq> set rs' \<Longrightarrow> bound_ok rs' j"
  unfolding bound_ok_def by blast

lemma add_res_mixed_cases:
  assumes "add_res_mixed e s = Inr s'"
    and "chain_ok r_code (first_res s) (last_res s) (resource_number s)"
  shows "first_job s' = first_job s \<and> begin_flag s' = begin_flag s \<and>
         (first_res s' = first_res s \<and> last_res s' = last_res s \<and>
            resource_number s' = resource_number s \<or>
          (\<exists>r. first_res s' = first_res s @ [r] \<and> r_code r = resource_number s + 1 \<and>
                r_state r = AVAILABLE \<and> r_used_time r = 0 \<and> r_total_time r = 0 \<and>
                last_res s' = Some (resource_number s + 1) \<and>
                resource_number s' = resource_number s + 1))"
proof (cases "malloc_src e (mallocs s)")
  case False
  with assms(1) show ?thesis by (auto simp: add_res_mixed_def)
next
  case True
  let ?r = "\<lparr>r_code = resource_number s + 1, r_state = AVAILABLE,
             r_level = 1 + int (random_src e (randoms s) mod 5),
             r_total_time = 0, r_used_time = 0\<rparr>"
  from True assms(1) obtain rs where rs: "append_node r_code ?r (first_res s) (last_res s) = Inr rs"
    and s': "s' = s\<lparr>first_res := rs, last_res := Some (resource_number s + 1),
                    resource_number := resource_number s + 1,
                    randoms := Suc (randoms s), mallocs := Suc (mallocs s)\<rparr>"
    by (auto simp: add_res_mixed_def Let_def split: sum.splits)
  from append_node_ok[OF assms(2) rs] have "rs = first_res s @ [?r]" .
  with s' show ?thesis by auto
qed

lemma add_res_mixed_inv:
  assumes "add_res_mixed e s = Inr s'" and "inv_mixed s" and "time_mid_mixed (first_res s)"
  shows "inv_mixed s' \<and> time_mid_mixed (first_res s') \<and> begin_flag s' = begin_flag s"
proof -
  from assms(2) have c: "chain_ok r_code (first_res s) (last_res s) (resource_number s)"
    by (simp add: inv_mixed_def)
  from add_res_mixed_cases[OF assms(1) c]
  have j: "first_job s' = first_job s" and b: "begin_flag s' = begin_flag s"
    and d: "first_res s' = first_res s \<and> last_res s' = last_res s \<and>
            resource_number s' = resource_number s \<or>
          (\<exists>r. first_res s' = first_res s @ [r] \<and> r_code r = resource_number s + 1 \<and>
                r_state r = AVAILABLE \<and> r_used_time r = 0 \<and> r_total_time r = 0 \<and>
                last_res s' = Some (resource_number s + 1) \<and>
                resource_number s' = resource_number s + 1)" by auto
  from d show ?thesis
  proof
    assume "first_res s' = first_res s \<and> last_res s' = last_res s \<and>
            resource_number s' = resource_number s"
    with assms(2,3) j b show ?thesis by (simp add: inv_mixed_def)
  next
    assume "\<exists>r. first_res s' = first_res s @ [r] \<and> r_code r = resource_number s + 1 \<and>
                r_state r = AVAILABLE \<and> r_used_time r = 0 \<and> r_total_time r = 0 \<and>
                last_res s' = Some (resource_number s + 1) \<and>
                resource_number s' = resource_number s + 1"
    then obtain r where r: "first_res s' = first_res s @ [r]" "r_code r = resource_number s + 1"
      "r_state r = AVAILABLE" "r_used_time r = 0" "r_total_time r = 0"
      "last_res s' = Some (resource_number s + 1)" "resource_number s' = resource_number s + 1"
      by blast
    have "chain_ok r_code (first_res s') (last_res s') (resource_number s')"
      unfolding r(1,6,7) by (rule chain_ok_append[OF c r(2)])
    moreover have "\<forall>j\<in>set (first_job s'). bound_ok (first_res s') j"
      using assms(2) unfolding j r(1) inv_mixed_def by (auto intro: bound_ok_mono)
    moreover have "time_mid_mixed (first_res s')"
      using assms(3) r(3,4,5) unfolding r(1) time_mid_mixed_def by auto
    ultimately show ?thesis using assms(2) j b by (simp add: inv_mixed_def)
  qed
qed

lemma add_res_times_mixed_inv:
  "add_res_times_mixed k e s = Inr s' \<Longrightarrow> inv_mixed s \<Longrightarrow> time_mid_mixed (first_res s) \<Longrightarrow>
   inv_mixed s' \<and> time_mid_mixed (first_res s')"
proof (induction k arbitrary: s)
  case 0
  then show ?case by simp
next
  case (Suc k)
  from Suc.prems(1) obtain s1 where s1: "add_res_mixed e s = Inr s1"
    "add_res_times_mixed k e s1 = Inr s'" by (auto split: sum.splits)
  from add_res_mixed_inv[OF s1(1) Suc.prems(2,3)] Suc.IH[OF s1(2)] show ?case by blast
qed

lemma link_after_prefix:
  "link_after key h n xs = Some ys \<Longrightarrow> \<exists>k. ys = take k xs @ [n]"
proof (induction xs arbitrary: ys)
  case Nil
  then show ?case by simp
next
  case (Cons x xs)
  show ?case
  proof (cases "key x = h")
    case True
    with Cons.prems have "ys = take 1 (x # xs) @ [n]" by simp
    then show ?thesis by blast
  next
    case False
    with Cons.prems obtain zs where zs: "link_after key h n xs = Some zs" "ys = x # zs" by auto
    from Cons.IH[OF zs(1)] obtain k where "zs = take k xs @ [n]" by blast
    with zs(2) have "ys = take (Suc k) (x # xs) @ [n]" by simp
    then show ?thesis by blast
  qed
qed

lemma append_node_prefix:
  "append_node key n xs lst = Inr ys \<Longrightarrow> \<exists>k. ys = take k xs @ [n]"
  by (auto simp: append_node_def dest: link_after_prefix split: if_splits option.splits)

lemma add_job_cases:
  assumes "add_job e s = Inr s'"
  shows "first_res s' = first_res s \<and> last_res s' = last_res s \<and>
         resource_number s' = resource_number s \<and> begin_flag s' = begin_flag s \<and>
         (first_job s' = first_job s \<or>
          (\<exists>k j. first_job s' = take k (first_job s) @ [j] \<and> j_state j = WAITING))"
proof (cases "malloc_src e (mallocs s)")
  case False
  with assms show ?thesis by (auto simp: add_job_def)
next
  case True
  with assms show ?thesis
    by (auto simp: add_job_def Let_def split: sum.splits dest!: append_node_prefix)
qed

lemma distinct_filter_take:
  "distinct (map f (filter P xs)) \<Longrightarrow> distinct (map f (filter P (take k xs)))"
proof -
  assume d: "distinct (map f (filter P xs))"
  have "xs = take k xs @ drop k xs" by simp
  then have "map f (filter P xs) = map f (filter P (take k xs)) @ map f (filter P (drop k xs))"
    by (metis filter_append map_append)
  with d show ?thesis by (metis distinct_append)
qed

lemma add_job_inv_mixed:
  assumes "add_job e s = Inr s'" and "inv_mixed s"
  shows "inv_mixed s' \<and> first_res s' = first_res s"
proof -
  from add_job_cases[OF assms(1)]
  have f: "first_res s' = first_res s" "last_res s' = last_res s"
    "resource_number s' = resource_number s"
    and d: "first_job s' = first_job s \<or>
          (\<exists>k j. first_job s' = take k (first_job s) @ [j] \<and> j_state j = WAITING)" by auto
  from d show ?thesis
  proof
    assume "first_job s' = first_job s"
    with assms(2) f show ?thesis by (simp add: inv_mixed_def)
  next
    assume "\<exists>k j. first_job s' = take k (first_job s) @ [j] \<and> j_state j = WAITING"
    then obtain k j where j: "first_job s' = take k (first_job s) @ [j]" "j_state j = WAITING"
      by blast
    have na: "\<not> active j" using j(2) by (simp add: active_def)
    have "\<forall>x\<in>set (first_job s'). bound_ok (first_res s') x"
      using assms(2) na unfolding j(1) f inv_mixed_def
      by (auto simp: bound_ok_def dest: in_set_takeD)
    moreover have "distinct (map j_run_on (filter active (first_job s')))"
      using assms(2) na unfolding j(1) inv_mixed_def by (simp add: distinct_filter_take)
    ultimately show ?thesis using assms(2) f by (simp add: inv_mixed_def)
  qed
qed

lemma remove_inv_mixed:
  assumes "inv_mixed s" and "time_mid_mixed (first_res s)"
  shows "inv_mixed (remove_leaving_resources (remove_done_jobs s)) \<and>
         time_mid_mixed (first_res (remove_leaving_resources (remove_done_jobs s)))"
proof -
  let ?s = "remove_leaving_resources (remove_done_jobs s)"
  have f: "first_res ?s = filter (\<lambda>r. r_state r \<noteq> LEAVING) (first_res s)"
    "first_job ?s = filter (\<lambda>j. j_state j \<noteq> DONE) (first_job s)"
    "last_res ?s = last_res s" "resource_number ?s = resource_number s"
    by (simp_all add: remove_leaving_resources_def remove_done_jobs_def)
  have "chain_ok r_code (first_res ?s) (last_res ?s) (resource_number ?s)"
    using assms(1) unfolding f inv_mixed_def by (auto intro: chain_ok_filter)
  moreover have "\<forall>j\<in>set (first_job ?s). bound_ok (first_res ?s) j"
    using assms(1) unfolding f inv_mixed_def bound_ok_def
    by (fastforce simp: serving_state_def)
  moreover have "filter active (filter (\<lambda>j. j_state j \<noteq> DONE) (first_job s)) =
       filter active (first_job s)"
    by (auto simp: active_def intro!: filter_cong)
  then have "distinct (map j_run_on (filter active (first_job ?s)))"
    using assms(1) unfolding f inv_mixed_def by simp
  moreover have "time_mid_mixed (first_res ?s)"
    using assms(2) unfolding f time_mid_mixed_def by auto
  ultimately show ?thesis by (simp add: inv_mixed_def)
qed

lemma add_remove_mixed_Inr:
  assumes "add_remove_mixed e s = Inr s'"
  obtains s1 where
    "(if begin_flag s then add_res_times_mixed 5 e (s\<lparr>begin_flag := False\<rparr>) else Inr s) = Inr s1"
    and "add_draw_mixed e
           ((remove_leaving_resources (remove_done_jobs s1))
              \<lparr>randoms := Suc (randoms (remove_leaving_resources (remove_done_jobs s1)))\<rparr>)
           (1 + int (random_src e (randoms (remove_leaving_resources (remove_done_jobs s1))) mod 1000))
         = Inr s'"
proof (cases "if begin_flag s then add_res_times_mixed 5 e (s\<lparr>begin_flag := False\<rparr>) else Inr s")
  case (Inl f)
  then have "add_remove_mixed e s = Inl f" unfolding add_remove_mixed_def by (simp only: sum.case)
  with assms show ?thesis by simp
next
  case (Inr s1)
  then have "add_remove_mixed e s = add_draw_mixed e
           ((remove_leaving_resources (remove_done_jobs s1))
              \<lparr>randoms := Suc (randoms (remove_leaving_resources (remove_done_jobs s1)))\<rparr>)
           (1 + int (random_src e (randoms (remove_leaving_resources (remove_done_jobs s1))) mod 1000))"
    unfolding add_remove_mixed_def by (simp only: sum.case Let_def)
  with assms Inr that show ?thesis by simp
qed


lemma add_draw_mixed_cases:
  assumes "add_draw_mixed e s i = Inr s'"
  shows "add_res_mixed e s = Inr s' \<or> add_job e s = Inr s' \<or> s' = s"
  using assms unfolding add_draw_mixed_def by (auto split: if_splits)

lemma inv_mixed_cong:
  assumes "first_res s' = first_res s" "first_job s' = first_job s" "last_res s' = last_res s"
    "resource_number s' = resource_number s"
  shows "inv_mixed s' = inv_mixed s"
  unfolding inv_mixed_def assms ..

lemma add_remove_mixed_inv:
  assumes "add_remove_mixed e s = Inr s'" and "inv_mixed s" and "time_mid_mixed (first_res s)"
  shows "inv_mixed s' \<and> time_mid_mixed (first_res s')"
proof -
  let ?s0 = "s\<lparr>begin_flag := False\<rparr>"
  from add_remove_mixed_Inr[OF assms(1)] obtain s1 where
    s1: "(if begin_flag s then add_res_times_mixed 5 e ?s0 else Inr s) = Inr s1"
    and d: "add_draw_mixed e
           ((remove_leaving_resources (remove_done_jobs s1))
              \<lparr>randoms := Suc (randoms (remove_leaving_resources (remove_done_jobs s1)))\<rparr>)
           (1 + int (random_src e (randoms (remove_leaving_resources (remove_done_jobs s1))) mod 1000))
         = Inr s'" by blast
  have "inv_mixed ?s0 = inv_mixed s" by (rule inv_mixed_cong) simp_all
  with assms(2,3) have i0: "inv_mixed ?s0" "time_mid_mixed (first_res ?s0)" by simp_all
  have i1: "inv_mixed s1 \<and> time_mid_mixed (first_res s1)"
  proof (cases "begin_flag s")
    case True
    with s1 have "add_res_times_mixed 5 e ?s0 = Inr s1" by (simp only: if_True)
    from add_res_times_mixed_inv[OF this i0] show ?thesis .
  next
    case False
    with s1 have "s1 = s" by (simp only: if_False sum.inject)
    with assms(2,3) show ?thesis by simp
  qed
  define s2 where "s2 = remove_leaving_resources (remove_done_jobs s1)"
  define s3 where "s3 = s2\<lparr>randoms := Suc (randoms s2)\<rparr>"
  from remove_inv_mixed i1 have i2: "inv_mixed s2" "time_mid_mixed (first_res s2)"
    unfolding s2_def by blast+
  have "inv_mixed s3 = inv_mixed s2" by (rule inv_mixed_cong) (simp_all add: s3_def)
  with i2 have i3: "inv_mixed s3" "time_mid_mixed (first_res s3)" by (simp_all add: s3_def)
  from d have "add_draw_mixed e s3 (1 + int (random_src e (randoms s2) mod 1000)) = Inr s'"
    unfolding s2_def s3_def .
  from add_draw_mixed_cases[OF this]
  consider "add_res_mixed e s3 = Inr s'" | "add_job e s3 = Inr s'" | "s' = s3" by blast
  then show ?thesis
  proof cases
    case 1
    from add_res_mixed_inv[OF 1 i3] show ?thesis by blast
  next
    case 2
    from add_job_inv_mixed[OF 2 i3(1)] i3(2) show ?thesis by simp
  next
    case 3
    with i3 show ?thesis by simp
  qed
qed

section \<open>The executor and the scheduler of mixed-sim.c keep the invariant\<close>

lemma distinct_key_eq:
  assumes "distinct (map key xs)" and "x \<in> set xs" and "y \<in> set xs" and "key x = key y"
  shows "x = y"
  using assms by (meson distinct_map inj_onD)

lemma run_send_mixed_inv:
  assumes "inv_mixed s" and "time_mid_mixed (first_res s)"
  shows "\<exists>s'. run_send_mixed e s = Inr s' \<and> inv_mixed s' \<and> time_ok (first_res s') \<and>
              res_step (first_job s) (first_res s) (first_res s')"
proof -
  from assms(1) have c: "chain_ok r_code (first_res s) (last_res s) (resource_number s)"
    and b: "\<forall>j\<in>set (first_job s). bound_ok (first_res s) j"
    and d: "distinct (map j_run_on (filter active (first_job s)))"
    by (simp_all add: inv_mixed_def)
  have dc: "distinct (map r_code (first_res s))" by (rule chain_ok_distinct[OF c])
  from run_send_loop_mixed_ok[OF dc b d, of e "randoms s"]
  obtain js' rs' n' where h:
    "run_send_loop_mixed e (first_job s) (first_res s) (randoms s) = Inr (js', rs', n')"
    "res_step (first_job s) (first_res s) rs'" "list_all2 job_step (first_job s) js'"
    "\<forall>j\<in>set js'. bound_ok rs' j" by blast
  let ?s' = "s\<lparr>first_job := js', first_res := rs', randoms := n'\<rparr>"
  have r: "run_send_mixed e s = Inr ?s'" using h(1) by (simp add: run_send_mixed_def)
  have mc: "map r_code rs' = map r_code (first_res s)" using h(2) by (simp add: res_step_def)
  have "chain_ok r_code rs' (last_res s) (resource_number s)"
    by (rule chain_ok_cong[OF mc c])
  moreover have "distinct (map j_run_on (filter active js'))"
    using job_step_distinct[OF h(3)] d by blast
  ultimately have inv: "inv_mixed ?s'" using h(4) by (simp add: inv_mixed_def)
  have "time_ok rs'"
    unfolding time_ok_def
  proof
    fix r' assume "r' \<in> set rs'"
    then obtain k where k: "k < length rs'" "rs' ! k = r'" by (auto simp: in_set_conv_nth)
    then have k0: "k < length (first_res s)" using res_step_length[OF h(2)] by simp
    let ?r = "first_res s ! k"
    have rin: "?r \<in> set (first_res s)" using k0 by simp
    from h(2) k0 have t: "r_total_time (rs' ! k) = r_total_time ?r"
      and u: "rs' ! k = ?r \<or>
         (\<exists>j\<in>set (first_job s). active j \<and> j_run_on j = Some (r_code ?r)) \<and>
         (r_used_time (rs' ! k) = r_used_time ?r \<or>
          r_used_time (rs' ! k) = float_incr (r_used_time ?r))"
      unfolding res_step_def by blast+
    from assms(2) rin have m: "r_used_time ?r \<le> r_total_time ?r"
      "r_state ?r \<noteq> AVAILABLE \<longrightarrow> float_incr (r_used_time ?r) \<le> r_total_time ?r"
      by (simp_all add: time_mid_mixed_def)
    from u show "r_used_time r' \<le> r_total_time r'"
    proof
      assume "rs' ! k = ?r"
      with m(1) k(2) show ?thesis by simp
    next
      assume a: "(\<exists>j\<in>set (first_job s). active j \<and> j_run_on j = Some (r_code ?r)) \<and>
         (r_used_time (rs' ! k) = r_used_time ?r \<or>
          r_used_time (rs' ! k) = float_incr (r_used_time ?r))"
      then obtain j where j: "j \<in> set (first_job s)" "active j" "j_run_on j = Some (r_code ?r)"
        by blast
      with b obtain x where x: "x \<in> set (first_res s)" "j_run_on j = Some (r_code x)"
        "r_state x = serving_state j" by (auto simp: bound_ok_def)
      from x(2) j(3) have "r_code x = r_code ?r" by simp
      from distinct_key_eq[OF dc x(1) rin this] have "x = ?r" .
      with x(3) have "r_state ?r \<noteq> AVAILABLE" by (simp add: serving_state_def)
      with m(2) have "float_incr (r_used_time ?r) \<le> r_total_time ?r" by simp
      with a m(1) t k(2) show ?thesis by auto
    qed
  qed
  with r inv h(2) show ?thesis by simp
qed

lemma select_best_waiting:
  assumes "rest = drop i js" and "b < length js" and "j_state (js ! b) = WAITING"
  shows "select_best bs b i rest < length js \<and>
         j_state (js ! select_best bs b i rest) = WAITING"
  using assms
proof (induction rest arbitrary: i b)
  case Nil
  then show ?case by simp
next
  case (Cons j rest)
  from Cons.prems(1) have i: "i < length js"
    by (metis drop_all list.distinct(1) not_le)
  from Cons.prems(1) i have j: "j = js ! i" and rest: "rest = drop (Suc i) js"
    by (metis Cons_nth_drop_Suc list.inject)+
  show ?case
  proof (cases "j_state j = WAITING \<and> score j > bs")
    case True
    with Cons.IH[OF rest i] j show ?thesis by simp
  next
    case False
    with Cons.IH[OF rest Cons.prems(2,3)] show ?thesis by auto
  qed
qed

lemma schedule_mixed_cases:
  "schedule_mixed s = s \<or>
   (\<exists>ri bi. first_at (\<lambda>r. r_state r = AVAILABLE) (first_res s) ri \<and>
      bi < length (first_job s) \<and> j_state (first_job s ! bi) = WAITING \<and>
      schedule_mixed s =
        s\<lparr>first_job := (first_job s)
             [bi := (first_job s ! bi)\<lparr>j_run_on := Some (r_code (first_res s ! ri)),
                                       j_state := SENDING_DATA\<rparr>],
           first_res := (first_res s)[ri := (first_res s ! ri)\<lparr>r_state := RECEIVING_DATA\<rparr>]\<rparr>)"
proof (cases "first_index (\<lambda>r. r_state r = AVAILABLE) (first_res s)")
  case None
  then show ?thesis by (simp add: schedule_mixed_def)
next
  case (Some ri)
  note ri = this
  show ?thesis
  proof (cases "first_index (\<lambda>j. j_state j = WAITING) (first_job s)")
    case None
    with ri show ?thesis by (simp add: schedule_mixed_def)
  next
    case (Some ji)
    then have ji: "ji < length (first_job s)" "j_state (first_job s ! ji) = WAITING"
      by (simp_all add: first_index_Some first_at_def)
    let ?bi = "select_best (score (first_job s ! ji)) ji ji (drop ji (first_job s))"
    from select_best_waiting[OF refl ji]
    have "?bi < length (first_job s) \<and> j_state (first_job s ! ?bi) = WAITING" .
    moreover have "first_at (\<lambda>r. r_state r = AVAILABLE) (first_res s) ri"
      using ri by (simp add: first_index_Some)
    moreover have "schedule_mixed s =
        s\<lparr>first_job := (first_job s)
             [?bi := (first_job s ! ?bi)\<lparr>j_run_on := Some (r_code (first_res s ! ri)),
                                       j_state := SENDING_DATA\<rparr>],
           first_res := (first_res s)[ri := (first_res s ! ri)\<lparr>r_state := RECEIVING_DATA\<rparr>]\<rparr>"
      using ri Some by (simp add: schedule_mixed_def Let_def)
    ultimately show ?thesis by blast
  qed
qed

lemma schedule_mixed_inv:
  assumes "inv_mixed s" and "time_ok (first_res s)"
  shows "inv_mixed (schedule_mixed s) \<and> time_ok (first_res (schedule_mixed s))"
proof -
  from schedule_mixed_cases[of s] show ?thesis
  proof
    assume "schedule_mixed s = s"
    with assms show ?thesis by simp
  next
    assume "\<exists>ri bi. first_at (\<lambda>r. r_state r = AVAILABLE) (first_res s) ri \<and>
      bi < length (first_job s) \<and> j_state (first_job s ! bi) = WAITING \<and>
      schedule_mixed s =
        s\<lparr>first_job := (first_job s)
             [bi := (first_job s ! bi)\<lparr>j_run_on := Some (r_code (first_res s ! ri)),
                                       j_state := SENDING_DATA\<rparr>],
           first_res := (first_res s)[ri := (first_res s ! ri)\<lparr>r_state := RECEIVING_DATA\<rparr>]\<rparr>"
    then obtain ri bi where ri: "ri < length (first_res s)" "r_state (first_res s ! ri) = AVAILABLE"
      and bi: "bi < length (first_job s)" "j_state (first_job s ! bi) = WAITING"
      and eq: "schedule_mixed s =
        s\<lparr>first_job := (first_job s)
             [bi := (first_job s ! bi)\<lparr>j_run_on := Some (r_code (first_res s ! ri)),
                                       j_state := SENDING_DATA\<rparr>],
           first_res := (first_res s)[ri := (first_res s ! ri)\<lparr>r_state := RECEIVING_DATA\<rparr>]\<rparr>"
      by (auto simp: first_at_def)
    define rs where "rs = first_res s"
    define js where "js = first_job s"
    define r' where "r' = (rs ! ri)\<lparr>r_state := RECEIVING_DATA\<rparr>"
    define j' where "j' = (js ! bi)\<lparr>j_run_on := Some (r_code (rs ! ri)), j_state := SENDING_DATA\<rparr>"
    from assms(1) have c: "chain_ok r_code rs (last_res s) (resource_number s)"
      and b: "\<forall>j\<in>set js. bound_ok rs j"
      and d: "distinct (map j_run_on (filter active js))"
      by (simp_all add: inv_mixed_def rs_def js_def)
    have dc: "distinct (map r_code rs)" by (rule chain_ok_distinct[OF c])
    have rin: "rs ! ri \<in> set rs" using ri(1) by (simp add: rs_def)
    have f: "first_res (schedule_mixed s) = rs[ri := r']" "first_job (schedule_mixed s) = js[bi := j']"
      "last_res (schedule_mixed s) = last_res s"
      "resource_number (schedule_mixed s) = resource_number s"
      unfolding eq by (simp_all add: rs_def js_def r'_def j'_def)
    have mc: "map r_code (rs[ri := r']) = map r_code rs"
      using ri(1) by (simp add: map_update list_update_same_conv r'_def rs_def)
    have c': "chain_ok r_code (rs[ri := r']) (last_res s) (resource_number s)"
      by (rule chain_ok_cong[OF mc c])
    \<comment> \<open>no active job points at the resource that was free\<close>
    have free: "\<And>x. x \<in> set js \<Longrightarrow> active x \<Longrightarrow> j_run_on x \<noteq> Some (r_code (rs ! ri))"
    proof
      fix x assume x: "x \<in> set js" "active x" "j_run_on x = Some (r_code (rs ! ri))"
      with b obtain y where y: "y \<in> set rs" "j_run_on x = Some (r_code y)"
        "r_state y = serving_state x" by (auto simp: bound_ok_def)
      from y(2) x(3) have "r_code y = r_code (rs ! ri)" by simp
      from distinct_key_eq[OF dc y(1) rin this] y(3) ri(2) show False
        by (simp add: serving_state_def rs_def split: if_splits)
    qed
    have b': "\<forall>j\<in>set (js[bi := j']). bound_ok (rs[ri := r']) j"
    proof
      fix x assume "x \<in> set (js[bi := j'])"
      then have "x = j' \<or> x \<in> set js" using set_update_subset_insert[of js bi j'] by auto
      then show "bound_ok (rs[ri := r']) x"
      proof
        assume "x = j'"
        moreover have "bound_ok (rs[ri := r']) j'"
          by (rule bound_ok_update) (use ri(1) in \<open>simp_all add: rs_def j'_def r'_def serving_state_def\<close>)
        ultimately show ?thesis by simp
      next
        assume x: "x \<in> set js"
        show ?thesis unfolding bound_ok_def
        proof
          assume a: "active x"
          with b x obtain y where y: "y \<in> set rs" "j_run_on x = Some (r_code y)"
            "r_state y = serving_state x" by (auto simp: bound_ok_def)
          from free[OF x a] y(2) have "y \<noteq> rs ! ri" by auto
          with y(1) have "y \<in> set (rs[ri := r'])"
            by (metis in_set_conv_nth length_list_update nth_list_update_neq)
          with y show "\<exists>r\<in>set (rs[ri := r']). j_run_on x = Some (r_code r) \<and> r_state r = serving_state x"
            by blast
        qed
      qed
    qed
    have nb: "\<not> active (js ! bi)" using bi(2) by (simp add: active_def js_def)
    have aj: "active j'" by (simp add: active_def j'_def)
    have split: "js = take bi js @ js ! bi # drop (Suc bi) js"
      using bi(1) by (simp add: id_take_nth_drop[symmetric] js_def)
    have upd: "js[bi := j'] = take bi js @ j' # drop (Suc bi) js"
      using bi(1) by (simp add: upd_conv_take_nth_drop js_def)
    have fa: "filter active js = filter active (take bi js) @ filter active (drop (Suc bi) js)"
      using nb by (subst split) (simp del: append_take_drop_id)
    have rj: "j_run_on j' = Some (r_code (rs ! ri))" by (simp add: j'_def)
    have "j_run_on j' \<notin> j_run_on ` {x \<in> set js. active x}"
    proof
      assume "j_run_on j' \<in> j_run_on ` {x \<in> set js. active x}"
      then obtain x where "x \<in> set js" "active x" "j_run_on x = j_run_on j'" by auto
      with free[of x] rj show False by simp
    qed
    moreover have "{x \<in> set js. active x} = set (filter active (take bi js)) \<union> set (filter active (drop (Suc bi) js))"
      using fa by (metis set_append set_filter)
    ultimately have "distinct (map j_run_on (filter active (js[bi := j'])))"
      using d aj unfolding upd fa by auto
    with c' b' have "inv_mixed (schedule_mixed s)" unfolding inv_mixed_def f by simp
    moreover have "time_ok (rs[ri := r'])"
      using assms(2) rin unfolding time_ok_def rs_def[symmetric] r'_def
      by (auto dest!: set_update_subset_insert[THEN subsetD])
    ultimately show ?thesis by (simp add: f)
  qed
qed

section \<open>Every turn of the mixed loop keeps the invariant\<close>

lemma run_send_job_mixed_leaving:
  assumes "run_send_job_mixed e j rs n = Inr (j', rs', n')"
  shows "length rs' = length rs \<and>
         (\<forall>k<length rs. r_code (rs' ! k) = r_code (rs ! k) \<and>
            (r_state (rs' ! k) = LEAVING \<longrightarrow> r_state (rs ! k) = LEAVING \<or>
               j_state j = RUNNING \<and> j_state j' = DONE \<and> j_run_on j' = Some (r_code (rs ! k))))"
proof -
  consider (send) "j_state j = SENDING_DATA" | (run) "j_state j = RUNNING"
    | (other) "j_state j \<noteq> SENDING_DATA" "j_state j \<noteq> RUNNING" by blast
  then show ?thesis
  proof cases
    case send
    show ?thesis
    proof (cases "j_send_data j - 1 \<le> 0")
      case True
      with send assms obtain k0 where k0: "deref r_code (j_run_on j) rs = Inr k0"
        and rs': "rs' = rs[k0 := (rs ! k0)\<lparr>r_state := USED\<rparr>]"
        by (auto simp: run_send_job_mixed_def split: sum.splits)
      from deref_Inr[OF k0] have "k0 < length rs" by simp
      then show ?thesis unfolding rs' by (auto simp: nth_list_update)
    next
      case False
      with send assms have "rs' = rs" by (auto simp: run_send_job_mixed_def)
      then show ?thesis by simp
    qed
  next
    case run
    with assms obtain k0 where k0: "deref r_code (j_run_on j) rs = Inr k0"
      by (auto simp: run_send_job_mixed_def split: sum.splits)
    from deref_Inr[OF k0] have k: "k0 < length rs" "j_run_on j = Some (r_code (rs ! k0))" by simp_all
    show ?thesis
    proof (cases "j_workload j - r_level (rs ! k0) \<le> 0")
      case True
      with run assms k0 have "j_state j' = DONE \<and> j_run_on j' = j_run_on j \<and>
        (\<exists>r'. rs' = rs[k0 := r'] \<and> r_code r' = r_code (rs ! k0))"
        by (auto simp: run_send_job_mixed_def Let_def)
      then obtain r' where r': "rs' = rs[k0 := r']" "r_code r' = r_code (rs ! k0)"
        and j': "j_state j' = DONE" "j_run_on j' = j_run_on j" by blast
      show ?thesis
      proof (intro conjI allI impI)
        show "length rs' = length rs" by (simp add: r')
      next
        fix i assume "i < length rs"
        then show "r_code (rs' ! i) = r_code (rs ! i)"
          using r' by (cases "i = k0") simp_all
      next
        fix i assume "i < length rs" "r_state (rs' ! i) = LEAVING"
        then show "r_state (rs ! i) = LEAVING \<or>
               j_state j = RUNNING \<and> j_state j' = DONE \<and> j_run_on j' = Some (r_code (rs ! i))"
          using r' j' k run by (cases "i = k0") simp_all
      qed
    next
      case False
      with run assms k0 have
        "rs' = rs[k0 := (rs ! k0)\<lparr>r_used_time := float_incr (r_used_time (rs ! k0))\<rparr>]"
        by (auto simp: run_send_job_mixed_def Let_def)
      with k show ?thesis by (auto simp: nth_list_update)
    qed
  next
    case other
    with assms have "rs' = rs" by (auto simp: run_send_job_mixed_def)
    then show ?thesis by simp
  qed
qed

lemma run_send_loop_mixed_leaving:
  assumes "run_send_loop_mixed e js rs n = Inr (js', rs', n')"
  shows "length rs' = length rs \<and>
         (\<forall>k<length rs. r_code (rs' ! k) = r_code (rs ! k) \<and>
            (r_state (rs' ! k) = LEAVING \<longrightarrow> r_state (rs ! k) = LEAVING \<or>
               (\<exists>j'\<in>set js'. j_state j' = DONE \<and> j_run_on j' = Some (r_code (rs ! k)))))"
  using assms
proof (induction js arbitrary: rs n js')
  case Nil
  then show ?case by simp
next
  case (Cons j js)
  from Cons.prems obtain j1 rs1 n1 js1 where h: "run_send_job_mixed e j rs n = Inr (j1, rs1, n1)"
    "run_send_loop_mixed e js rs1 n1 = Inr (js1, rs', n')" "js' = j1 # js1"
    by (auto split: sum.splits)
  note a = run_send_job_mixed_leaving[OF h(1)]
  note b = Cons.IH[OF h(2)]
  show ?case
  proof (intro conjI allI impI)
    show "length rs' = length rs" using a b by simp
  next
    fix k assume k: "k < length rs"
    with a b show "r_code (rs' ! k) = r_code (rs ! k)" by simp
  next
    fix k assume k: "k < length rs" and l: "r_state (rs' ! k) = LEAVING"
    from k a have k1: "k < length rs1" and c: "r_code (rs1 ! k) = r_code (rs ! k)" by simp_all
    from b k1 l have "r_state (rs1 ! k) = LEAVING \<or>
        (\<exists>j'\<in>set js1. j_state j' = DONE \<and> j_run_on j' = Some (r_code (rs1 ! k)))" by blast
    then show "r_state (rs ! k) = LEAVING \<or>
        (\<exists>j'\<in>set js'. j_state j' = DONE \<and> j_run_on j' = Some (r_code (rs ! k)))"
    proof
      assume "r_state (rs1 ! k) = LEAVING"
      with a k have "r_state (rs ! k) = LEAVING \<or>
               j_state j1 = DONE \<and> j_run_on j1 = Some (r_code (rs ! k))" by blast
      then show ?thesis using h(3) by auto
    next
      assume "\<exists>j'\<in>set js1. j_state j' = DONE \<and> j_run_on j' = Some (r_code (rs1 ! k))"
      then show ?thesis using h(3) c by auto
    qed
  qed
qed

lemma res_step_used_once: "res_step js rs rs' \<Longrightarrow> used_once rs rs'"
  unfolding used_once_def
proof (intro conjI allI impI)
  assume r: "res_step js rs rs'"
  show "length rs' = length rs" by (rule res_step_length[OF r])
  fix k assume k: "k < length rs"
  then have "k < length rs'" using res_step_length[OF r] by simp
  moreover from r have "map r_code rs' = map r_code rs" by (simp add: res_step_def)
  ultimately show "r_code (rs' ! k) = r_code (rs ! k)" using k by (metis nth_map)
  from r k show "r_total_time (rs' ! k) = r_total_time (rs ! k)" by (simp add: res_step_def)
  from r k show "r_used_time (rs' ! k) = r_used_time (rs ! k) \<or>
         r_used_time (rs' ! k) = float_incr (r_used_time (rs ! k))"
    unfolding res_step_def by metis
qed

lemma add_res_mixed_no_leaving:
  assumes "add_res_mixed e s = Inr s'" and "inv_mixed s"
    and "\<forall>r\<in>set (first_res s). P r" and "\<And>r. r_state r = AVAILABLE \<Longrightarrow> P r"
  shows "\<forall>r\<in>set (first_res s'). P r"
proof -
  from assms(2) have c: "chain_ok r_code (first_res s) (last_res s) (resource_number s)"
    by (simp add: inv_mixed_def)
  from add_res_mixed_cases[OF assms(1) c] assms(3,4) show ?thesis by auto
qed

lemma add_remove_mixed_no_leaving:
  assumes "add_remove_mixed e s = Inr s'" and "inv_mixed s" and "time_mid_mixed (first_res s)"
  shows "\<forall>r\<in>set (first_res s'). r_state r \<noteq> LEAVING"
proof -
  let ?s0 = "s\<lparr>begin_flag := False\<rparr>"
  from add_remove_mixed_Inr[OF assms(1)] obtain s1 where
    s1: "(if begin_flag s then add_res_times_mixed 5 e ?s0 else Inr s) = Inr s1"
    and d: "add_draw_mixed e
           ((remove_leaving_resources (remove_done_jobs s1))
              \<lparr>randoms := Suc (randoms (remove_leaving_resources (remove_done_jobs s1)))\<rparr>)
           (1 + int (random_src e (randoms (remove_leaving_resources (remove_done_jobs s1))) mod 1000))
         = Inr s'" by blast
  have "inv_mixed ?s0 = inv_mixed s" by (rule inv_mixed_cong) simp_all
  with assms(2,3) have i0: "inv_mixed ?s0" "time_mid_mixed (first_res ?s0)" by simp_all
  have i1: "inv_mixed s1 \<and> time_mid_mixed (first_res s1)"
  proof (cases "begin_flag s")
    case True
    with s1 have "add_res_times_mixed 5 e ?s0 = Inr s1" by (simp only: if_True)
    from add_res_times_mixed_inv[OF this i0] show ?thesis .
  next
    case False
    with s1 have "s1 = s" by (simp only: if_False sum.inject)
    with assms(2,3) show ?thesis by simp
  qed
  define s2 where "s2 = remove_leaving_resources (remove_done_jobs s1)"
  define s3 where "s3 = s2\<lparr>randoms := Suc (randoms s2)\<rparr>"
  from remove_inv_mixed i1 have i2: "inv_mixed s2" unfolding s2_def by blast
  have "inv_mixed s3 = inv_mixed s2" by (rule inv_mixed_cong) (simp_all add: s3_def)
  with i2 have i3: "inv_mixed s3" by simp
  have n3: "\<forall>r\<in>set (first_res s3). r_state r \<noteq> LEAVING"
    by (simp add: s3_def s2_def remove_leaving_resources_def remove_done_jobs_def)
  from d have "add_draw_mixed e s3 (1 + int (random_src e (randoms s2) mod 1000)) = Inr s'"
    unfolding s2_def s3_def .
  from add_draw_mixed_cases[OF this]
  consider "add_res_mixed e s3 = Inr s'" | "add_job e s3 = Inr s'" | "s' = s3" by blast
  then show ?thesis
  proof cases
    case 1
    from add_res_mixed_no_leaving[OF 1 i3 n3] show ?thesis by simp
  next
    case 2
    from add_job_cases[OF 2] n3 show ?thesis by simp
  next
    case 3
    with n3 show ?thesis by simp
  qed
qed

lemma run_send_mixed_leaving:
  assumes "run_send_mixed e s = Inr s'" and "\<forall>r\<in>set (first_res s). r_state r \<noteq> LEAVING"
  shows "leaving_ok s'"
proof -
  from assms(1) obtain js' rs' n' where h:
    "run_send_loop_mixed e (first_job s) (first_res s) (randoms s) = Inr (js', rs', n')"
    and s': "first_job s' = js'" "first_res s' = rs'"
    by (auto simp: run_send_mixed_def split: sum.splits)
  note l = run_send_loop_mixed_leaving[OF h]
  show ?thesis unfolding leaving_ok_def s'
  proof (intro ballI impI)
    fix r assume "r \<in> set rs'" and lv: "r_state r = LEAVING"
    then obtain k where k: "k < length rs'" "rs' ! k = r" by (auto simp: in_set_conv_nth)
    with l have k0: "k < length (first_res s)" by simp
    with assms(2) have "r_state (first_res s ! k) \<noteq> LEAVING" by simp
    with l k0 k(2) lv have "\<exists>j'\<in>set js'. j_state j' = DONE \<and>
        j_run_on j' = Some (r_code (first_res s ! k))" by blast
    moreover from l k0 k(2) have "r_code r = r_code (first_res s ! k)" by auto
    ultimately show "\<exists>j\<in>set js'. j_state j = DONE \<and> j_run_on j = Some (r_code r)" by simp
  qed
qed

lemma schedule_mixed_leaving:
  assumes "leaving_ok s"
  shows "leaving_ok (schedule_mixed s)"
proof -
  from schedule_mixed_cases[of s] show ?thesis
  proof
    assume "schedule_mixed s = s"
    with assms show ?thesis by simp
  next
    assume "\<exists>ri bi. first_at (\<lambda>r. r_state r = AVAILABLE) (first_res s) ri \<and>
      bi < length (first_job s) \<and> j_state (first_job s ! bi) = WAITING \<and>
      schedule_mixed s =
        s\<lparr>first_job := (first_job s)
             [bi := (first_job s ! bi)\<lparr>j_run_on := Some (r_code (first_res s ! ri)),
                                       j_state := SENDING_DATA\<rparr>],
           first_res := (first_res s)[ri := (first_res s ! ri)\<lparr>r_state := RECEIVING_DATA\<rparr>]\<rparr>"
    then obtain ri bi where ri: "ri < length (first_res s)"
      and bi: "bi < length (first_job s)" "j_state (first_job s ! bi) = WAITING"
      and eq: "schedule_mixed s =
        s\<lparr>first_job := (first_job s)
             [bi := (first_job s ! bi)\<lparr>j_run_on := Some (r_code (first_res s ! ri)),
                                       j_state := SENDING_DATA\<rparr>],
           first_res := (first_res s)[ri := (first_res s ! ri)\<lparr>r_state := RECEIVING_DATA\<rparr>]\<rparr>"
      by (auto simp: first_at_def)
    show ?thesis unfolding leaving_ok_def eq
    proof (intro ballI impI)
      fix r
      assume r: "r \<in> set (first_res (s\<lparr>first_job := (first_job s)
             [bi := (first_job s ! bi)\<lparr>j_run_on := Some (r_code (first_res s ! ri)),
                                       j_state := SENDING_DATA\<rparr>],
           first_res := (first_res s)[ri := (first_res s ! ri)\<lparr>r_state := RECEIVING_DATA\<rparr>]\<rparr>))"
        and lv: "r_state r = LEAVING"
      from r have "r = (first_res s ! ri)\<lparr>r_state := RECEIVING_DATA\<rparr> \<or> r \<in> set (first_res s)"
        using set_update_subset_insert[of "first_res s" ri] by auto
      with lv have "r \<in> set (first_res s)" by auto
      with assms lv obtain j where j: "j \<in> set (first_job s)" "j_state j = DONE"
        "j_run_on j = Some (r_code r)" by (auto simp: leaving_ok_def)
      from j(1) obtain i where i: "i < length (first_job s)" "first_job s ! i = j"
        by (auto simp: in_set_conv_nth)
      with j(2) bi(2) have "i \<noteq> bi" by auto
      with i have "j \<in> set ((first_job s)[bi := (first_job s ! bi)
            \<lparr>j_run_on := Some (r_code (first_res s ! ri)), j_state := SENDING_DATA\<rparr>])"
        by (metis length_list_update nth_list_update_neq nth_mem)
      with j show "\<exists>j\<in>set (first_job (s\<lparr>first_job := (first_job s)
             [bi := (first_job s ! bi)\<lparr>j_run_on := Some (r_code (first_res s ! ri)),
                                       j_state := SENDING_DATA\<rparr>],
           first_res := (first_res s)[ri := (first_res s ! ri)\<lparr>r_state := RECEIVING_DATA\<rparr>]\<rparr>)).
          j_state j = DONE \<and> j_run_on j = Some (r_code r)" by auto
    qed
  qed
qed

lemma tick_mixed_Next:
  assumes "tick_mixed e s = Next s'"
  obtains s1 s2 s3 where "traceall_mixed s = Next s1" "add_remove_mixed e s1 = Inr s2"
    "run_send_mixed e s2 = Inr s3" "s' = schedule_mixed s3"
  using assms unfolding tick_mixed_def by (auto split: step.splits sum.splits)

lemma tick_mixed_inv:
  assumes "tick_mixed e s = Next s'" and "inv_mixed s" and "time_ok (first_res s)"
  shows "inv_mixed s' \<and> time_ok (first_res s') \<and> leaving_ok s'"
proof -
  from tick_mixed_Next[OF assms(1)] obtain s1 s2 s3 where
    t: "traceall_mixed s = Next s1" and a: "add_remove_mixed e s1 = Inr s2"
    and r: "run_send_mixed e s2 = Inr s3" and s': "s' = schedule_mixed s3" by blast
  from traceall_mixed_inv[OF t assms(2,3)] have i1: "inv_mixed s1" "time_mid_mixed (first_res s1)"
    by blast+
  from add_remove_mixed_inv[OF a i1] have i2: "inv_mixed s2" "time_mid_mixed (first_res s2)"
    by blast+
  from run_send_mixed_inv[OF i2, of e] r have i3: "inv_mixed s3" "time_ok (first_res s3)" by auto
  from run_send_mixed_leaving[OF r add_remove_mixed_no_leaving[OF a i1]] have "leaving_ok s3" .
  with schedule_mixed_inv[OF i3] schedule_mixed_leaving s' show ?thesis by simp
qed

lemma inv_mixed_init: "inv_mixed init \<and> time_ok (first_res (init :: msim)) \<and> leaving_ok init"
  by (simp add: inv_mixed_def init_def chain_ok_def time_ok_def leaving_ok_def)

lemma reach_mixed_inv:
  "reach_mixed e s \<Longrightarrow> inv_mixed s \<and> time_ok (first_res s) \<and> leaving_ok s"
proof (induction rule: reach_mixed.induct)
  case reach_mixed_init
  show ?case by (rule inv_mixed_init)
next
  case (reach_mixed_tick s s')
  with tick_mixed_inv[of e s s'] show ?case by blast
qed

section \<open>Reserved jobs of ar-sim.c\<close>

lemma find_first_index:
  "first_index P xs = Some k \<Longrightarrow> find P xs = Some (xs ! k)"
  by (induction xs arbitrary: k) (auto split: if_splits)

lemma find_None_first_index: "find P xs = None \<longleftrightarrow> first_index P xs = None"
  by (induction xs) auto

lemma job_of_Some_deref:
  assumes "job_of js h = Some j"
  obtains k where "deref j_code (Some h) js = Inr k" and "k < length js" and "js ! k = j"
    and "j_code j = h" and "first_at (\<lambda>x. j_code x = h) js k"
proof -
  from assms have "first_index (\<lambda>x. j_code x = h) js \<noteq> None"
    by (auto simp: job_of_def find_None_first_index[symmetric])
  then obtain k where k: "first_index (\<lambda>x. j_code x = h) js = Some k" by auto
  from find_first_index[OF k] assms have "js ! k = j" by (simp add: job_of_def)
  moreover from k have fa: "first_at (\<lambda>x. j_code x = h) js k" by (simp add: first_index_Some)
  ultimately show ?thesis using k by (intro that[of k]) (auto simp: deref_def first_at_def)
qed

lemma find_update:
  assumes "first_at (\<lambda>x. key x = h) xs k" and "key y = h"
  shows "find (\<lambda>x. key x = h') (xs[k := y]) =
           (if h' = h then Some y else find (\<lambda>x. key x = h') xs)"
  using assms(1)
proof (induction xs arbitrary: k)
  case Nil
  then show ?case by (simp add: first_at_def)
next
  case (Cons x xs)
  show ?case
  proof (cases k)
    case 0
    with Cons.prems assms(2) show ?thesis by (auto simp: first_at_def)
  next
    case (Suc m)
    with Cons.prems have x: "key x \<noteq> h" and m: "first_at (\<lambda>x. key x = h) xs m"
      by (auto simp: first_at_def)
    from Cons.IH[OF m] x Suc show ?thesis by auto
  qed
qed

lemma job_of_update:
  assumes "first_at (\<lambda>x. j_code x = h) js k" and "j_code j' = h"
  shows "job_of (js[k := j']) h' = (if h' = h then Some j' else job_of js h')"
  unfolding job_of_def by (rule find_update[OF assms])

lemma map_code_update:
  "k < length js \<Longrightarrow> j_code j' = j_code (js ! k) \<Longrightarrow> map j_code (js[k := j']) = map j_code js"
  by (simp add: map_update list_update_same_conv)

lemma jobs_frame_refl: "jobs_frame H js js"
  by (simp add: jobs_frame_def)

lemma jobs_frame_trans:
  "jobs_frame H js js1 \<Longrightarrow> jobs_frame H' js1 js2 \<Longrightarrow> H \<union> H' \<subseteq> G \<Longrightarrow> jobs_frame G js js2"
  unfolding jobs_frame_def by (metis (no_types, lifting) Un_iff subsetD)

lemma jobs_frame_update:
  assumes "first_at (\<lambda>x. j_code x = h) js k" and "j_code j' = h" and "h \<in> H"
  shows "jobs_frame H js (js[k := j'])"
  unfolding jobs_frame_def
  using assms map_code_update[of k js j'] job_of_update[OF assms(1,2)]
  by (auto simp: first_at_def)

lemma queue_workload_cong:
  "\<forall>h\<in>set q. job_of js' h = job_of js h \<Longrightarrow> queue_workload js' q = queue_workload js q"
  unfolding queue_workload_def workload_of_def by (induction q) auto

lemma queued_cong: "job_of js' h = job_of js h \<Longrightarrow> queued js' h = queued js h"
  by (simp add: queued_def)

lemma completed_cong: "job_of js' h = job_of js h \<Longrightarrow> completed js' h = completed js h"
  by (simp add: completed_def)

lemma queued_job_of:
  assumes "queued js h"
  obtains j where "job_of js h = Some j" and "queued_state (j_state j)"
  using assms by (auto simp: queued_def split: option.splits)

text \<open>send_data_loop\<close>

lemma send_rel_refl: "send_rel j j"
  by (simp add: send_rel_def)

lemma list_all2_update_refl:
  assumes "k < length xs" and "R (xs ! k) y" and "\<And>x. R x x"
  shows "list_all2 R xs (xs[k := y])"
  using assms by (auto simp: list_all2_conv_all_nth nth_list_update)

lemma list_all2_trans_rel:
  assumes "list_all2 R xs ys" and "list_all2 R ys zs" and "\<And>x y z. R x y \<Longrightarrow> R y z \<Longrightarrow> T x z"
  shows "list_all2 T xs zs"
  using assms by (auto simp: list_all2_conv_all_nth)

lemma send_data_loop_ok:
  assumes "\<forall>h\<in>set q. job_of js h \<noteq> None"
  shows "\<exists>js'. send_data_loop q js = Inr js' \<and> jobs_frame (set q) js js' \<and>
           (\<forall>h. rel_option send_rel (job_of js h) (job_of js' h))"
  using assms
proof (induction q)
  case Nil
  then show ?case
    by (auto simp: jobs_frame_refl option.rel_refl send_rel_refl)
next
  case (Cons h hs)
  from Cons.prems obtain j where j: "job_of js h = Some j" by auto
  from job_of_Some_deref[OF j] obtain k where k: "deref j_code (Some h) js = Inr k"
    "k < length js" "js ! k = j" "j_code j = h" "first_at (\<lambda>x. j_code x = h) js k" by blast
  have upd: "\<And>j'. j_code j' = h \<Longrightarrow> send_rel j j' \<Longrightarrow>
      jobs_frame (set (h # hs)) js (js[k := j']) \<and>
      (\<forall>h'. rel_option send_rel (job_of js h') (job_of (js[k := j']) h'))"
  proof -
    fix j' assume c: "j_code j' = h" and r: "send_rel j j'"
    have "jobs_frame (set (h # hs)) js (js[k := j'])"
      by (rule jobs_frame_update[OF k(5) c]) simp
    moreover have "\<forall>h'. rel_option send_rel (job_of js h') (job_of (js[k := j']) h')"
      using job_of_update[OF k(5) c] j r
      by (auto simp: option.rel_refl send_rel_refl)
    ultimately show "jobs_frame (set (h # hs)) js (js[k := j']) \<and>
      (\<forall>h'. rel_option send_rel (job_of js h') (job_of (js[k := j']) h'))" by blast
  qed
  consider (send) "j_state j = SENDING_DATA" | (wait) "j_state j = WAITING_TO_SEND_DATA"
    | (other) "j_state j \<noteq> SENDING_DATA" "j_state j \<noteq> WAITING_TO_SEND_DATA" by blast
  then show ?case
  proof cases
    case wait
    let ?j = "j\<lparr>j_state := SENDING_DATA\<rparr>"
    have "send_data_loop (h # hs) js = Inr (js[k := ?j])"
      using k(1,3) wait by simp
    moreover have "j_code ?j = h" "send_rel j ?j" using k(4) by (simp_all add: send_rel_def)
    ultimately show ?thesis using upd[of ?j] by simp
  next
    case other
    from Cons.IH Cons.prems obtain js' where ih: "send_data_loop hs js = Inr js'"
      "jobs_frame (set hs) js js'" "\<forall>h. rel_option send_rel (job_of js h) (job_of js' h)"
      by auto
    have "send_data_loop (h # hs) js = Inr js'" using k(1,3) other ih(1) by simp
    moreover have "jobs_frame (set (h # hs)) js js'"
      using ih(2) by (auto simp: jobs_frame_def)
    ultimately show ?thesis using ih(3) by blast
  next
    case send
    let ?j1 = "j\<lparr>j_send_data := j_send_data j - 1\<rparr>"
    show ?thesis
    proof (cases "j_send_data j - 1 \<le> 0")
      case False
      have "send_data_loop (h # hs) js = Inr (js[k := ?j1])"
        using k(1,3) send False by (simp add: Let_def)
      moreover have "j_code ?j1 = h" "send_rel j ?j1" using k(4) by (simp_all add: send_rel_def)
      ultimately show ?thesis using upd[of ?j1] by simp
    next
      case True
      let ?j2 = "?j1\<lparr>j_state := READY_TO_RUN\<rparr>"
      let ?js1 = "js[k := ?j2]"
      have c2: "j_code ?j2 = h" and r2: "send_rel j ?j2" using k(4) by (simp_all add: send_rel_def)
      note u1 = upd[OF c2 r2]
      show ?thesis
      proof (cases hs)
        case Nil
        have "send_data_loop (h # hs) js = Inr ?js1"
          using k(1,3) send True Nil by (simp add: Let_def)
        with u1 show ?thesis by simp
      next
        case (Cons h2 hs2)
        with Cons.prems have "job_of js h2 \<noteq> None" by simp
        with job_of_update[OF k(5) c2, of h2] obtain j3 where j3: "job_of ?js1 h2 = Some j3"
          by (auto split: if_splits)
        from job_of_Some_deref[OF j3] obtain k2 where k2: "deref j_code (Some h2) ?js1 = Inr k2"
          "k2 < length ?js1" "?js1 ! k2 = j3" "j_code j3 = h2"
          "first_at (\<lambda>x. j_code x = h2) ?js1 k2" by blast
        let ?j4 = "j3\<lparr>j_state := SENDING_DATA\<rparr>"
        let ?js2 = "?js1[k2 := ?j4]"
        have res: "send_data_loop (h # hs) js = Inr ?js2"
          using k(1,3) send True Cons k2(1,3) by (simp add: Let_def)
        have c4: "j_code ?j4 = h2" using k2(4) by simp
        have f2: "jobs_frame (set (h # hs)) ?js1 ?js2"
          by (rule jobs_frame_update[OF k2(5) c4]) (simp add: Cons)
        have fr: "jobs_frame (set (h # hs)) js ?js2"
          by (rule jobs_frame_trans[OF u1[THEN conjunct1] f2]) simp
        have "\<forall>h'. rel_option send_rel (job_of js h') (job_of ?js2 h')"
        proof
          fix h'
          from u1 have a: "rel_option send_rel (job_of js h') (job_of ?js1 h')" by blast
          show "rel_option send_rel (job_of js h') (job_of ?js2 h')"
          proof (cases "h' = h2")
            case False
            with job_of_update[OF k2(5) c4, of h'] a show ?thesis by simp
          next
            case True
            with a j3 obtain j0 where j0: "job_of js h' = Some j0" "send_rel j0 j3"
              by (auto simp: option_rel_Some2)
            then have "send_rel j0 ?j4" by (simp add: send_rel_def)
            with job_of_update[OF k2(5) c4, of h'] True j0(1) show ?thesis by simp
          qed
        qed
        with res fr show ?thesis by blast
      qed
    qed
  qed
qed

section \<open>One resource of the AR executor\<close>

lemma send_rel_queued:
  assumes "\<forall>h. rel_option send_rel (job_of js h) (job_of js' h)" and "queued js h"
  shows "queued js' h"
proof -
  from queued_job_of[OF assms(2)] obtain j where j: "job_of js h = Some j"
    "queued_state (j_state j)" by blast
  from assms(1) have "rel_option send_rel (job_of js h) (job_of js' h)" by blast
  with j(1) obtain j' where j': "job_of js' h = Some j'" "send_rel j j'"
    by (auto simp: option_rel_Some1)
  with j(2) show ?thesis by (auto simp: queued_def queued_state_def send_rel_def)
qed

lemma send_rel_workload:
  assumes "\<forall>h. rel_option send_rel (job_of js h) (job_of js' h)"
  shows "queue_workload js' q = queue_workload js q"
proof -
  have "workload_of js' h = workload_of js h" for h
  proof -
    from assms have "rel_option send_rel (job_of js h) (job_of js' h)" by blast
    then show ?thesis
      by (cases "job_of js h"; cases "job_of js' h") (auto simp: workload_of_def send_rel_def)
  qed
  then have "workload_of js' = workload_of js" by (intro ext)
  then show ?thesis by (simp add: queue_workload_def)
qed

lemma queued_not_None: "queued js h \<Longrightarrow> job_of js h \<noteq> None"
  by (auto simp: queued_def split: option.splits)

text \<open>The cases of run_job_ar\<close>

lemma run_job_ar_at:
  assumes "first_at (\<lambda>x. j_code x = h) js k"
  shows "run_job_ar e h r js n =
      (if j_state (js ! k) = RUNNING then
         (let j1 = (js ! k)\<lparr>j_workload := j_workload (js ! k) - r_level r\<rparr>;
              r1 = r\<lparr>r_total_workload := r_total_workload r - r_level r,
                     r_used_time := float_incr (r_used_time r)\<rparr>
          in if j_workload j1 < 0 then
               Inr ((if int (random_src e n mod 1000) \<le> RL_PROB
                     then r1\<lparr>r_rsv := tl (r_rsv r1), r_state := NO_ACCEPT_JOBS\<rparr>
                     else r1\<lparr>r_rsv := tl (r_rsv r1)\<rparr>),
                    js[k := j1\<lparr>j_state := DONE\<rparr>], Suc n)
             else Inr (r1, js[k := j1], n))
       else if j_state (js ! k) = READY_TO_RUN then
         Inr (r, js[k := (js ! k)\<lparr>j_state := RUNNING\<rparr>], n)
       else Inr (r, js, n))"
proof -
  from assms have "first_index (\<lambda>x. j_code x = h) js = Some k" by (simp add: first_index_Some)
  then have "deref j_code (Some h) js = Inr k" by (simp add: deref_def)
  then show ?thesis unfolding run_job_ar_def by (simp only: sum.case)
qed

lemma queue_workload_Cons:
  "queue_workload js (h # t) = workload_of js h + queue_workload js t"
  by (simp add: queue_workload_def)

lemma run_send_res_ar_Cons:
  assumes "r_rsv r = h # t"
  shows "run_send_res_ar e r js n =
      (case run_job_ar e h r js n of
         Inl f \<Rightarrow> Inl f
       | Inr (r1, js1, n1) \<Rightarrow>
           (case send_data_loop (r_rsv r1) js1 of
              Inl f \<Rightarrow> Inl f
            | Inr js2 \<Rightarrow> Inr (r1, js2, n1)))"
  using assms by (simp add: run_send_res_ar_def)

text \<open>The head job is updated to \<open>j1\<close> and stays at the head.\<close>

lemma run_send_res_ar_keep:
  assumes rsv: "r_rsv r = h # t" and d: "distinct (r_rsv r)"
    and q: "\<forall>h\<in>set (r_rsv r). queued js h" and l: "r_state r = LEAVING \<longrightarrow> r_rsv r = []"
    and k: "first_at (\<lambda>x. j_code x = h) js k"
    and rj: "run_job_ar e h r js n = Inr (r1, js[k := j1], n1)"
    and c1: "j_code j1 = h" and s1: "queued_state (j_state j1)"
    and r1: "r_rsv r1 = h # t" "r_code r1 = r_code r" "r_level r1 = r_level r"
      "r_total_time r1 = r_total_time r" "r_state r1 = r_state r"
      "r_used_time r1 = r_used_time r \<or> r_used_time r1 = float_incr (r_used_time r)"
    and w: "r_total_workload r1 - j_workload j1 = r_total_workload r - workload_of js h"
  shows "\<exists>r' js' n'. run_send_res_ar e r js n = Inr (r', js', n') \<and>
           jobs_frame (set (r_rsv r)) js js' \<and> ar_step js js' r r'"
proof -
  define js1 where "js1 = js[k := j1]"
  from d rsv have ht: "h \<notin> set t" by simp
  note u = job_of_update[OF k c1, folded js1_def]
  have f1: "jobs_frame (set (r_rsv r)) js js1"
    unfolding js1_def by (rule jobs_frame_update[OF k c1]) (simp add: rsv)
  have same: "\<forall>h'\<in>set t. job_of js1 h' = job_of js h'" using u ht by auto
  have q1: "\<forall>h'\<in>set (h # t). queued js1 h'"
  proof
    fix h' assume h': "h' \<in> set (h # t)"
    show "queued js1 h'"
    proof (cases "h' = h")
      case True
      with u[of h] s1 show ?thesis by (simp add: queued_def)
    next
      case False
      with h' same q rsv show ?thesis by (simp add: queued_def)
    qed
  qed
  then have "\<forall>h'\<in>set (h # t). job_of js1 h' \<noteq> None" by (auto dest: queued_not_None)
  from send_data_loop_ok[OF this] obtain js2 where s2: "send_data_loop (h # t) js1 = Inr js2"
    "jobs_frame (set (h # t)) js1 js2" "\<forall>h. rel_option send_rel (job_of js1 h) (job_of js2 h)"
    by blast
  have out: "run_send_res_ar e r js n = Inr (r1, js2, n1)"
    unfolding run_send_res_ar_Cons[OF rsv] rj[folded js1_def]
    by (simp only: sum.case prod.case r1(1) s2(1))
  have fr: "jobs_frame (set (r_rsv r)) js js2"
    by (rule jobs_frame_trans[OF f1 s2(2)]) (simp add: rsv)
  have q2: "\<forall>h'\<in>set (r_rsv r1). queued js2 h'"
    unfolding r1(1) using q1 send_rel_queued[OF s2(3)] by blast
  have load: "load_ok js r \<longrightarrow> load_ok js2 r1"
  proof
    assume "load_ok js r"
    then have a: "r_total_workload r \<le> workload_of js h + queue_workload js t"
      by (simp add: load_ok_def rsv queue_workload_Cons)
    have "queue_workload js2 (h # t) = queue_workload js1 (h # t)"
      by (rule send_rel_workload[OF s2(3)])
    also have "\<dots> = j_workload j1 + queue_workload js1 t"
      using u[of h] by (simp add: queue_workload_Cons workload_of_def)
    also have "queue_workload js1 t = queue_workload js t" by (rule queue_workload_cong[OF same])
    finally have "queue_workload js2 (h # t) = j_workload j1 + queue_workload js t" .
    with a w show "load_ok js2 r1" by (simp add: load_ok_def r1(1))
  qed
  have gp: "load_gap js2 r1 = load_gap js r"
  proof -
    have "queue_workload js2 (h # t) = queue_workload js1 (h # t)"
      by (rule send_rel_workload[OF s2(3)])
    also have "\<dots> = j_workload j1 + queue_workload js1 t"
      using u[of h] by (simp add: queue_workload_Cons workload_of_def)
    also have "queue_workload js1 t = queue_workload js t" by (rule queue_workload_cong[OF same])
    finally have "queue_workload js2 (h # t) = j_workload j1 + queue_workload js t" .
    with w show ?thesis by (simp add: load_gap_def r1(1) rsv queue_workload_Cons)
  qed
  have nl: "r_state r1 \<noteq> LEAVING" using l rsv r1(5) by auto
  have "ar_step js js2 r r1"
    unfolding ar_step_def
  proof (intro conjI)
    show "r_rsv r1 = r_rsv r \<or>
      r_rsv r \<noteq> [] \<and> r_rsv r1 = tl (r_rsv r) \<and> completed js2 (hd (r_rsv r))"
      by (simp add: r1(1) rsv)
    show "r_used_time r1 = r_used_time r \<or>
      r_rsv r \<noteq> [] \<and> r_used_time r1 = float_incr (r_used_time r)"
      using r1(6) by (simp add: rsv)
    show "r_state r1 = LEAVING \<longrightarrow> r_rsv r1 = []" using nl by simp
    show "r_rsv r1 = r_rsv r \<and> load_gap js2 r1 = load_gap js r \<or>
      r_rsv r \<noteq> [] \<and> r_rsv r1 = tl (r_rsv r) \<and> completed js2 (hd (r_rsv r)) \<and>
      workload_of js2 (hd (r_rsv r)) < 0 \<and>
      load_gap js2 r1 = load_gap js r - workload_of js2 (hd (r_rsv r))"
      using gp by (simp add: r1(1) rsv)
  qed (use r1 q2 load in simp_all)
  with out fr show ?thesis by blast
qed

text \<open>The head job completes and its reservation is popped.\<close>

lemma run_send_res_ar_pop:
  assumes rsv: "r_rsv r = h # t" and d: "distinct (r_rsv r)"
    and q: "\<forall>h\<in>set (r_rsv r). queued js h" and l: "r_state r = LEAVING \<longrightarrow> r_rsv r = []"
    and k: "first_at (\<lambda>x. j_code x = h) js k"
    and rj: "run_job_ar e h r js n = Inr (r1, js[k := j1], n1)"
    and c1: "j_code j1 = h" and s1: "j_state j1 = DONE" and neg: "j_workload j1 < 0"
    and r1: "r_rsv r1 = t" "r_code r1 = r_code r" "r_level r1 = r_level r"
      "r_total_time r1 = r_total_time r" "r_state r1 = r_state r \<or> r_state r1 = NO_ACCEPT_JOBS"
      "r_used_time r1 = float_incr (r_used_time r)"
    and w: "r_total_workload r1 - j_workload j1 = r_total_workload r - workload_of js h"
  shows "\<exists>r' js' n'. run_send_res_ar e r js n = Inr (r', js', n') \<and>
           jobs_frame (set (r_rsv r)) js js' \<and> ar_step js js' r r'"
proof -
  define js1 where "js1 = js[k := j1]"
  from d rsv have ht: "h \<notin> set t" by simp
  note u = job_of_update[OF k c1, folded js1_def]
  have f1: "jobs_frame (set (r_rsv r)) js js1"
    unfolding js1_def by (rule jobs_frame_update[OF k c1]) (simp add: rsv)
  have same: "\<forall>h'\<in>set t. job_of js1 h' = job_of js h'" using u ht by auto
  have q1: "\<forall>h'\<in>set t. queued js1 h'" using same q rsv by (simp add: queued_def)
  then have "\<forall>h'\<in>set t. job_of js1 h' \<noteq> None" by (auto dest: queued_not_None)
  from send_data_loop_ok[OF this] obtain js2 where s2: "send_data_loop t js1 = Inr js2"
    "jobs_frame (set t) js1 js2" "\<forall>h. rel_option send_rel (job_of js1 h) (job_of js2 h)"
    by blast
  have out: "run_send_res_ar e r js n = Inr (r1, js2, n1)"
    unfolding run_send_res_ar_Cons[OF rsv] rj[folded js1_def]
    by (simp only: sum.case prod.case r1(1) s2(1))
  have fr: "jobs_frame (set (r_rsv r)) js js2"
    by (rule jobs_frame_trans[OF f1 s2(2)]) (simp add: rsv subset_insertI)
  have "job_of js2 h = job_of js1 h" using s2(2) ht by (simp add: jobs_frame_def)
  then have comp: "completed js2 h" using u[of h] s1 by (simp add: completed_def)
  have q2: "\<forall>h'\<in>set (r_rsv r1). queued js2 h'"
    unfolding r1(1) using q1 send_rel_queued[OF s2(3)] by blast
  have load: "load_ok js r \<longrightarrow> load_ok js2 r1"
  proof
    assume "load_ok js r"
    then have a: "r_total_workload r \<le> workload_of js h + queue_workload js t"
      by (simp add: load_ok_def rsv queue_workload_Cons)
    have "queue_workload js2 t = queue_workload js1 t" by (rule send_rel_workload[OF s2(3)])
    also have "\<dots> = queue_workload js t" by (rule queue_workload_cong[OF same])
    finally have "queue_workload js2 t = queue_workload js t" .
    with a w neg show "load_ok js2 r1" by (simp add: load_ok_def r1(1))
  qed
  have wh: "workload_of js2 h = j_workload j1"
    using \<open>job_of js2 h = job_of js1 h\<close> u[of h] by (simp add: workload_of_def)
  have gp: "load_gap js2 r1 = load_gap js r - workload_of js2 h"
  proof -
    have "queue_workload js2 t = queue_workload js1 t" by (rule send_rel_workload[OF s2(3)])
    also have "\<dots> = queue_workload js t" by (rule queue_workload_cong[OF same])
    finally have "queue_workload js2 t = queue_workload js t" .
    with w wh show ?thesis by (simp add: load_gap_def r1(1) rsv queue_workload_Cons)
  qed
  have nl: "r_state r1 \<noteq> LEAVING" using l rsv r1(5) by auto
  have "ar_step js js2 r r1"
    unfolding ar_step_def
  proof (intro conjI)
    show "r_rsv r1 = r_rsv r \<or>
      r_rsv r \<noteq> [] \<and> r_rsv r1 = tl (r_rsv r) \<and> completed js2 (hd (r_rsv r))"
      using comp by (simp add: r1(1) rsv)
    show "r_used_time r1 = r_used_time r \<or>
      r_rsv r \<noteq> [] \<and> r_used_time r1 = float_incr (r_used_time r)"
      using r1(6) by (simp add: rsv)
    show "r_state r1 = LEAVING \<longrightarrow> r_rsv r1 = []" using nl by simp
    show "r_rsv r1 = r_rsv r \<and> load_gap js2 r1 = load_gap js r \<or>
      r_rsv r \<noteq> [] \<and> r_rsv r1 = tl (r_rsv r) \<and> completed js2 (hd (r_rsv r)) \<and>
      workload_of js2 (hd (r_rsv r)) < 0 \<and>
      load_gap js2 r1 = load_gap js r - workload_of js2 (hd (r_rsv r))"
      using gp wh neg comp by (simp add: r1(1) rsv)
  qed (use r1 q2 load in simp_all)
  with out fr show ?thesis by blast
qed

lemma run_send_res_ar_ok:
  assumes d: "distinct (r_rsv r)" and q: "\<forall>h\<in>set (r_rsv r). queued js h"
    and l: "r_state r = LEAVING \<longrightarrow> r_rsv r = []"
  shows "\<exists>r' js' n'. run_send_res_ar e r js n = Inr (r', js', n') \<and>
           jobs_frame (set (r_rsv r)) js js' \<and> ar_step js js' r r'"
proof (cases "r_rsv r")
  case Nil
  show ?thesis
  proof (cases "r_state r = NO_ACCEPT_JOBS")
    case True
    with Nil have "run_send_res_ar e r js n = Inr (r\<lparr>r_state := LEAVING\<rparr>, js, n)"
      by (simp add: run_send_res_ar_def)
    moreover have "ar_step js js r (r\<lparr>r_state := LEAVING\<rparr>)"
      using Nil by (simp add: ar_step_def load_ok_def load_gap_def)
    ultimately show ?thesis using jobs_frame_refl by blast
  next
    case False
    with Nil have "run_send_res_ar e r js n = Inr (r, js, n)"
      by (simp add: run_send_res_ar_def)
    moreover have "ar_step js js r r" using Nil l by (simp add: ar_step_def)
    ultimately show ?thesis using jobs_frame_refl by blast
  qed
next
  case (Cons h t)
  from q Cons have qh: "queued js h" by simp
  from queued_job_of[OF qh] obtain j where j: "job_of js h = Some j" "queued_state (j_state j)"
    by blast
  from job_of_Some_deref[OF j(1)] obtain k where jk: "js ! k = j" "k < length js"
    and cj: "j_code j = h" and k: "first_at (\<lambda>x. j_code x = h) js k" by blast
  note at = run_job_ar_at[OF k, of e r n, unfolded jk(1)]
  have wj: "workload_of js h = j_workload j" using j(1) by (simp add: workload_of_def)
  note keep = run_send_res_ar_keep[OF Cons d q l k]
  note pop = run_send_res_ar_pop[OF Cons d q l k]
  consider (finish) "j_state j = RUNNING" "j_workload j - r_level r < 0"
    | (work) "j_state j = RUNNING" "\<not> j_workload j - r_level r < 0"
    | (start) "j_state j = READY_TO_RUN"
    | (other) "j_state j \<noteq> RUNNING" "j_state j \<noteq> READY_TO_RUN" by fastforce
  then show ?thesis
  proof cases
    case finish
    let ?j1 = "j\<lparr>j_workload := j_workload j - r_level r, j_state := DONE\<rparr>"
    let ?r0 = "r\<lparr>r_total_workload := r_total_workload r - r_level r,
                  r_used_time := float_incr (r_used_time r)\<rparr>"
    show ?thesis
    proof (cases "int (random_src e n mod 1000) \<le> RL_PROB")
      case True
      let ?r1 = "?r0\<lparr>r_rsv := tl (r_rsv ?r0), r_state := NO_ACCEPT_JOBS\<rparr>"
      have "run_job_ar e h r js n = Inr (?r1, js[k := ?j1], Suc n)"
        using at finish True by (simp add: Let_def)
      from pop[OF this] show ?thesis using finish cj wj Cons by simp
    next
      case False
      let ?r1 = "?r0\<lparr>r_rsv := tl (r_rsv ?r0)\<rparr>"
      have "run_job_ar e h r js n = Inr (?r1, js[k := ?j1], Suc n)"
        using at finish False by (simp add: Let_def)
      from pop[OF this] show ?thesis using finish cj wj Cons by simp
    qed
  next
    case work
    let ?j1 = "j\<lparr>j_workload := j_workload j - r_level r\<rparr>"
    let ?r1 = "r\<lparr>r_total_workload := r_total_workload r - r_level r,
                  r_used_time := float_incr (r_used_time r)\<rparr>"
    have "run_job_ar e h r js n = Inr (?r1, js[k := ?j1], n)"
      using at work by (simp add: Let_def)
    from keep[OF this] show ?thesis using work j(2) cj wj Cons by simp
  next
    case start
    let ?j1 = "j\<lparr>j_state := RUNNING\<rparr>"
    have "run_job_ar e h r js n = Inr (r, js[k := ?j1], n)"
      using at start by simp
    from keep[OF this] show ?thesis using cj wj Cons by (simp add: queued_state_def)
  next
    case other
    have "js[k := j] = js" using jk by (simp add: list_update_same_conv)
    then have "run_job_ar e h r js n = Inr (r, js[k := j], n)"
      using at other by simp
    from keep[OF this] show ?thesis using j(2) cj wj Cons by simp
  qed
qed

text \<open>The pass over the resources\<close>

lemma ar_step_frame:
  assumes "ar_step js js1 r r'" and "\<forall>h\<in>set (r_rsv r). job_of js2 h = job_of js1 h"
  shows "ar_step js js2 r r'"
proof -
  from assms(1) have sub: "set (r_rsv r') \<subseteq> set (r_rsv r)"
    unfolding ar_step_def by (auto dest: list.set_sel(2))
  with assms(2) have same: "\<forall>h\<in>set (r_rsv r'). job_of js2 h = job_of js1 h" by blast
  have qw: "queue_workload js2 (r_rsv r') = queue_workload js1 (r_rsv r')"
    by (rule queue_workload_cong[OF same])
  have hd: "r_rsv r \<noteq> [] \<Longrightarrow> job_of js2 (hd (r_rsv r)) = job_of js1 (hd (r_rsv r))"
    using assms(2) by simp
  have gp: "load_gap js2 r' = load_gap js1 r'" using qw by (simp add: load_gap_def)
  have wh: "r_rsv r \<noteq> [] \<Longrightarrow> workload_of js2 (hd (r_rsv r)) = workload_of js1 (hd (r_rsv r))"
    using hd by (simp add: workload_of_def)
  show ?thesis
    using assms(1) same qw hd gp wh unfolding ar_step_def load_ok_def
    by (auto simp: queued_def completed_def)
qed

lemma load_ok_frame:
  "\<forall>h\<in>set (r_rsv r). job_of js' h = job_of js h \<Longrightarrow> load_ok js' r = load_ok js r"
  using queue_workload_cong[of "r_rsv r" js' js] by (simp add: load_ok_def)

lemma load_gap_frame:
  "\<forall>h\<in>set (r_rsv r). job_of js' h = job_of js h \<Longrightarrow> load_gap js' r = load_gap js r"
  using queue_workload_cong[of "r_rsv r" js' js] by (simp add: load_gap_def)

lemma ar_step_before:
  assumes "ar_step js1 js2 r r'" and "\<forall>h\<in>set (r_rsv r). job_of js1 h = job_of js h"
  shows "ar_step js js2 r r'"
  using assms(1) load_ok_frame[OF assms(2)] load_gap_frame[OF assms(2)]
  unfolding ar_step_def by simp

lemma run_send_loop_ar_ok:
  assumes "distinct (concat (map r_rsv rs))"
    and "\<forall>r\<in>set rs. \<forall>h\<in>set (r_rsv r). queued js h"
    and "\<forall>r\<in>set rs. r_state r = LEAVING \<longrightarrow> r_rsv r = []"
  shows "\<exists>rs' js' n'. run_send_loop_ar e rs js n = Inr (rs', js', n') \<and>
           jobs_frame (set (concat (map r_rsv rs))) js js' \<and>
           list_all2 (ar_step js js') rs rs'"
  using assms
proof (induction rs arbitrary: js n)
  case Nil
  then show ?case by (simp add: jobs_frame_refl)
next
  case (Cons r rs)
  from Cons.prems(1) have dr: "distinct (r_rsv r)" and drs: "distinct (concat (map r_rsv rs))"
    and dis: "set (r_rsv r) \<inter> set (concat (map r_rsv rs)) = {}" by auto
  from run_send_res_ar_ok[OF dr, of js e n] Cons.prems(2,3)
  obtain r' js1 n1 where h: "run_send_res_ar e r js n = Inr (r', js1, n1)"
    "jobs_frame (set (r_rsv r)) js js1" "ar_step js js1 r r'" by auto
  have same1: "\<forall>h\<in>set (concat (map r_rsv rs)). job_of js1 h = job_of js h"
    using h(2) dis unfolding jobs_frame_def by blast
  have q1: "\<forall>x\<in>set rs. \<forall>h\<in>set (r_rsv x). queued js1 h"
  proof (intro ballI)
    fix x h' assume x: "x \<in> set rs" "h' \<in> set (r_rsv x)"
    then have "h' \<in> set (concat (map r_rsv rs))" by auto
    with same1 have "job_of js1 h' = job_of js h'" by blast
    moreover from Cons.prems(2) x have "queued js h'" by simp
    ultimately show "queued js1 h'" by (simp add: queued_def)
  qed
  have l1: "\<forall>x\<in>set rs. r_state x = LEAVING \<longrightarrow> r_rsv x = []" using Cons.prems(3) by simp
  from Cons.IH[OF drs q1 l1, of n1]
  obtain rs' js' n' where ih: "run_send_loop_ar e rs js1 n1 = Inr (rs', js', n')"
    "jobs_frame (set (concat (map r_rsv rs))) js1 js'" "list_all2 (ar_step js1 js') rs rs'"
    by blast
  have out: "run_send_loop_ar e (r # rs) js n = Inr (r' # rs', js', n')"
    using h(1) ih(1) by simp
  have fr: "jobs_frame (set (concat (map r_rsv (r # rs)))) js js'"
    by (rule jobs_frame_trans[OF h(2) ih(2)]) simp
  have "\<forall>h\<in>set (r_rsv r). job_of js' h = job_of js1 h"
    using ih(2) dis unfolding jobs_frame_def by blast
  from ar_step_frame[OF h(3) this] have a: "ar_step js js' r r'" .
  have b: "list_all2 (ar_step js js') rs rs'"
    unfolding list_all2_conv_all_nth
  proof (intro conjI allI impI)
    show "length rs = length rs'" using ih(3) by (simp add: list_all2_lengthD)
  next
    fix i assume i: "i < length rs"
    with ih(3) have s: "ar_step js1 js' (rs ! i) (rs' ! i)" by (simp add: list_all2_nthD)
    from i have "rs ! i \<in> set rs" by simp
    with same1 have "\<forall>h\<in>set (r_rsv (rs ! i)). job_of js1 h = job_of js h" by auto
    from ar_step_before[OF s this] show "ar_step js js' (rs ! i) (rs' ! i)" .
  qed
  from out fr a b show ?case by auto
qed

section \<open>The trace and admission steps of ar-sim.c\<close>

lemma job_of_map:
  assumes "\<And>j. j_code (f j) = j_code j"
  shows "job_of (map f js) h = map_option f (job_of js h)"
  unfolding job_of_def by (induction js) (auto simp: assms)

lemma trace_job_ar_simps [simp]:
  "j_state (trace_job_ar j) = j_state j"
  "j_code (trace_job_ar j) = j_code j"
  "j_workload (trace_job_ar j) = j_workload j"
  by (simp_all add: trace_job_ar_def)

lemma trace_res_ar_simps [simp]:
  "r_rsv (trace_res r) = r_rsv r"
  "r_total_workload (trace_res r) = r_total_workload r"
  by (simp_all add: trace_res_def)

lemma queued_trace [simp]: "queued (map trace_job_ar js) h = queued js h"
  by (cases "job_of js h") (simp_all add: queued_def job_of_map)

lemma workload_of_trace [simp]: "workload_of (map trace_job_ar js) = workload_of js"
  by (rule ext, case_tac "job_of js x") (simp_all add: workload_of_def job_of_map)

lemma load_ok_trace [simp]: "load_ok (map trace_job_ar js) (trace_res r) = load_ok js r"
  by (simp add: load_ok_def queue_workload_def)

lemma pool_ar_trace: "pool_ar rs js \<Longrightarrow> pool_ar (map trace_res rs) (map trace_job_ar js)"
  unfolding pool_ar_def by (simp add: comp_def)

lemma traceall_ar_fields:
  assumes "traceall_ar s = Next s' \<or> traceall_ar s = Exit s'"
  shows "first_job s' = map trace_job_ar (first_job s)"
    and "first_res s' = map trace_res (first_res s)"
    and "last_res s' = last_res s" and "resource_number s' = resource_number s"
    and "last_job s' = last_job s" and "job_number s' = job_number s"
  using assms by (auto simp: traceall_ar_def Let_def split: if_splits)

lemma traceall_ar_inv:
  assumes "traceall_ar s = Next s'" and "inv_ar s" and "time_ok (first_res s)"
  shows "inv_ar s' \<and> time_mid_ar (first_res s')"
proof -
  note f = traceall_ar_fields[OF disjI1, OF assms(1)]
  have "chain_ok r_code (first_res s') (last_res s') (resource_number s')"
    using assms(2) unfolding f inv_ar_def
    by (auto intro: chain_ok_cong[rotated] simp: comp_def)
  moreover have "chain_ok j_code (first_job s') (last_job s') (job_number s')"
    using assms(2) unfolding f inv_ar_def
    by (auto intro: chain_ok_cong[rotated] simp: comp_def)
  moreover have "pool_ar (first_res s') (first_job s')"
    using assms(2) unfolding f inv_ar_def by (simp add: pool_ar_trace)
  moreover have "time_mid_ar (first_res s')"
    using assms(3) unfolding f time_ok_def time_mid_ar_def
    by (auto intro: float_incr_mono order_trans[OF _ float_incr_ge])
  ultimately show ?thesis by (simp add: inv_ar_def)
qed

lemma add_res_ar_cases:
  assumes "add_res_ar e s = Inr s'"
    and "chain_ok r_code (first_res s) (last_res s) (resource_number s)"
  shows "first_job s' = first_job s \<and> last_job s' = last_job s \<and>
         job_number s' = job_number s \<and> begin_flag s' = begin_flag s \<and>
         (first_res s' = first_res s \<and> last_res s' = last_res s \<and>
            resource_number s' = resource_number s \<or>
          (\<exists>r. first_res s' = first_res s @ [r] \<and> r_code r = resource_number s + 1 \<and>
                r_state r = AVAILABLE \<and> r_used_time r = 0 \<and> r_total_time r = 0 \<and>
                r_total_workload r = 0 \<and> r_rsv r = [] \<and>
                last_res s' = Some (resource_number s + 1) \<and>
                resource_number s' = resource_number s + 1))"
proof (cases "malloc_src e (mallocs s)")
  case False
  with assms(1) show ?thesis by (auto simp: add_res_ar_def)
next
  case True
  let ?r = "\<lparr>r_code = resource_number s + 1, r_state = AVAILABLE,
             r_level = 1 + int (random_src e (randoms s) mod 5),
             r_total_time = 0, r_used_time = 0, r_total_workload = 0, r_rsv = []\<rparr>"
  from True assms(1) obtain rs where rs: "append_node r_code ?r (first_res s) (last_res s) = Inr rs"
    and s': "s' = s\<lparr>first_res := rs, last_res := Some (resource_number s + 1),
                    resource_number := resource_number s + 1,
                    randoms := Suc (randoms s), mallocs := Suc (mallocs s)\<rparr>"
    by (auto simp: add_res_ar_def Let_def split: sum.splits)
  from append_node_ok[OF assms(2) rs] have "rs = first_res s @ [?r]" .
  with s' show ?thesis by auto
qed

lemma pool_ar_append:
  assumes "pool_ar rs js" and "r_rsv r = []" and "r_total_workload r = 0"
  shows "pool_ar (rs @ [r]) js"
  using assms unfolding pool_ar_def by (auto simp: load_ok_def queue_workload_def)

lemma add_res_ar_inv:
  assumes "add_res_ar e s = Inr s'" and "inv_ar s" and "time_mid_ar (first_res s)"
  shows "inv_ar s' \<and> time_mid_ar (first_res s') \<and> begin_flag s' = begin_flag s"
proof -
  from assms(2) have c: "chain_ok r_code (first_res s) (last_res s) (resource_number s)"
    and cj: "chain_ok j_code (first_job s) (last_job s) (job_number s)"
    and p: "pool_ar (first_res s) (first_job s)"
    by (simp_all add: inv_ar_def)
  from add_res_ar_cases[OF assms(1) c]
  have j: "first_job s' = first_job s" "last_job s' = last_job s" "job_number s' = job_number s"
    and b: "begin_flag s' = begin_flag s"
    and d: "first_res s' = first_res s \<and> last_res s' = last_res s \<and>
            resource_number s' = resource_number s \<or>
          (\<exists>r. first_res s' = first_res s @ [r] \<and> r_code r = resource_number s + 1 \<and>
                r_state r = AVAILABLE \<and> r_used_time r = 0 \<and> r_total_time r = 0 \<and>
                r_total_workload r = 0 \<and> r_rsv r = [] \<and>
                last_res s' = Some (resource_number s + 1) \<and>
                resource_number s' = resource_number s + 1)" by auto
  from d show ?thesis
  proof
    assume "first_res s' = first_res s \<and> last_res s' = last_res s \<and>
            resource_number s' = resource_number s"
    with assms(2,3) j b show ?thesis by (simp add: inv_ar_def)
  next
    assume "\<exists>r. first_res s' = first_res s @ [r] \<and> r_code r = resource_number s + 1 \<and>
                r_state r = AVAILABLE \<and> r_used_time r = 0 \<and> r_total_time r = 0 \<and>
                r_total_workload r = 0 \<and> r_rsv r = [] \<and>
                last_res s' = Some (resource_number s + 1) \<and>
                resource_number s' = resource_number s + 1"
    then obtain r where r: "first_res s' = first_res s @ [r]" "r_code r = resource_number s + 1"
      "r_used_time r = 0" "r_total_time r = 0" "r_total_workload r = 0" "r_rsv r = []"
      "last_res s' = Some (resource_number s + 1)" "resource_number s' = resource_number s + 1"
      by blast
    have "chain_ok r_code (first_res s') (last_res s') (resource_number s')"
      unfolding r(1,7,8) by (rule chain_ok_append[OF c r(2)])
    moreover have "pool_ar (first_res s') (first_job s')"
      unfolding r(1) j by (rule pool_ar_append[OF p r(6,5)])
    moreover have "time_mid_ar (first_res s')"
      using assms(3) r(3,4,6) unfolding r(1) time_mid_ar_def by auto
    ultimately show ?thesis using cj j b by (simp add: inv_ar_def)
  qed
qed

lemma add_res_times_ar_inv:
  "add_res_times_ar k e s = Inr s' \<Longrightarrow> inv_ar s \<Longrightarrow> time_mid_ar (first_res s) \<Longrightarrow>
   inv_ar s' \<and> time_mid_ar (first_res s')"
proof (induction k arbitrary: s)
  case 0
  then show ?case by simp
next
  case (Suc k)
  from Suc.prems(1) obtain s1 where s1: "add_res_ar e s = Inr s1"
    "add_res_times_ar k e s1 = Inr s'" by (auto split: sum.splits)
  from add_res_ar_inv[OF s1(1) Suc.prems(2,3)] Suc.IH[OF s1(2)] show ?case by blast
qed

text \<open>Changing the job chain without touching the reserved jobs\<close>

lemma pool_ar_jobs:
  assumes "pool_ar rs js"
    and "\<And>h. queued js h \<Longrightarrow> job_of js' h = job_of js h"
  shows "pool_ar rs js'"
proof -
  have same: "\<forall>h\<in>set (r_rsv r). job_of js' h = job_of js h" if "r \<in> set rs" for r
    using assms that unfolding pool_ar_def by blast
  show ?thesis
    unfolding pool_ar_def
  proof (intro conjI ballI)
    show "distinct (concat (map r_rsv rs))" using assms(1) by (simp add: pool_ar_def)
  next
    fix r h assume "r \<in> set rs" "h \<in> set (r_rsv r)"
    with assms show "queued js' h" unfolding pool_ar_def queued_def by fastforce
  next
    fix r assume "r \<in> set rs"
    with assms(1) show "r_state r = LEAVING \<longrightarrow> r_rsv r = []" by (simp add: pool_ar_def)
  next
    fix r assume r: "r \<in> set rs"
    with assms(1) have "load_ok js r" by (simp add: pool_ar_def)
    with load_ok_frame[OF same[OF r]] show "load_ok js' r" by simp
  qed
qed

lemma find_filter_keep:
  "find P xs = Some x \<Longrightarrow> Q x \<Longrightarrow> find P (filter Q xs) = Some x"
  by (induction xs) (auto split: if_splits)

lemma find_append_keep:
  "find P xs = Some x \<Longrightarrow> find P (xs @ ys) = Some x"
  by (induction xs) (auto split: if_splits)

lemma remove_done_jobs_pool:
  assumes "pool_ar rs js"
  shows "pool_ar rs (filter (\<lambda>j. j_state j \<noteq> DONE) js)"
proof (rule pool_ar_jobs[OF assms])
  fix h assume "queued js h"
  from queued_job_of[OF this] obtain j where j: "job_of js h = Some j" "queued_state (j_state j)"
    by blast
  then have "j_state j \<noteq> DONE" by (auto simp: queued_state_def)
  with j(1) show "job_of (filter (\<lambda>j. j_state j \<noteq> DONE) js) h = job_of js h"
    unfolding job_of_def by (simp add: find_filter_keep)
qed

lemma add_job_pool:
  assumes "pool_ar rs js"
  shows "pool_ar rs (js @ [j])"
proof (rule pool_ar_jobs[OF assms])
  fix h assume "queued js h"
  from queued_job_of[OF this] obtain x where "job_of js h = Some x" by blast
  then show "job_of (js @ [j]) h = job_of js h"
    unfolding job_of_def by (simp add: find_append_keep)
qed

lemma distinct_concat_filter:
  "distinct (concat (map f xs)) \<Longrightarrow> distinct (concat (map f (filter P xs)))"
  by (induction xs) auto

lemma remove_leaving_pool:
  assumes "pool_ar rs js"
  shows "pool_ar (filter (\<lambda>r. r_state r \<noteq> LEAVING) rs) js"
  using assms unfolding pool_ar_def by (auto intro: distinct_concat_filter)

lemma remove_inv_ar:
  assumes "inv_ar s" and "time_mid_ar (first_res s)"
  shows "inv_ar (remove_leaving_resources (remove_done_jobs s)) \<and>
         time_mid_ar (first_res (remove_leaving_resources (remove_done_jobs s)))"
proof -
  let ?s = "remove_leaving_resources (remove_done_jobs s)"
  have f: "first_res ?s = filter (\<lambda>r. r_state r \<noteq> LEAVING) (first_res s)"
    "first_job ?s = filter (\<lambda>j. j_state j \<noteq> DONE) (first_job s)"
    "last_res ?s = last_res s" "resource_number ?s = resource_number s"
    "last_job ?s = last_job s" "job_number ?s = job_number s"
    by (simp_all add: remove_leaving_resources_def remove_done_jobs_def)
  have "chain_ok r_code (first_res ?s) (last_res ?s) (resource_number ?s)"
    using assms(1) unfolding f inv_ar_def by (auto intro: chain_ok_filter)
  moreover have "chain_ok j_code (first_job ?s) (last_job ?s) (job_number ?s)"
    using assms(1) unfolding f inv_ar_def by (auto intro: chain_ok_filter)
  moreover have "pool_ar (first_res ?s) (first_job ?s)"
    using assms(1) unfolding f inv_ar_def
    by (auto intro: remove_leaving_pool remove_done_jobs_pool)
  moreover have "time_mid_ar (first_res ?s)"
    using assms(2) unfolding f time_mid_ar_def by auto
  ultimately show ?thesis by (simp add: inv_ar_def)
qed

lemma add_job_exact:
  assumes "add_job e s = Inr s'"
    and "chain_ok j_code (first_job s) (last_job s) (job_number s)"
  shows "first_res s' = first_res s \<and> last_res s' = last_res s \<and>
         resource_number s' = resource_number s \<and> begin_flag s' = begin_flag s \<and>
         (first_job s' = first_job s \<and> last_job s' = last_job s \<and> job_number s' = job_number s \<or>
          (\<exists>j. first_job s' = first_job s @ [j] \<and> j_state j = WAITING \<and>
               j_code j = job_number s + 1 \<and> last_job s' = Some (job_number s + 1) \<and>
               job_number s' = job_number s + 1))"
proof (cases "malloc_src e (mallocs s)")
  case False
  with assms(1) show ?thesis by (auto simp: add_job_def)
next
  case True
  let ?j = "\<lparr>j_code = job_number s + 1, j_state = WAITING,
             j_workload = 50 + int (random_src e (randoms s) mod 950),
             j_send_data = int (random_src e (Suc (randoms s)) mod 30),
             j_wait_time = 0, j_run_on = None\<rparr>"
  from True assms(1) obtain js where js: "append_node j_code ?j (first_job s) (last_job s) = Inr js"
    and s': "s' = s\<lparr>first_job := js, last_job := Some (job_number s + 1),
                    job_number := job_number s + 1,
                    randoms := randoms s + 2, mallocs := Suc (mallocs s)\<rparr>"
    by (auto simp: add_job_def Let_def split: sum.splits)
  from append_node_ok[OF assms(2) js] have "js = first_job s @ [?j]" .
  with s' show ?thesis by auto
qed

lemma add_job_inv_ar:
  assumes "add_job e s = Inr s'" and "inv_ar s"
  shows "inv_ar s' \<and> first_res s' = first_res s"
proof -
  from assms(2) have c: "chain_ok r_code (first_res s) (last_res s) (resource_number s)"
    and cj: "chain_ok j_code (first_job s) (last_job s) (job_number s)"
    and p: "pool_ar (first_res s) (first_job s)"
    by (simp_all add: inv_ar_def)
  from add_job_exact[OF assms(1) cj]
  have f: "first_res s' = first_res s" "last_res s' = last_res s"
    "resource_number s' = resource_number s"
    and d: "first_job s' = first_job s \<and> last_job s' = last_job s \<and> job_number s' = job_number s \<or>
          (\<exists>j. first_job s' = first_job s @ [j] \<and> j_state j = WAITING \<and>
               j_code j = job_number s + 1 \<and> last_job s' = Some (job_number s + 1) \<and>
               job_number s' = job_number s + 1)" by auto
  from d show ?thesis
  proof
    assume "first_job s' = first_job s \<and> last_job s' = last_job s \<and> job_number s' = job_number s"
    with assms(2) f show ?thesis by (simp add: inv_ar_def)
  next
    assume "\<exists>j. first_job s' = first_job s @ [j] \<and> j_state j = WAITING \<and>
               j_code j = job_number s + 1 \<and> last_job s' = Some (job_number s + 1) \<and>
               job_number s' = job_number s + 1"
    then obtain j where j: "first_job s' = first_job s @ [j]" "j_code j = job_number s + 1"
      "last_job s' = Some (job_number s + 1)" "job_number s' = job_number s + 1" by blast
    have "chain_ok j_code (first_job s') (last_job s') (job_number s')"
      unfolding j(1,3,4) by (rule chain_ok_append[OF cj j(2)])
    moreover have "pool_ar (first_res s') (first_job s')"
      unfolding f j(1) by (rule add_job_pool[OF p])
    ultimately show ?thesis using c f by (simp add: inv_ar_def)
  qed
qed

lemma add_remove_ar_Inr:
  assumes "add_remove_ar e s = Inr s'"
  obtains s1 where
    "(if begin_flag s then add_res_times_ar 5 e (s\<lparr>begin_flag := False\<rparr>) else Inr s) = Inr s1"
    and "add_draw_ar e
           ((remove_leaving_resources (remove_done_jobs s1))
              \<lparr>randoms := Suc (randoms (remove_leaving_resources (remove_done_jobs s1)))\<rparr>)
           (1 + int (random_src e (randoms (remove_leaving_resources (remove_done_jobs s1))) mod 1000))
         = Inr s'"
proof (cases "if begin_flag s then add_res_times_ar 5 e (s\<lparr>begin_flag := False\<rparr>) else Inr s")
  case (Inl f)
  then have "add_remove_ar e s = Inl f" unfolding add_remove_ar_def by (simp only: sum.case)
  with assms show ?thesis by simp
next
  case (Inr s1)
  then have "add_remove_ar e s = add_draw_ar e
           ((remove_leaving_resources (remove_done_jobs s1))
              \<lparr>randoms := Suc (randoms (remove_leaving_resources (remove_done_jobs s1)))\<rparr>)
           (1 + int (random_src e (randoms (remove_leaving_resources (remove_done_jobs s1))) mod 1000))"
    unfolding add_remove_ar_def by (simp only: sum.case Let_def)
  with assms Inr that show ?thesis by simp
qed

lemma add_draw_ar_cases:
  assumes "add_draw_ar e s i = Inr s'"
  shows "add_res_ar e s = Inr s' \<or> add_job e s = Inr s' \<or> s' = s"
  using assms unfolding add_draw_ar_def by (auto split: if_splits)

lemma inv_ar_cong:
  assumes "first_res s' = first_res s" "first_job s' = first_job s" "last_res s' = last_res s"
    "resource_number s' = resource_number s" "last_job s' = last_job s"
    "job_number s' = job_number s"
  shows "inv_ar s' = inv_ar s"
  unfolding inv_ar_def assms ..

lemma add_remove_ar_inv:
  assumes "add_remove_ar e s = Inr s'" and "inv_ar s" and "time_mid_ar (first_res s)"
  shows "inv_ar s' \<and> time_mid_ar (first_res s')"
proof -
  let ?s0 = "s\<lparr>begin_flag := False\<rparr>"
  from add_remove_ar_Inr[OF assms(1)] obtain s1 where
    s1: "(if begin_flag s then add_res_times_ar 5 e ?s0 else Inr s) = Inr s1"
    and d: "add_draw_ar e
           ((remove_leaving_resources (remove_done_jobs s1))
              \<lparr>randoms := Suc (randoms (remove_leaving_resources (remove_done_jobs s1)))\<rparr>)
           (1 + int (random_src e (randoms (remove_leaving_resources (remove_done_jobs s1))) mod 1000))
         = Inr s'" by blast
  have "inv_ar ?s0 = inv_ar s" by (rule inv_ar_cong) simp_all
  with assms(2,3) have i0: "inv_ar ?s0" "time_mid_ar (first_res ?s0)" by simp_all
  have i1: "inv_ar s1 \<and> time_mid_ar (first_res s1)"
  proof (cases "begin_flag s")
    case True
    with s1 have "add_res_times_ar 5 e ?s0 = Inr s1" by (simp only: if_True)
    from add_res_times_ar_inv[OF this i0] show ?thesis .
  next
    case False
    with s1 have "s1 = s" by (simp only: if_False sum.inject)
    with assms(2,3) show ?thesis by simp
  qed
  define s2 where "s2 = remove_leaving_resources (remove_done_jobs s1)"
  define s3 where "s3 = s2\<lparr>randoms := Suc (randoms s2)\<rparr>"
  from remove_inv_ar i1 have i2: "inv_ar s2" "time_mid_ar (first_res s2)"
    unfolding s2_def by blast+
  have "inv_ar s3 = inv_ar s2" by (rule inv_ar_cong) (simp_all add: s3_def)
  with i2 have i3: "inv_ar s3" "time_mid_ar (first_res s3)" by (simp_all add: s3_def)
  from d have "add_draw_ar e s3 (1 + int (random_src e (randoms s2) mod 1000)) = Inr s'"
    unfolding s2_def s3_def .
  from add_draw_ar_cases[OF this]
  consider "add_res_ar e s3 = Inr s'" | "add_job e s3 = Inr s'" | "s' = s3" by blast
  then show ?thesis
  proof cases
    case 1
    from add_res_ar_inv[OF 1 i3] show ?thesis by blast
  next
    case 2
    from add_job_inv_ar[OF 2 i3(1)] i3(2) show ?thesis by simp
  next
    case 3
    with i3 show ?thesis by simp
  qed
qed

section \<open>The executor and the scheduler of ar-sim.c keep the invariant\<close>

lemma ar_step_codes:
  "list_all2 (ar_step js js') rs rs' \<Longrightarrow> map r_code rs' = map r_code rs"
  by (induction rule: list_all2_induct) (auto simp: ar_step_def)

lemma ar_step_queues:
  assumes "list_all2 (ar_step js js') rs rs'"
  shows "set (concat (map r_rsv rs')) \<subseteq> set (concat (map r_rsv rs)) \<and>
         (distinct (concat (map r_rsv rs)) \<longrightarrow> distinct (concat (map r_rsv rs')))"
  using assms
proof (induction rule: list_all2_induct)
  case Nil
  then show ?case by simp
next
  case (Cons r rs r' rs')
  from Cons.hyps(1) have q: "r_rsv r' = r_rsv r \<or> r_rsv r \<noteq> [] \<and> r_rsv r' = tl (r_rsv r)"
    by (auto simp: ar_step_def)
  then have sub: "set (r_rsv r') \<subseteq> set (r_rsv r)" by (auto dest: list.set_sel(2))
  from q have d: "distinct (r_rsv r) \<longrightarrow> distinct (r_rsv r')" by (auto simp: distinct_tl)
  from sub d Cons.IH show ?case by auto
qed

lemma run_send_ar_inv:
  assumes "inv_ar s" and "time_mid_ar (first_res s)"
  shows "\<exists>s'. run_send_ar e s = Inr s' \<and> inv_ar s' \<and> time_ok (first_res s') \<and>
              list_all2 (ar_step (first_job s) (first_job s')) (first_res s) (first_res s') \<and>
              jobs_frame (set (concat (map r_rsv (first_res s)))) (first_job s) (first_job s')"
proof -
  from assms(1) have c: "chain_ok r_code (first_res s) (last_res s) (resource_number s)"
    and cj: "chain_ok j_code (first_job s) (last_job s) (job_number s)"
    and p: "pool_ar (first_res s) (first_job s)"
    by (simp_all add: inv_ar_def)
  from p have d: "distinct (concat (map r_rsv (first_res s)))"
    and q: "\<forall>r\<in>set (first_res s). \<forall>h\<in>set (r_rsv r). queued (first_job s) h"
    and l: "\<forall>r\<in>set (first_res s). r_state r = LEAVING \<longrightarrow> r_rsv r = []"
    and lo: "\<forall>r\<in>set (first_res s). load_ok (first_job s) r"
    by (simp_all add: pool_ar_def)
  from run_send_loop_ar_ok[OF d q l, of e "randoms s"]
  obtain rs' js' n' where h:
    "run_send_loop_ar e (first_res s) (first_job s) (randoms s) = Inr (rs', js', n')"
    "jobs_frame (set (concat (map r_rsv (first_res s)))) (first_job s) js'"
    "list_all2 (ar_step (first_job s) js') (first_res s) rs'" by blast
  let ?s' = "s\<lparr>first_job := js', first_res := rs', randoms := n'\<rparr>"
  have r: "run_send_ar e s = Inr ?s'" using h(1) by (simp add: run_send_ar_def)
  have "chain_ok r_code rs' (last_res s) (resource_number s)"
    by (rule chain_ok_cong[OF ar_step_codes[OF h(3)] c])
  moreover have "chain_ok j_code js' (last_job s) (job_number s)"
    by (rule chain_ok_cong[OF _ cj]) (use h(2) in \<open>simp add: jobs_frame_def\<close>)
  moreover have "pool_ar rs' js'"
    unfolding pool_ar_def
  proof (intro conjI)
    show "distinct (concat (map r_rsv rs'))" using ar_step_queues[OF h(3)] d by blast
  next
    show "\<forall>r'\<in>set rs'. (\<forall>h\<in>set (r_rsv r'). queued js' h) \<and>
            (r_state r' = LEAVING \<longrightarrow> r_rsv r' = []) \<and> load_ok js' r'"
    proof
      fix r' assume "r' \<in> set rs'"
      then obtain k where k: "k < length rs'" "rs' ! k = r'" by (auto simp: in_set_conv_nth)
      with h(3) have k0: "k < length (first_res s)" by (simp add: list_all2_lengthD)
      with h(3) k(2) have st: "ar_step (first_job s) js' (first_res s ! k) r'"
        by (auto dest: list_all2_nthD)
      from k0 lo have "load_ok (first_job s) (first_res s ! k)" by simp
      with st show "(\<forall>h\<in>set (r_rsv r'). queued js' h) \<and>
            (r_state r' = LEAVING \<longrightarrow> r_rsv r' = []) \<and> load_ok js' r'"
        by (simp add: ar_step_def)
    qed
  qed
  ultimately have inv: "inv_ar ?s'" by (simp add: inv_ar_def)
  have "time_ok rs'"
    unfolding time_ok_def
  proof
    fix r' assume "r' \<in> set rs'"
    then obtain k where k: "k < length rs'" "rs' ! k = r'" by (auto simp: in_set_conv_nth)
    with h(3) have k0: "k < length (first_res s)" by (simp add: list_all2_lengthD)
    with h(3) k(2) have st: "ar_step (first_job s) js' (first_res s ! k) r'"
      by (auto dest: list_all2_nthD)
    from k0 assms(2) have "r_used_time (first_res s ! k) \<le> r_total_time (first_res s ! k)"
      "r_rsv (first_res s ! k) \<noteq> [] \<longrightarrow>
         float_incr (r_used_time (first_res s ! k)) \<le> r_total_time (first_res s ! k)"
      by (simp_all add: time_mid_ar_def)
    with st show "r_used_time r' \<le> r_total_time r'" by (auto simp: ar_step_def)
  qed
  with r inv h(2,3) show ?thesis by simp
qed

lemma select_best_res_inv:
  assumes "rest = drop i rs" "i \<le> length rs" "b < length rs"
    and "r_state (rs ! b) \<noteq> NO_ACCEPT_JOBS"
    and "\<forall>k<i. r_state (rs ! k) \<noteq> NO_ACCEPT_JOBS \<longrightarrow>
           r_total_workload (rs ! b) \<le> r_total_workload (rs ! k)"
    and "\<forall>k<b. r_state (rs ! k) \<noteq> NO_ACCEPT_JOBS \<longrightarrow>
           r_total_workload (rs ! b) < r_total_workload (rs ! k)"
  shows "least_loaded rs (select_best_res rs b i rest)"
  using assms
proof (induction rest arbitrary: i b)
  case Nil
  then have "i = length rs" by simp
  with Nil show ?case by (simp add: least_loaded_def)
next
  case (Cons r rest)
  from Cons.prems(1,2) have i: "i < length rs"
    by (metis drop_all list.distinct(1) not_le)
  from Cons.prems(1) i have r: "r = rs ! i" and rest: "rest = drop (Suc i) rs"
    by (metis Cons_nth_drop_Suc list.inject)+
  show ?case
  proof (cases "r_state r \<noteq> NO_ACCEPT_JOBS \<and> r_total_workload r < r_total_workload (rs ! b)")
    case True
    have "least_loaded rs (select_best_res rs i (Suc i) rest)"
    proof (rule Cons.IH[OF rest])
      show "Suc i \<le> length rs" using i by simp
      show "i < length rs" by (rule i)
      show "r_state (rs ! i) \<noteq> NO_ACCEPT_JOBS" using True r by simp
      show "\<forall>k<Suc i. r_state (rs ! k) \<noteq> NO_ACCEPT_JOBS \<longrightarrow>
              r_total_workload (rs ! i) \<le> r_total_workload (rs ! k)"
        using True r Cons.prems(5) by (auto simp: less_Suc_eq)
      show "\<forall>k<i. r_state (rs ! k) \<noteq> NO_ACCEPT_JOBS \<longrightarrow>
              r_total_workload (rs ! i) < r_total_workload (rs ! k)"
        using True r Cons.prems(5) by fastforce
    qed
    with True show ?thesis by simp
  next
    case False
    have "least_loaded rs (select_best_res rs b (Suc i) rest)"
    proof (rule Cons.IH[OF rest])
      show "Suc i \<le> length rs" using i by simp
      show "b < length rs" by (rule Cons.prems(3))
      show "r_state (rs ! b) \<noteq> NO_ACCEPT_JOBS" by (rule Cons.prems(4))
      show "\<forall>k<Suc i. r_state (rs ! k) \<noteq> NO_ACCEPT_JOBS \<longrightarrow>
              r_total_workload (rs ! b) \<le> r_total_workload (rs ! k)"
        using False r Cons.prems(5) by (auto simp: less_Suc_eq)
      show "\<forall>k<b. r_state (rs ! k) \<noteq> NO_ACCEPT_JOBS \<longrightarrow>
              r_total_workload (rs ! b) < r_total_workload (rs ! k)"
        by (rule Cons.prems(6))
    qed
    with False show ?thesis by auto
  qed
qed

lemma select_best_res_first:
  assumes "first_at (\<lambda>r. r_state r \<noteq> NO_ACCEPT_JOBS) rs ri"
  shows "least_loaded rs (select_best_res rs ri ri (drop ri rs))"
  using assms by (intro select_best_res_inv) (auto simp: first_at_def)

text \<open>What schedule of ar-sim.c does to the pools\<close>

lemma schedule_ar_cases:
  "first_res (schedule_ar e s) = first_res s \<and> first_job (schedule_ar e s) = first_job s \<or>
   (\<exists>ji bi. first_at (\<lambda>j. j_state j = WAITING) (first_job s) ji \<and>
      least_loaded (first_res s) bi \<and>
      first_res (schedule_ar e s) = (first_res s)
        [bi := (first_res s ! bi)
           \<lparr>r_state := HAS_JOBS,
            r_total_workload := r_total_workload (first_res s ! bi)
                                + j_workload (first_job s ! ji),
            r_rsv := r_rsv (first_res s ! bi) @ [j_code (first_job s ! ji)]\<rparr>] \<and>
      first_job (schedule_ar e s) = (first_job s)
        [ji := (first_job s ! ji)\<lparr>j_state := WAITING_TO_SEND_DATA\<rparr>])"
proof (cases "first_index (\<lambda>j. j_state j = WAITING) (first_job s)")
  case None
  then show ?thesis by (simp add: schedule_ar_def)
next
  case (Some ji)
  note ji = this
  show ?thesis
  proof (cases "malloc_src e (mallocs s)")
    case False
    with ji show ?thesis by (simp add: schedule_ar_def)
  next
    case True
    show ?thesis
    proof (cases "first_index (\<lambda>r. r_state r \<noteq> NO_ACCEPT_JOBS) (first_res s)")
      case None
      with ji True show ?thesis by (simp add: schedule_ar_def)
    next
      case (Some ri)
      then have fa: "first_at (\<lambda>r. r_state r \<noteq> NO_ACCEPT_JOBS) (first_res s) ri"
        by (simp add: first_index_Some)
      let ?bi = "select_best_res (first_res s) ri ri (drop ri (first_res s))"
      have "least_loaded (first_res s) ?bi" by (rule select_best_res_first[OF fa])
      moreover have "first_at (\<lambda>j. j_state j = WAITING) (first_job s) ji"
        using ji by (simp add: first_index_Some)
      moreover have "first_res (schedule_ar e s) = (first_res s)
        [?bi := (first_res s ! ?bi)
           \<lparr>r_state := HAS_JOBS,
            r_total_workload := r_total_workload (first_res s ! ?bi)
                                + j_workload (first_job s ! ji),
            r_rsv := r_rsv (first_res s ! ?bi) @ [j_code (first_job s ! ji)]\<rparr>] \<and>
      first_job (schedule_ar e s) = (first_job s)
        [ji := (first_job s ! ji)\<lparr>j_state := WAITING_TO_SEND_DATA\<rparr>]"
        using Some ji True by (simp add: schedule_ar_def Let_def)
      ultimately show ?thesis by blast
    qed
  qed
qed

lemma schedule_ar_chain:
  "last_res (schedule_ar e s) = last_res s \<and> resource_number (schedule_ar e s) = resource_number s \<and>
   last_job (schedule_ar e s) = last_job s \<and> job_number (schedule_ar e s) = job_number s"
  by (simp add: schedule_ar_def Let_def split: option.splits)

lemma concat_map_update:
  assumes "i < length xs"
  shows "concat (map f (xs[i := y])) =
         concat (map f (take i xs)) @ f y @ concat (map f (drop (Suc i) xs))"
  using assms by (simp add: upd_conv_take_nth_drop)

lemma concat_map_nth:
  assumes "i < length xs"
  shows "concat (map f xs) =
         concat (map f (take i xs)) @ f (xs ! i) @ concat (map f (drop (Suc i) xs))"
proof -
  have "xs = take i xs @ xs ! i # drop (Suc i) xs" using assms by (simp add: id_take_nth_drop[symmetric])
  then have "concat (map f xs) = concat (map f (take i xs @ xs ! i # drop (Suc i) xs))" by simp
  then show ?thesis by simp
qed

lemma distinct_concat_snoc:
  assumes "distinct (concat (map f xs))" and "i < length xs"
    and "c \<notin> set (concat (map f xs))" and "f y = f (xs ! i) @ [c]"
  shows "distinct (concat (map f (xs[i := y])))"
proof -
  from assms(1,3) have "distinct (concat (map f (take i xs)) @ f (xs ! i) @ concat (map f (drop (Suc i) xs)))"
    and "c \<notin> set (concat (map f (take i xs)) @ f (xs ! i) @ concat (map f (drop (Suc i) xs)))"
    unfolding concat_map_nth[OF assms(2), symmetric] by simp_all
  then show ?thesis unfolding concat_map_update[OF assms(2)] assms(4) by auto
qed

lemma queue_workload_snoc:
  "queue_workload js (q @ [c]) = queue_workload js q + workload_of js c"
  by (simp add: queue_workload_def)

lemma schedule_ar_inv:
  assumes "inv_ar s" and "time_ok (first_res s)"
  shows "inv_ar (schedule_ar e s) \<and> time_ok (first_res (schedule_ar e s))"
proof -
  from assms(1) have c: "chain_ok r_code (first_res s) (last_res s) (resource_number s)"
    and cj: "chain_ok j_code (first_job s) (last_job s) (job_number s)"
    and p: "pool_ar (first_res s) (first_job s)"
    by (simp_all add: inv_ar_def)
  note ch = schedule_ar_chain[of e s]
  from schedule_ar_cases[of e s] show ?thesis
  proof
    assume "first_res (schedule_ar e s) = first_res s \<and> first_job (schedule_ar e s) = first_job s"
    with assms ch show ?thesis by (simp add: inv_ar_def)
  next
    assume "\<exists>ji bi. first_at (\<lambda>j. j_state j = WAITING) (first_job s) ji \<and>
      least_loaded (first_res s) bi \<and>
      first_res (schedule_ar e s) = (first_res s)
        [bi := (first_res s ! bi)
           \<lparr>r_state := HAS_JOBS,
            r_total_workload := r_total_workload (first_res s ! bi)
                                + j_workload (first_job s ! ji),
            r_rsv := r_rsv (first_res s ! bi) @ [j_code (first_job s ! ji)]\<rparr>] \<and>
      first_job (schedule_ar e s) = (first_job s)
        [ji := (first_job s ! ji)\<lparr>j_state := WAITING_TO_SEND_DATA\<rparr>]"
    then obtain ji bi where ji: "ji < length (first_job s)" "j_state (first_job s ! ji) = WAITING"
      and bi: "bi < length (first_res s)"
      and fr: "first_res (schedule_ar e s) = (first_res s)
        [bi := (first_res s ! bi)
           \<lparr>r_state := HAS_JOBS,
            r_total_workload := r_total_workload (first_res s ! bi)
                                + j_workload (first_job s ! ji),
            r_rsv := r_rsv (first_res s ! bi) @ [j_code (first_job s ! ji)]\<rparr>]"
      and fj: "first_job (schedule_ar e s) = (first_job s)
        [ji := (first_job s ! ji)\<lparr>j_state := WAITING_TO_SEND_DATA\<rparr>]"
      by (auto simp: first_at_def least_loaded_def)
    define rs where "rs = first_res s"
    define js where "js = first_job s"
    define j where "j = js ! ji"
    define cd where "cd = j_code j"
    define j' where "j' = j\<lparr>j_state := WAITING_TO_SEND_DATA\<rparr>"
    define r where "r = rs ! bi"
    define r' where "r' = r\<lparr>r_state := HAS_JOBS,
            r_total_workload := r_total_workload r + j_workload j,
            r_rsv := r_rsv r @ [cd]\<rparr>"
    have fr': "first_res (schedule_ar e s) = rs[bi := r']"
      and fj': "first_job (schedule_ar e s) = js[ji := j']"
      unfolding fr fj by (simp_all add: rs_def js_def j_def cd_def j'_def r_def r'_def)
    note p' = p[folded rs_def js_def]
    have dj: "distinct (map j_code js)" using chain_ok_distinct[OF cj] by (simp add: js_def)
    have fa: "first_at (\<lambda>x. j_code x = cd) js ji"
      using first_index_key[OF dj, of ji] ji(1)
      by (simp add: first_index_Some cd_def j_def js_def)
    have jo: "job_of js cd = Some j"
      using fa find_first_index[of "\<lambda>x. j_code x = cd" js ji]
      by (simp add: first_index_Some job_of_def j_def)
    have nq: "\<not> queued js cd" using jo ji(2)
      by (simp add: queued_def queued_state_def j_def js_def)
    have cj': "j_code j' = cd" by (simp add: j'_def cd_def)
    note u = job_of_update[OF fa cj']
    have pj: "pool_ar rs (js[ji := j'])"
    proof (rule pool_ar_jobs[OF p'])
      fix h assume "queued js h"
      with nq have "h \<noteq> cd" by auto
      with u show "job_of (js[ji := j']) h = job_of js h" by simp
    qed
    have fresh: "cd \<notin> set (concat (map r_rsv rs))"
    proof
      assume "cd \<in> set (concat (map r_rsv rs))"
      then obtain x where "x \<in> set rs" "cd \<in> set (r_rsv x)" by auto
      with p' have "queued js cd" by (simp add: pool_ar_def)
      with nq show False by simp
    qed
    have rin: "r \<in> set rs" using bi by (simp add: r_def rs_def)
    have qc: "queued (js[ji := j']) cd" using u[of cd] by (simp add: queued_def queued_state_def j'_def)
    have wc: "workload_of (js[ji := j']) cd = j_workload j"
      using u[of cd] by (simp add: workload_of_def j'_def)
    have "pool_ar (rs[bi := r']) (js[ji := j'])"
      unfolding pool_ar_def
    proof (intro conjI)
      show "distinct (concat (map r_rsv (rs[bi := r'])))"
      proof (rule distinct_concat_snoc[OF _ _ fresh])
        show "distinct (concat (map r_rsv rs))" using p' by (simp add: pool_ar_def)
        show "bi < length rs" using bi by (simp add: rs_def)
        show "r_rsv r' = r_rsv (rs ! bi) @ [cd]" by (simp add: r'_def r_def)
      qed
    next
      show "\<forall>x\<in>set (rs[bi := r']). (\<forall>h\<in>set (r_rsv x). queued (js[ji := j']) h) \<and>
              (r_state x = LEAVING \<longrightarrow> r_rsv x = []) \<and> load_ok (js[ji := j']) x"
      proof
        fix x assume "x \<in> set (rs[bi := r'])"
        then have x: "x = r' \<or> x \<in> set rs" using set_update_subset_insert[of rs bi r'] by auto
        from pj rin have old: "\<forall>h\<in>set (r_rsv r). queued (js[ji := j']) h" "load_ok (js[ji := j']) r"
          by (simp_all add: pool_ar_def)
        have new: "(\<forall>h\<in>set (r_rsv r'). queued (js[ji := j']) h) \<and>
                   (r_state r' = LEAVING \<longrightarrow> r_rsv r' = []) \<and> load_ok (js[ji := j']) r'"
          using old qc wc by (simp add: r'_def load_ok_def queue_workload_snoc)
        from x new pj
        show "(\<forall>h\<in>set (r_rsv x). queued (js[ji := j']) h) \<and>
              (r_state x = LEAVING \<longrightarrow> r_rsv x = []) \<and> load_ok (js[ji := j']) x"
          by (auto simp: pool_ar_def)
      qed
    qed
    moreover have "chain_ok r_code (rs[bi := r']) (last_res s) (resource_number s)"
    proof (rule chain_ok_cong[OF _ c[folded rs_def]])
      show "map r_code (rs[bi := r']) = map r_code rs"
        using bi by (simp add: map_update list_update_same_conv r'_def r_def rs_def)
    qed
    moreover have "chain_ok j_code (js[ji := j']) (last_job s) (job_number s)"
    proof (rule chain_ok_cong[OF _ cj[folded js_def]])
      show "map j_code (js[ji := j']) = map j_code js"
        using ji(1) by (simp add: map_update list_update_same_conv j'_def j_def js_def)
    qed
    ultimately have "inv_ar (schedule_ar e s)" unfolding inv_ar_def fr' fj' using ch by simp
    moreover have "time_ok (rs[bi := r'])"
      using assms(2) rin unfolding time_ok_def rs_def[symmetric] r'_def
      by (auto dest!: set_update_subset_insert[THEN subsetD])
    ultimately show ?thesis by (simp add: fr')
  qed
qed

lemma tick_ar_Next:
  assumes "tick_ar e s = Next s'"
  obtains s1 s2 s3 where "traceall_ar s = Next s1" "add_remove_ar e s1 = Inr s2"
    "run_send_ar e s2 = Inr s3" "s' = schedule_ar e s3"
  using assms unfolding tick_ar_def by (auto split: step.splits sum.splits)

lemma tick_ar_inv:
  assumes "tick_ar e s = Next s'" and "inv_ar s" and "time_ok (first_res s)"
  shows "inv_ar s' \<and> time_ok (first_res s')"
proof -
  from tick_ar_Next[OF assms(1)] obtain s1 s2 s3 where
    t: "traceall_ar s = Next s1" and a: "add_remove_ar e s1 = Inr s2"
    and r: "run_send_ar e s2 = Inr s3" and s': "s' = schedule_ar e s3" by blast
  from traceall_ar_inv[OF t assms(2,3)] have i1: "inv_ar s1" "time_mid_ar (first_res s1)"
    by blast+
  from add_remove_ar_inv[OF a i1] have i2: "inv_ar s2" "time_mid_ar (first_res s2)"
    by blast+
  from run_send_ar_inv[OF i2, of e] r have i3: "inv_ar s3" "time_ok (first_res s3)" by auto
  with schedule_ar_inv[OF i3] s' show ?thesis by simp
qed

lemma inv_ar_init: "inv_ar init \<and> time_ok (first_res (init :: asim))"
  by (simp add: inv_ar_def init_def chain_ok_def time_ok_def pool_ar_def)

lemma reach_ar_inv: "reach_ar e s \<Longrightarrow> inv_ar s \<and> time_ok (first_res s)"
proof (induction rule: reach_ar.induct)
  case reach_ar_init
  show ?case by (rule inv_ar_init)
next
  case (reach_ar_tick s s')
  with tick_ar_inv[of e s s'] show ?case by blast
qed

section \<open>The two executions\<close>

lemmas ar_tick_defs = tick_ar_def traceall_ar_def Let_def trace_job_ar_def trace_res_def
  float_incr_def add_remove_ar_def remove_done_jobs_def remove_leaving_resources_def
  env_single_def add_draw_ar_def add_res_ar_def add_job_def append_node_def
  run_send_ar_def run_send_res_ar_def run_job_ar_def deref_def schedule_ar_def

lemmas mixed_tick_defs = tick_mixed_def traceall_mixed_def Let_def trace_job_mixed_def
  trace_res_def float_incr_def add_remove_mixed_def remove_done_jobs_def
  remove_leaving_resources_def env_single_mixed_def add_draw_mixed_def add_res_mixed_def
  add_job_def append_node_def run_send_mixed_def run_send_job_mixed_def deref_def
  schedule_mixed_def score_def

lemma add_res_times_ar_5:
  "add_res_times_ar 5 e s =
     (case add_res_ar e s of Inl f \<Rightarrow> Inl f | Inr s1 \<Rightarrow>
      case add_res_ar e s1 of Inl f \<Rightarrow> Inl f | Inr s2 \<Rightarrow>
      case add_res_ar e s2 of Inl f \<Rightarrow> Inl f | Inr s3 \<Rightarrow>
      case add_res_ar e s3 of Inl f \<Rightarrow> Inl f | Inr s4 \<Rightarrow> add_res_ar e s4)"
  by (simp add: eval_nat_numeral split: sum.splits)

lemma add_res_times_mixed_5:
  "add_res_times_mixed 5 e s =
     (case add_res_mixed e s of Inl f \<Rightarrow> Inl f | Inr s1 \<Rightarrow>
      case add_res_mixed e s1 of Inl f \<Rightarrow> Inl f | Inr s2 \<Rightarrow>
      case add_res_mixed e s2 of Inl f \<Rightarrow> Inl f | Inr s3 \<Rightarrow>
      case add_res_mixed e s3 of Inl f \<Rightarrow> Inl f | Inr s4 \<Rightarrow> add_res_mixed e s4)"
  by (simp add: eval_nat_numeral split: sum.splits)

lemma ar_tick_1: "tick_ar env_single init = Next (ar_start WAITING_TO_SEND_DATA 0 0 0)"
  by (simp add: ar_tick_defs add_res_times_ar_5 init_def ar_start_def)

lemma ar_tick_2:
  "tick_ar env_single (ar_start WAITING_TO_SEND_DATA 0 0 0) = Next (ar_start SENDING_DATA 0 1 1)"
  by (simp add: ar_tick_defs ar_start_def)

lemma ar_tick_3:
  "tick_ar env_single (ar_start SENDING_DATA 0 1 1) = Next (ar_start READY_TO_RUN (- 1) 1 2)"
  by (simp add: ar_tick_defs ar_start_def)

lemma ar_tick_4:
  "tick_ar env_single (ar_start READY_TO_RUN (- 1) 1 2) = Next (ar_run 0)"
  by (simp add: ar_tick_defs ar_start_def ar_run_def)

lemma ar_tick_run: "k < 10 \<Longrightarrow> tick_ar env_single (ar_run k) = Next (ar_run (Suc k))"
  by (simp add: ar_tick_defs ar_run_def)

lemma ar_tick_done: "tick_ar env_single (ar_run 10) = Next ar_done"
  by (simp add: ar_tick_defs ar_run_def ar_done_def)

lemma reach_ar_run: "k \<le> 10 \<Longrightarrow> reach_ar env_single (ar_run k)"
proof (induction k)
  case 0
  have "reach_ar env_single (ar_start WAITING_TO_SEND_DATA 0 0 0)"
    by (rule reach_ar_tick[OF reach_ar_init ar_tick_1])
  then have "reach_ar env_single (ar_start SENDING_DATA 0 1 1)"
    by (rule reach_ar_tick[OF _ ar_tick_2])
  then have "reach_ar env_single (ar_start READY_TO_RUN (- 1) 1 2)"
    by (rule reach_ar_tick[OF _ ar_tick_3])
  then show ?case by (rule reach_ar_tick[OF _ ar_tick_4])
next
  case (Suc k)
  then have "reach_ar env_single (ar_run k)" and "k < 10" by simp_all
  then show ?case by (rule reach_ar_tick[OF _ ar_tick_run])
qed

lemma reach_ar_done: "reach_ar env_single ar_done"
  by (rule reach_ar_tick[OF reach_ar_run ar_tick_done]) simp

lemma mixed_tick_1: "tick_mixed env_single_mixed init = Next mixed_start"
  by (simp add: mixed_tick_defs add_res_times_mixed_5 init_def mixed_start_def)

lemma mixed_tick_2: "tick_mixed env_single_mixed mixed_start = Next (mixed_run 0)"
  by (simp add: mixed_tick_defs mixed_start_def mixed_run_def)

lemma mixed_tick_run:
  "k < 9 \<Longrightarrow> tick_mixed env_single_mixed (mixed_run k) = Next (mixed_run (Suc k))"
  by (simp add: mixed_tick_defs mixed_run_def)

lemma reach_mixed_run: "k \<le> 9 \<Longrightarrow> reach_mixed env_single_mixed (mixed_run k)"
proof (induction k)
  case 0
  have "reach_mixed env_single_mixed mixed_start"
    by (rule reach_mixed_tick[OF reach_mixed_init mixed_tick_1])
  then show ?case by (rule reach_mixed_tick[OF _ mixed_tick_2])
next
  case (Suc k)
  then have "reach_mixed env_single_mixed (mixed_run k)" and "k < 9" by simp_all
  then show ?case by (rule reach_mixed_tick[OF _ mixed_tick_run])
qed

lemma ar_step_used_once:
  assumes "list_all2 (ar_step js js') rs rs'"
  shows "used_once rs rs'"
  unfolding used_once_def
proof (intro conjI allI impI)
  show l: "length rs' = length rs" using assms by (simp add: list_all2_lengthD)
  fix k assume k: "k < length rs"
  with assms have s: "ar_step js js' (rs ! k) (rs' ! k)" by (simp add: list_all2_nthD)
  then show "r_code (rs' ! k) = r_code (rs ! k)" by (simp add: ar_step_def)
  from s show "r_total_time (rs' ! k) = r_total_time (rs ! k)" by (simp add: ar_step_def)
  from s show "r_used_time (rs' ! k) = r_used_time (rs ! k) \<or>
         r_used_time (rs' ! k) = float_incr (r_used_time (rs ! k))"
    unfolding ar_step_def by blast
qed

lemma run_job_ar_running:
  assumes "first_at (\<lambda>x. j_code x = h) js k" and "j_state (js ! k) = RUNNING"
  shows "\<exists>r' js' n'. run_job_ar e h r js n = Inr (r', js', n') \<and>
           r_total_workload r' = r_total_workload r - r_level r \<and>
           j_workload (js' ! k) = j_workload (js ! k) - r_level r"
proof -
  from assms(1) have k: "k < length js" by (simp add: first_at_def)
  show ?thesis
    unfolding run_job_ar_at[OF assms(1)] using assms(2) k by (simp add: Let_def)
qed

lemmas pair_defs = pair_state_def pair_res_def pair_job_def env_pair_def

lemmas ar_pair_tick_defs = tick_ar_def traceall_ar_def Let_def trace_job_ar_def trace_res_def
  float_incr_def add_remove_ar_def remove_done_jobs_def remove_leaving_resources_def
  add_draw_ar_def add_res_ar_def add_job_def append_node_def
  run_send_ar_def run_send_res_ar_def run_job_ar_def deref_def schedule_ar_def

lemma pair_tick_1: "tick_ar env_pair init = Next (ar_start WAITING_TO_SEND_DATA 0 0 0)"
  by (simp add: ar_pair_tick_defs env_pair_def add_res_times_ar_5 init_def ar_start_def)

lemma pair_tick_2: "tick_ar env_pair (ar_start WAITING_TO_SEND_DATA 0 0 0) = Next pair_queued"
  by (simp add: ar_pair_tick_defs pair_defs ar_start_def pair_queued_def)

lemma pair_tick_3: "tick_ar env_pair pair_queued = Next pair_sent"
  by (simp add: ar_pair_tick_defs pair_defs pair_queued_def pair_sent_def)

lemma pair_tick_4: "tick_ar env_pair pair_sent = Next (pair_first 0)"
  by (simp add: ar_pair_tick_defs pair_defs pair_sent_def pair_first_def)

lemma pair_tick_first: "k < 10 \<Longrightarrow> tick_ar env_pair (pair_first k) = Next (pair_first (Suc k))"
  by (simp add: ar_pair_tick_defs pair_defs pair_first_def)

lemma pair_tick_pop: "tick_ar env_pair (pair_first 10) = Next pair_popped"
  by (simp add: ar_pair_tick_defs pair_defs pair_first_def pair_popped_def)

lemma pair_tick_start: "tick_ar env_pair pair_popped = Next (pair_second 0)"
  by (simp add: ar_pair_tick_defs pair_defs pair_popped_def pair_second_def)

lemma pair_tick_second:
  "k < 10 \<Longrightarrow> tick_ar env_pair (pair_second k) = Next (pair_second (Suc k))"
  by (simp add: ar_pair_tick_defs pair_defs pair_second_def)

lemma pair_tick_done: "tick_ar env_pair (pair_second 10) = Next pair_done"
  by (simp add: ar_pair_tick_defs pair_defs pair_second_def pair_done_def)

lemma reach_pair_queued: "reach_ar env_pair pair_queued"
  by (rule reach_ar_tick[OF reach_ar_tick[OF reach_ar_init pair_tick_1] pair_tick_2])

lemma ticks_ar_add:
  "ticks_ar e (m + n) s = (case ticks_ar e m s of None \<Rightarrow> None | Some t \<Rightarrow> ticks_ar e n t)"
  by (induction m arbitrary: s) (simp_all split: step.splits)

lemma ticks_pair_first: "k + m \<le> 10 \<Longrightarrow> ticks_ar env_pair m (pair_first k) = Some (pair_first (k + m))"
  by (induction m arbitrary: k) (simp_all add: pair_tick_first)

lemma ticks_pair_second:
  "k + m \<le> 10 \<Longrightarrow> ticks_ar env_pair m (pair_second k) = Some (pair_second (k + m))"
  by (induction m arbitrary: k) (simp_all add: pair_tick_second)

lemma ticks_pair_popped: "ticks_ar env_pair 13 pair_queued = Some pair_popped"
proof -
  have a: "ticks_ar env_pair 2 pair_queued = Some (pair_first 0)"
    by (simp add: numeral_2_eq_2 pair_tick_3 pair_tick_4)
  have b: "ticks_ar env_pair 10 (pair_first 0) = Some (pair_first 10)"
    using ticks_pair_first[of 0 10] by simp
  have c: "ticks_ar env_pair 1 (pair_first 10) = Some pair_popped"
    by (simp add: pair_tick_pop)
  have "ticks_ar env_pair (2 + (10 + 1)) pair_queued = Some pair_popped"
    unfolding ticks_ar_add using a b c by simp
  then show ?thesis by simp
qed

lemma ticks_pair_done: "ticks_ar env_pair 25 pair_queued = Some pair_done"
proof -
  have a: "ticks_ar env_pair 1 pair_popped = Some (pair_second 0)"
    by (simp add: pair_tick_start)
  have b: "ticks_ar env_pair 10 (pair_second 0) = Some (pair_second 10)"
    using ticks_pair_second[of 0 10] by simp
  have c: "ticks_ar env_pair 1 (pair_second 10) = Some pair_done"
    by (simp add: pair_tick_done)
  have "ticks_ar env_pair (13 + (1 + (10 + 1))) pair_queued = Some pair_done"
    unfolding ticks_ar_add using ticks_pair_popped a b c by simp
  then show ?thesis by simp
qed

section \<open>The order of service in ar-sim.c\<close>

lemma queued_before_set: "queued_before a b q \<Longrightarrow> a \<in> set q \<and> b \<in> set q"
  by (induction q) (auto split: if_splits)

lemma queued_before_append: "queued_before a b q \<Longrightarrow> queued_before a b (q @ q')"
  by (induction q) (auto split: if_splits)

lemma queued_before_tl: "queued_before a b q \<Longrightarrow> hd q \<noteq> a \<Longrightarrow> queued_before a b (tl q)"
  by (cases q) (auto split: if_splits)

lemma queued_before_hd: "queued_before a b q \<Longrightarrow> hd q = a \<Longrightarrow> b \<in> set (tl q)"
  by (cases q) auto

lemma ahead_in_queue: "ahead rs a b \<Longrightarrow> in_queue rs b"
  unfolding ahead_def in_queue_def using queued_before_set by blast

lemma in_queue_not_completed:
  assumes "pool_ar rs js" and "in_queue rs b"
  shows "\<not> completed js b"
proof -
  from assms have "queued js b" unfolding pool_ar_def in_queue_def by blast
  then show ?thesis
    by (auto simp: queued_def completed_def queued_state_def split: option.splits)
qed

text \<open>Resources with a reservation stay in the chain during \<open>add_remove\<close>.\<close>

lemma add_res_ar_sub:
  assumes "add_res_ar e s = Inr s'" and "inv_ar s"
  shows "set (first_res s) \<subseteq> set (first_res s')"
proof -
  from assms(2) have "chain_ok r_code (first_res s) (last_res s) (resource_number s)"
    by (simp add: inv_ar_def)
  from add_res_ar_cases[OF assms(1) this] show ?thesis by auto
qed

lemma add_res_times_ar_sub:
  "add_res_times_ar k e s = Inr s' \<Longrightarrow> inv_ar s \<Longrightarrow> time_mid_ar (first_res s) \<Longrightarrow>
   set (first_res s) \<subseteq> set (first_res s')"
proof (induction k arbitrary: s)
  case 0
  then show ?case by simp
next
  case (Suc k)
  from Suc.prems(1) obtain s1 where s1: "add_res_ar e s = Inr s1"
    and r: "add_res_times_ar k e s1 = Inr s'" by (auto split: sum.splits)
  from add_res_ar_inv[OF s1 Suc.prems(2,3)] have i: "inv_ar s1" "time_mid_ar (first_res s1)"
    by blast+
  from add_res_ar_sub[OF s1 Suc.prems(2)] Suc.IH[OF r i] show ?case by blast
qed

lemma add_remove_ar_keeps:
  assumes "add_remove_ar e s = Inr s'" and "inv_ar s" and "time_mid_ar (first_res s)"
    and r: "r \<in> set (first_res s)" and q: "r_rsv r \<noteq> []"
  shows "r \<in> set (first_res s')"
proof -
  let ?s0 = "s\<lparr>begin_flag := False\<rparr>"
  from add_remove_ar_Inr[OF assms(1)] obtain s1 where
    s1: "(if begin_flag s then add_res_times_ar 5 e ?s0 else Inr s) = Inr s1"
    and d: "add_draw_ar e
           ((remove_leaving_resources (remove_done_jobs s1))
              \<lparr>randoms := Suc (randoms (remove_leaving_resources (remove_done_jobs s1)))\<rparr>)
           (1 + int (random_src e (randoms (remove_leaving_resources (remove_done_jobs s1))) mod 1000))
         = Inr s'" by blast
  have "inv_ar ?s0 = inv_ar s" by (rule inv_ar_cong) simp_all
  with assms(2,3) have i0: "inv_ar ?s0" "time_mid_ar (first_res ?s0)" by simp_all
  have i1: "inv_ar s1 \<and> time_mid_ar (first_res s1) \<and> r \<in> set (first_res s1)"
  proof (cases "begin_flag s")
    case True
    with s1 have a: "add_res_times_ar 5 e ?s0 = Inr s1" by (simp only: if_True)
    from add_res_times_ar_inv[OF a i0] add_res_times_ar_sub[OF a i0] r show ?thesis by auto
  next
    case False
    with s1 have "s1 = s" by (simp only: if_False sum.inject)
    with assms(2,3) r show ?thesis by simp
  qed
  define s2 where "s2 = remove_leaving_resources (remove_done_jobs s1)"
  define s3 where "s3 = s2\<lparr>randoms := Suc (randoms s2)\<rparr>"
  from remove_inv_ar i1 have i2: "inv_ar s2" "time_mid_ar (first_res s2)"
    unfolding s2_def by blast+
  have "inv_ar s3 = inv_ar s2" by (rule inv_ar_cong) (simp_all add: s3_def)
  with i2 have i3: "inv_ar s3" "time_mid_ar (first_res s3)" by (simp_all add: s3_def)
  from i1 have "pool_ar (first_res s1) (first_job s1)" by (simp add: inv_ar_def)
  with i1 q have "r_state r \<noteq> LEAVING" unfolding pool_ar_def by blast
  with i1 have r3: "r \<in> set (first_res s3)"
    by (simp add: s3_def s2_def remove_leaving_resources_def remove_done_jobs_def)
  from d have "add_draw_ar e s3 (1 + int (random_src e (randoms s2) mod 1000)) = Inr s'"
    unfolding s2_def s3_def .
  from add_draw_ar_cases[OF this]
  consider "add_res_ar e s3 = Inr s'" | "add_job e s3 = Inr s'" | "s' = s3" by blast
  then show ?thesis
  proof cases
    case 1
    from add_res_ar_sub[OF 1 i3(1)] r3 show ?thesis by blast
  next
    case 2
    from add_job_cases[OF 2] r3 show ?thesis by simp
  next
    case 3
    with r3 show ?thesis by simp
  qed
qed

text \<open>The queues during \<open>run_send\<close> and \<open>schedule\<close>\<close>

lemma ar_step_pop: "ar_step js js' r r' \<Longrightarrow> pop_step js' r r'"
  by (auto simp: ar_step_def pop_step_def)

lemma pop_step_ahead:
  assumes "list_all2 (pop_step js') rs rs'" and "ahead rs a b"
  shows "ahead rs' a b \<or> completed js' a \<and> in_queue rs' b"
proof -
  from assms(2) obtain r where r: "r \<in> set rs" "queued_before a b (r_rsv r)"
    by (auto simp: ahead_def)
  then obtain k where k: "k < length rs" "rs ! k = r" by (auto simp: in_set_conv_nth)
  from assms(1) k have k': "k < length rs'" and p: "pop_step js' r (rs' ! k)"
    by (auto simp: list_all2_conv_all_nth)
  from k' have m: "rs' ! k \<in> set rs'" by simp
  from p consider "r_rsv (rs' ! k) = r_rsv r"
    | "r_rsv r \<noteq> []" "r_rsv (rs' ! k) = tl (r_rsv r)" "completed js' (hd (r_rsv r))"
    by (auto simp: pop_step_def)
  then show ?thesis
  proof cases
    case 1
    with r have "queued_before a b (r_rsv (rs' ! k))" by simp
    with m show ?thesis unfolding ahead_def by blast
  next
    case 2
    show ?thesis
    proof (cases "hd (r_rsv r) = a")
      case True
      from queued_before_hd[OF r(2) True] 2 have "b \<in> set (r_rsv (rs' ! k))" by simp
      with m have "in_queue rs' b" unfolding in_queue_def by blast
      with 2 True show ?thesis by simp
    next
      case False
      from queued_before_tl[OF r(2) False] 2 have "queued_before a b (r_rsv (rs' ! k))"
        by simp
      with m show ?thesis unfolding ahead_def by blast
    qed
  qed
qed

lemma schedule_ar_queues:
  assumes "r \<in> set (first_res s)"
  shows "\<exists>r'\<in>set (first_res (schedule_ar e s)). \<exists>q. r_rsv r' = r_rsv r @ q"
proof -
  let ?rs' = "first_res (schedule_ar e s)"
  from assms obtain k where k: "k < length (first_res s)" "first_res s ! k = r"
    by (auto simp: in_set_conv_nth)
  from schedule_ar_cases[of e s] show ?thesis
  proof (elim disjE exE conjE)
    assume "?rs' = first_res s"
    with assms have "r \<in> set ?rs'" "r_rsv r = r_rsv r @ []" by simp_all
    then show ?thesis by blast
  next
    fix ji bi
    assume u: "?rs' = (first_res s)
        [bi := (first_res s ! bi)
           \<lparr>r_state := HAS_JOBS,
            r_total_workload := r_total_workload (first_res s ! bi)
                                + j_workload (first_job s ! ji),
            r_rsv := r_rsv (first_res s ! bi) @ [j_code (first_job s ! ji)]\<rparr>]"
    have "k < length ?rs'" by (simp add: u k)
    then have "?rs' ! k \<in> set ?rs'" by simp
    moreover have "\<exists>q. r_rsv (?rs' ! k) = r_rsv r @ q"
      using k by (cases "k = bi") (simp_all add: u)
    ultimately show ?thesis by blast
  qed
qed

lemma schedule_ar_ahead:
  assumes "ahead (first_res s) a b"
  shows "ahead (first_res (schedule_ar e s)) a b"
proof -
  from assms obtain r where r: "r \<in> set (first_res s)" "queued_before a b (r_rsv r)"
    by (auto simp: ahead_def)
  from schedule_ar_queues[OF r(1), of e] obtain r' q where
    "r' \<in> set (first_res (schedule_ar e s))" "r_rsv r' = r_rsv r @ q" by blast
  with queued_before_append[OF r(2), of q]
  have "r' \<in> set (first_res (schedule_ar e s))" "queued_before a b (r_rsv r')" by simp_all
  then show ?thesis unfolding ahead_def by blast
qed

lemma schedule_ar_in_queue:
  assumes "in_queue (first_res s) b"
  shows "in_queue (first_res (schedule_ar e s)) b"
proof -
  from assms obtain r where r: "r \<in> set (first_res s)" "b \<in> set (r_rsv r)"
    by (auto simp: in_queue_def)
  from schedule_ar_queues[OF r(1), of e] obtain r' q where
    "r' \<in> set (first_res (schedule_ar e s))" "r_rsv r' = r_rsv r @ q" by blast
  with r(2) have "r' \<in> set (first_res (schedule_ar e s))" "b \<in> set (r_rsv r')" by simp_all
  then show ?thesis unfolding in_queue_def by blast
qed

lemma schedule_ar_completed:
  assumes "distinct (map j_code (first_job s))" and "completed (first_job s) a"
  shows "completed (first_job (schedule_ar e s)) a"
proof -
  let ?js = "first_job s"
  from schedule_ar_cases[of e s] show ?thesis
  proof (elim disjE exE conjE)
    assume "first_job (schedule_ar e s) = ?js"
    with assms(2) show ?thesis by simp
  next
    fix ji bi
    assume w: "first_at (\<lambda>j. j_state j = WAITING) ?js ji"
      and u: "first_job (schedule_ar e s) = ?js[ji := (?js ! ji)\<lparr>j_state := WAITING_TO_SEND_DATA\<rparr>]"
    from w have ji: "ji < length ?js" and st: "j_state (?js ! ji) = WAITING"
      by (simp_all add: first_at_def)
    have f: "first_at (\<lambda>x. j_code x = j_code (?js ! ji)) ?js ji"
      unfolding first_at_def
    proof (intro conjI allI impI)
      show "ji < length ?js" by (rule ji)
      show "j_code (?js ! ji) = j_code (?js ! ji)" ..
      fix k assume k: "k < ji"
      from assms(1) have "\<forall>i<length ?js. \<forall>j<length ?js. i \<noteq> j \<longrightarrow>
          j_code (?js ! i) \<noteq> j_code (?js ! j)" by (simp add: distinct_conv_nth)
      with k ji show "j_code (?js ! k) \<noteq> j_code (?js ! ji)" by simp
    qed
    from f have "first_index (\<lambda>x. j_code x = j_code (?js ! ji)) ?js = Some ji"
      by (simp add: first_index_Some)
    from find_first_index[OF this] have o: "job_of ?js (j_code (?js ! ji)) = Some (?js ! ji)"
      by (simp add: job_of_def)
    have ne: "a \<noteq> j_code (?js ! ji)"
    proof
      assume "a = j_code (?js ! ji)"
      with o assms(2) st show False by (simp add: completed_def)
    qed
    from job_of_update[OF f, of "(?js ! ji)\<lparr>j_state := WAITING_TO_SEND_DATA\<rparr>" a] ne
    have "job_of (first_job (schedule_ar e s)) a = job_of ?js a" by (simp add: u)
    with assms(2) show ?thesis by (simp add: completed_def)
  qed
qed

text \<open>One turn of the loop, and any number of turns\<close>

lemma tick_ar_ahead:
  assumes t: "tick_ar e s = Next s'" and i: "inv_ar s" "time_ok (first_res s)"
    and a: "ahead (first_res s) a b"
  shows "ahead (first_res s') a b \<or> completed (first_job s') a \<and> in_queue (first_res s') b"
proof -
  from tick_ar_Next[OF t] obtain s1 s2 s3 where
    st: "traceall_ar s = Next s1" "add_remove_ar e s1 = Inr s2"
        "run_send_ar e s2 = Inr s3" "s' = schedule_ar e s3" by blast
  from traceall_ar_inv[OF st(1) i] have i1: "inv_ar s1" "time_mid_ar (first_res s1)" by blast+
  from add_remove_ar_inv[OF st(2) i1] have i2: "inv_ar s2" "time_mid_ar (first_res s2)"
    by blast+
  from run_send_ar_inv[OF i2, of e] st(3) have i3: "inv_ar s3"
    and stp: "list_all2 (ar_step (first_job s2) (first_job s3)) (first_res s2) (first_res s3)"
    by auto
  from a obtain r where r: "r \<in> set (first_res s)" "queued_before a b (r_rsv r)"
    by (auto simp: ahead_def)
  have f1: "first_res s1 = map trace_res (first_res s)"
    using st(1) by (simp add: traceall_ar_fields(2))
  from r have r1: "trace_res r \<in> set (first_res s1)" "queued_before a b (r_rsv (trace_res r))"
    by (simp_all add: f1)
  from r1(2) have "r_rsv (trace_res r) \<noteq> []" by auto
  from add_remove_ar_keeps[OF st(2) i1 r1(1) this]
  have "trace_res r \<in> set (first_res s2)" .
  with r1(2) have a2: "ahead (first_res s2) a b" unfolding ahead_def by blast
  from stp have "list_all2 (pop_step (first_job s3)) (first_res s2) (first_res s3)"
    by (rule list_all2_mono) (rule ar_step_pop)
  from pop_step_ahead[OF this a2]
  have "ahead (first_res s3) a b \<or> completed (first_job s3) a \<and> in_queue (first_res s3) b" .
  moreover from i3 have "distinct (map j_code (first_job s3))"
    unfolding inv_ar_def by (blast intro: chain_ok_distinct)
  ultimately show ?thesis
    unfolding st(4)
    using schedule_ar_ahead[of s3 a b e] schedule_ar_in_queue[of s3 b e]
      schedule_ar_completed[of s3 a e] by blast
qed

lemma ticks_ar_fifo:
  assumes "ticks_ar e n s = Some s'" and "inv_ar s" and "time_ok (first_res s)"
    and "ahead (first_res s) a b" and "completed (first_job s') b"
  shows "\<exists>k s1. 0 < k \<and> k < n \<and> ticks_ar e k s = Some s1 \<and>
           completed (first_job s1) a \<and> in_queue (first_res s1) b"
  using assms
proof (induction n arbitrary: s)
  case 0
  then have "s' = s" by simp
  with 0 have "pool_ar (first_res s') (first_job s')" "in_queue (first_res s') b"
    by (simp_all add: inv_ar_def ahead_in_queue)
  from in_queue_not_completed[OF this] 0 show ?case by simp
next
  case (Suc n)
  from Suc.prems(1) obtain t where t: "tick_ar e s = Next t" and r: "ticks_ar e n t = Some s'"
    by (auto split: step.splits)
  from tick_ar_inv[OF t Suc.prems(2,3)] have i: "inv_ar t" "time_ok (first_res t)" by blast+
  from tick_ar_ahead[OF t Suc.prems(2,3,4)]
  consider "ahead (first_res t) a b"
    | "completed (first_job t) a" "in_queue (first_res t) b" by blast
  then show ?case
  proof cases
    case 1
    from Suc.IH[OF r i 1 Suc.prems(5)] obtain k s1 where
      k: "0 < k" "k < n" "ticks_ar e k t = Some s1" "completed (first_job s1) a"
         "in_queue (first_res s1) b" by blast
    from k(3) t have "ticks_ar e (Suc k) s = Some s1" by simp
    with k show ?thesis by (intro exI[of _ "Suc k"] exI[of _ s1]) simp
  next
    case 2
    have "n \<noteq> 0"
    proof
      assume "n = 0"
      with r have "s' = t" by simp
      with i 2(2) have "pool_ar (first_res s') (first_job s')" "in_queue (first_res s') b"
        by (simp_all add: inv_ar_def)
      from in_queue_not_completed[OF this] Suc.prems(5) show False by simp
    qed
    moreover from t have "ticks_ar e (Suc 0) s = Some t" by simp
    ultimately show ?thesis using 2 by (intro exI[of _ "Suc 0"] exI[of _ t]) simp
  qed
qed

text \<open>Only the job of a first reservation is set \<open>RUNNING\<close> or \<open>DONE\<close>\<close>

lemma head_step_refl: "head_step H j j"
  by (simp add: head_step_def)

lemma head_step_trans: "head_step H j j1 \<Longrightarrow> head_step G j1 j2 \<Longrightarrow> head_step (H \<union> G) j j2"
  unfolding head_step_def by auto

lemma list_all2_comp:
  assumes "list_all2 R xs ys" and "list_all2 S ys zs"
    and "\<And>x y z. R x y \<Longrightarrow> S y z \<Longrightarrow> T x z"
  shows "list_all2 T xs zs"
  using assms by (auto simp: list_all2_conv_all_nth)

lemma head_step_update:
  assumes "k < length js" and "head_step H (js ! k) y"
  shows "list_all2 (head_step H) js (js[k := y])"
  using assms by (rule list_all2_update_refl) (rule head_step_refl)

lemma head_step_all_refl: "list_all2 (head_step H) js js"
  by (simp add: list_all2_conv_all_nth head_step_refl)

lemma send_data_loop_states:
  "send_data_loop q js = Inr js' \<Longrightarrow> list_all2 (head_step {}) js js'"
proof (induction q arbitrary: js)
  case Nil
  then show ?case by (simp add: head_step_all_refl)
next
  case (Cons h hs)
  from Cons.prems obtain k where k: "deref j_code (Some h) js = Inr k"
    by (auto split: sum.splits)
  from deref_Inr[OF k] have kl: "k < length js" by simp
  consider (send) "j_state (js ! k) = SENDING_DATA"
    | (wait) "j_state (js ! k) = WAITING_TO_SEND_DATA"
    | (other) "j_state (js ! k) \<noteq> SENDING_DATA" "j_state (js ! k) \<noteq> WAITING_TO_SEND_DATA"
    by blast
  then show ?case
  proof cases
    case send
    let ?j1 = "(js ! k)\<lparr>j_send_data := j_send_data (js ! k) - 1\<rparr>"
    show ?thesis
    proof (cases "j_send_data (js ! k) - 1 \<le> 0")
      case False
      with Cons.prems k send have "js' = js[k := ?j1]" by (simp add: Let_def)
      moreover have "head_step {} (js ! k) ?j1" by (simp add: head_step_def)
      ultimately show ?thesis using head_step_update[OF kl] by simp
    next
      case True
      let ?js1 = "js[k := ?j1\<lparr>j_state := READY_TO_RUN\<rparr>]"
      have a: "list_all2 (head_step {}) js ?js1"
        by (rule head_step_update[OF kl]) (simp add: head_step_def)
      show ?thesis
      proof (cases hs)
        case Nil
        with Cons.prems k send True have "js' = ?js1" by (simp add: Let_def)
        with a show ?thesis by simp
      next
        case (Cons h2 t)
        with Cons.prems k send True obtain k2 where
          k2: "deref j_code (Some h2) ?js1 = Inr k2"
          and js': "js' = ?js1[k2 := (?js1 ! k2)\<lparr>j_state := SENDING_DATA\<rparr>]"
          by (auto simp: Let_def split: sum.splits)
        from deref_Inr[OF k2] have "k2 < length ?js1" by simp
        then have "list_all2 (head_step {}) ?js1 js'"
          unfolding js' by (rule head_step_update) (simp add: head_step_def)
        from list_all2_comp[OF a this, of "head_step {}"] head_step_trans[of "{}" _ _ "{}"]
        show ?thesis by simp
      qed
    qed
  next
    case wait
    with Cons.prems k have "js' = js[k := (js ! k)\<lparr>j_state := SENDING_DATA\<rparr>]" by simp
    moreover have "head_step {} (js ! k) ((js ! k)\<lparr>j_state := SENDING_DATA\<rparr>)"
      by (simp add: head_step_def)
    ultimately show ?thesis using head_step_update[OF kl] by simp
  next
    case other
    with Cons.prems k have "send_data_loop hs js = Inr js'" by simp
    then show ?thesis by (rule Cons.IH)
  qed
qed

lemma run_job_ar_states:
  assumes "run_job_ar e h r js n = Inr (r', js', n')"
  shows "list_all2 (head_step {h}) js js'"
proof -
  from assms obtain k where k: "deref j_code (Some h) js = Inr k"
    by (auto simp: run_job_ar_def split: sum.splits)
  from deref_Inr[OF k] have kl: "k < length js" and c: "j_code (js ! k) = h" by simp_all
  from assms k have "js' = js \<or> (\<exists>y. js' = js[k := y] \<and> j_code y = j_code (js ! k))"
    by (auto simp: run_job_ar_def Let_def split: if_splits)
  then show ?thesis
  proof (elim disjE exE conjE)
    assume "js' = js"
    then show ?thesis by (simp add: head_step_all_refl)
  next
    fix y assume y: "js' = js[k := y]" "j_code y = j_code (js ! k)"
    have "head_step {h} (js ! k) y" using y(2) c by (simp add: head_step_def)
    from head_step_update[OF kl this] y(1) show ?thesis by simp
  qed
qed

lemma run_send_res_ar_states:
  assumes "run_send_res_ar e r js n = Inr (r', js', n')"
  shows "list_all2 (head_step (set (take 1 (r_rsv r)))) js js'"
proof (cases "r_rsv r")
  case Nil
  with assms have "js' = js" by (auto simp: run_send_res_ar_def split: if_splits)
  then show ?thesis by (simp add: head_step_all_refl)
next
  case (Cons h t)
  with assms obtain r1 js1 n1 where a: "run_job_ar e h r js n = Inr (r1, js1, n1)"
    and b: "send_data_loop (r_rsv r1) js1 = Inr js'"
    by (auto simp: run_send_res_ar_def split: sum.splits)
  from list_all2_comp[OF run_job_ar_states[OF a] send_data_loop_states[OF b],
      of "head_step {h}"] head_step_trans[of "{h}" _ _ "{}"]
  have "list_all2 (head_step {h}) js js'" by simp
  with Cons show ?thesis by simp
qed

lemma heads_Cons: "heads (r # rs) = set (take 1 (r_rsv r)) \<union> heads rs"
  by (simp add: heads_def)

lemma run_send_loop_ar_states:
  "run_send_loop_ar e rs js n = Inr (rs', js', n') \<Longrightarrow> list_all2 (head_step (heads rs)) js js'"
proof (induction rs arbitrary: js n rs')
  case Nil
  then show ?case by (simp add: head_step_all_refl)
next
  case (Cons r rs)
  from Cons.prems obtain r1 js1 n1 rs1 where
    a: "run_send_res_ar e r js n = Inr (r1, js1, n1)"
    and b: "run_send_loop_ar e rs js1 n1 = Inr (rs1, js', n')"
    by (auto split: sum.splits)
  from list_all2_comp[OF run_send_res_ar_states[OF a] Cons.IH[OF b],
      of "head_step (heads (r # rs))"] head_step_trans[of "set (take 1 (r_rsv r))" _ _ "heads rs"]
  show ?case by (simp add: heads_Cons)
qed

lemma run_send_ar_states:
  assumes "run_send_ar e s = Inr s'"
  shows "list_all2 (head_step (heads (first_res s))) (first_job s) (first_job s')"
proof -
  from assms obtain rs' js' n' where
    a: "run_send_loop_ar e (first_res s) (first_job s) (randoms s) = Inr (rs', js', n')"
    and "s' = s\<lparr>first_job := js', first_res := rs', randoms := n'\<rparr>"
    by (auto simp: run_send_ar_def split: sum.splits)
  with run_send_loop_ar_states[OF a] show ?thesis by simp
qed

lemma reach_ar_ticks: "ticks_ar e n s = Some s' \<Longrightarrow> reach_ar e s \<Longrightarrow> reach_ar e s'"
proof (induction n arbitrary: s)
  case 0
  then show ?case by simp
next
  case (Suc n)
  from Suc.prems(1) obtain t where t: "tick_ar e s = Next t" and r: "ticks_ar e n t = Some s'"
    by (auto split: step.splits)
  from Suc.IH[OF r reach_ar_tick[OF Suc.prems(2) t]] show ?case .
qed

section \<open>The load of the queues of ar-sim.c\<close>

text \<open>The load of a queue over one turn of the loop\<close>

lemma load_gap_trace [simp]: "load_gap (map trace_job_ar js) (trace_res r) = load_gap js r"
  by (simp add: load_gap_def queue_workload_def)

lemma add_res_ar_new:
  assumes "add_res_ar e s = Inr s'" and "inv_ar s"
  shows "first_job s' = first_job s \<and> resource_number s \<le> resource_number s' \<and>
         (\<forall>r'\<in>set (first_res s'). r' \<in> set (first_res s) \<or>
            r_rsv r' = [] \<and> r_total_workload r' = 0 \<and> r_total_time r' = 0 \<and>
            resource_number s < r_code r')"
proof -
  from assms(2) have "chain_ok r_code (first_res s) (last_res s) (resource_number s)"
    by (simp add: inv_ar_def)
  from add_res_ar_cases[OF assms(1) this] show ?thesis by auto
qed

lemma add_res_times_ar_new:
  "add_res_times_ar k e s = Inr s' \<Longrightarrow> inv_ar s \<Longrightarrow> time_mid_ar (first_res s) \<Longrightarrow>
   first_job s' = first_job s \<and> resource_number s \<le> resource_number s' \<and>
   (\<forall>r'\<in>set (first_res s'). r' \<in> set (first_res s) \<or>
      r_rsv r' = [] \<and> r_total_workload r' = 0 \<and> r_total_time r' = 0 \<and>
      resource_number s < r_code r')"
proof (induction k arbitrary: s)
  case 0
  then show ?case by simp
next
  case (Suc k)
  from Suc.prems(1) obtain s1 where s1: "add_res_ar e s = Inr s1"
    and r: "add_res_times_ar k e s1 = Inr s'" by (auto split: sum.splits)
  from add_res_ar_inv[OF s1 Suc.prems(2,3)] have i: "inv_ar s1" "time_mid_ar (first_res s1)"
    by blast+
  from add_res_ar_new[OF s1 Suc.prems(2)] Suc.IH[OF r i] show ?case by fastforce
qed

lemma add_remove_ar_new:
  assumes "add_remove_ar e s = Inr s'" and "inv_ar s" and "time_mid_ar (first_res s)"
  shows "(\<forall>r'\<in>set (first_res s'). r' \<in> set (first_res s) \<or>
            r_rsv r' = [] \<and> r_total_workload r' = 0 \<and> r_total_time r' = 0 \<and>
            resource_number s < r_code r') \<and>
         (\<forall>h. queued (first_job s) h \<longrightarrow> job_of (first_job s') h = job_of (first_job s) h)"
proof -
  let ?s0 = "s\<lparr>begin_flag := False\<rparr>"
  let ?new = "\<lambda>r'. r_rsv r' = [] \<and> r_total_workload r' = 0 \<and> r_total_time r' = 0 \<and>
                    resource_number s < r_code r'"
  from add_remove_ar_Inr[OF assms(1)] obtain s1 where
    s1: "(if begin_flag s then add_res_times_ar 5 e ?s0 else Inr s) = Inr s1"
    and d: "add_draw_ar e
           ((remove_leaving_resources (remove_done_jobs s1))
              \<lparr>randoms := Suc (randoms (remove_leaving_resources (remove_done_jobs s1)))\<rparr>)
           (1 + int (random_src e (randoms (remove_leaving_resources (remove_done_jobs s1))) mod 1000))
         = Inr s'" by blast
  have "inv_ar ?s0 = inv_ar s" by (rule inv_ar_cong) simp_all
  with assms(2,3) have i0: "inv_ar ?s0" "time_mid_ar (first_res ?s0)" by simp_all
  have i1: "inv_ar s1 \<and> time_mid_ar (first_res s1) \<and> first_job s1 = first_job s \<and>
            resource_number s \<le> resource_number s1 \<and>
            (\<forall>r'\<in>set (first_res s1). r' \<in> set (first_res s) \<or> ?new r')"
  proof (cases "begin_flag s")
    case True
    with s1 have a: "add_res_times_ar 5 e ?s0 = Inr s1" by (simp only: if_True)
    from add_res_times_ar_inv[OF a i0] add_res_times_ar_new[OF a i0] show ?thesis by simp
  next
    case False
    with s1 have "s1 = s" by (simp only: if_False sum.inject)
    with assms(2,3) show ?thesis by simp
  qed
  define s2 where "s2 = remove_leaving_resources (remove_done_jobs s1)"
  define s3 where "s3 = s2\<lparr>randoms := Suc (randoms s2)\<rparr>"
  from remove_inv_ar i1 have i2: "inv_ar s2" "time_mid_ar (first_res s2)"
    unfolding s2_def by blast+
  have "inv_ar s3 = inv_ar s2" by (rule inv_ar_cong) (simp_all add: s3_def)
  with i2 have i3: "inv_ar s3" "time_mid_ar (first_res s3)" by (simp_all add: s3_def)
  have r3: "\<forall>r'\<in>set (first_res s3). r' \<in> set (first_res s) \<or> ?new r'"
    using i1 by (simp add: s3_def s2_def remove_leaving_resources_def remove_done_jobs_def)
  have n3: "resource_number s \<le> resource_number s3"
    using i1 by (simp add: s3_def s2_def remove_leaving_resources_def remove_done_jobs_def)
  have j3: "first_job s3 = filter (\<lambda>j. j_state j \<noteq> DONE) (first_job s)"
    using i1 by (simp add: s3_def s2_def remove_leaving_resources_def remove_done_jobs_def)
  have k3: "job_of (first_job s3) h = job_of (first_job s) h" if "queued (first_job s) h" for h
  proof -
    from queued_job_of[OF that] obtain j where j: "job_of (first_job s) h = Some j"
      "queued_state (j_state j)" by blast
    then have "j_state j \<noteq> DONE" by (auto simp: queued_state_def)
    with j(1) show ?thesis unfolding j3 job_of_def by (simp add: find_filter_keep)
  qed
  from d have "add_draw_ar e s3 (1 + int (random_src e (randoms s2) mod 1000)) = Inr s'"
    unfolding s2_def s3_def .
  from add_draw_ar_cases[OF this]
  consider "add_res_ar e s3 = Inr s'" | "add_job e s3 = Inr s'" | "s' = s3" by blast
  then show ?thesis
  proof cases
    case 1
    from add_res_ar_new[OF 1 i3(1)] r3 k3 n3 show ?thesis by fastforce
  next
    case 2
    from i3(1) have "chain_ok j_code (first_job s3) (last_job s3) (job_number s3)"
      by (simp add: inv_ar_def)
    from add_job_exact[OF 2 this] have fr: "first_res s' = first_res s3"
      and fj: "first_job s' = first_job s3 \<or> (\<exists>j. first_job s' = first_job s3 @ [j])"
      by auto
    have "job_of (first_job s') h = job_of (first_job s) h" if q: "queued (first_job s) h" for h
    proof -
      from queued_job_of[OF q] obtain j where "job_of (first_job s) h = Some j" by blast
      with k3[OF q] have "job_of (first_job s3) h = Some j" by simp
      with fj have "job_of (first_job s') h = Some j"
        unfolding job_of_def by (auto simp: find_append_keep)
      with \<open>job_of (first_job s) h = Some j\<close> show ?thesis by simp
    qed
    with r3 fr show ?thesis by simp
  next
    case 3
    with r3 k3 show ?thesis by simp
  qed
qed

lemma schedule_ar_gap:
  assumes "inv_ar s"
  shows "list_all2 (\<lambda>r r'. r_code r' = r_code r \<and> r_total_time r' = r_total_time r \<and>
             set (r_rsv r) \<subseteq> set (r_rsv r') \<and>
             load_gap (first_job (schedule_ar e s)) r' = load_gap (first_job s) r)
           (first_res s) (first_res (schedule_ar e s)) \<and>
         (\<forall>h. workload_of (first_job (schedule_ar e s)) h = workload_of (first_job s) h)"
proof -
  from assms have cj: "chain_ok j_code (first_job s) (last_job s) (job_number s)"
    by (simp add: inv_ar_def)
  from schedule_ar_cases[of e s] show ?thesis
  proof
    assume "first_res (schedule_ar e s) = first_res s \<and> first_job (schedule_ar e s) = first_job s"
    then show ?thesis by (simp add: list_all2_conv_all_nth)
  next
    assume "\<exists>ji bi. first_at (\<lambda>j. j_state j = WAITING) (first_job s) ji \<and>
      least_loaded (first_res s) bi \<and>
      first_res (schedule_ar e s) = (first_res s)
        [bi := (first_res s ! bi)
           \<lparr>r_state := HAS_JOBS,
            r_total_workload := r_total_workload (first_res s ! bi)
                                + j_workload (first_job s ! ji),
            r_rsv := r_rsv (first_res s ! bi) @ [j_code (first_job s ! ji)]\<rparr>] \<and>
      first_job (schedule_ar e s) = (first_job s)
        [ji := (first_job s ! ji)\<lparr>j_state := WAITING_TO_SEND_DATA\<rparr>]"
    then obtain ji bi where ji: "ji < length (first_job s)"
      and bi: "bi < length (first_res s)"
      and fr: "first_res (schedule_ar e s) = (first_res s)
        [bi := (first_res s ! bi)
           \<lparr>r_state := HAS_JOBS,
            r_total_workload := r_total_workload (first_res s ! bi)
                                + j_workload (first_job s ! ji),
            r_rsv := r_rsv (first_res s ! bi) @ [j_code (first_job s ! ji)]\<rparr>]"
      and fj: "first_job (schedule_ar e s) = (first_job s)
        [ji := (first_job s ! ji)\<lparr>j_state := WAITING_TO_SEND_DATA\<rparr>]"
      by (auto simp: first_at_def least_loaded_def)
    define rs where "rs = first_res s"
    define js where "js = first_job s"
    define j where "j = js ! ji"
    define cd where "cd = j_code j"
    define j' where "j' = j\<lparr>j_state := WAITING_TO_SEND_DATA\<rparr>"
    define r where "r = rs ! bi"
    define r' where "r' = r\<lparr>r_state := HAS_JOBS,
            r_total_workload := r_total_workload r + j_workload j,
            r_rsv := r_rsv r @ [cd]\<rparr>"
    have fr': "first_res (schedule_ar e s) = rs[bi := r']"
      and fj': "first_job (schedule_ar e s) = js[ji := j']"
      unfolding fr fj by (simp_all add: rs_def js_def j_def cd_def j'_def r_def r'_def)
    have dj: "distinct (map j_code js)" using chain_ok_distinct[OF cj] by (simp add: js_def)
    have fa: "first_at (\<lambda>x. j_code x = cd) js ji"
      using first_index_key[OF dj, of ji] ji
      by (simp add: first_index_Some cd_def j_def js_def)
    have jo: "job_of js cd = Some j"
      using fa find_first_index[of "\<lambda>x. j_code x = cd" js ji]
      by (simp add: first_index_Some job_of_def j_def)
    have cj': "j_code j' = cd" by (simp add: j'_def cd_def)
    note u = job_of_update[OF fa cj']
    have w: "workload_of (js[ji := j']) h = workload_of js h" for h
      using u[of h] jo by (simp add: workload_of_def j'_def)
    then have "workload_of (js[ji := j']) = workload_of js" by (intro ext)
    then have qw: "queue_workload (js[ji := j']) q = queue_workload js q" for q
      by (simp add: queue_workload_def)
    have wc: "workload_of js cd = j_workload j" using jo by (simp add: workload_of_def)
    have g: "load_gap (js[ji := j']) r' = load_gap js r"
      by (simp add: load_gap_def qw r'_def queue_workload_snoc w wc)
    have "list_all2 (\<lambda>x x'. r_code x' = r_code x \<and> r_total_time x' = r_total_time x \<and>
             set (r_rsv x) \<subseteq> set (r_rsv x') \<and>
             load_gap (js[ji := j']) x' = load_gap js x) rs (rs[bi := r'])"
      unfolding list_all2_conv_all_nth
    proof (intro conjI allI impI)
      show "length rs = length (rs[bi := r'])" by simp
    next
      fix k assume k: "k < length rs"
      show "r_code (rs[bi := r'] ! k) = r_code (rs ! k)"
        using k by (cases "k = bi") (simp_all add: r'_def r_def)
      show "r_total_time (rs[bi := r'] ! k) = r_total_time (rs ! k)"
        using k by (cases "k = bi") (simp_all add: r'_def r_def)
      show "set (r_rsv (rs ! k)) \<subseteq> set (r_rsv (rs[bi := r'] ! k))"
        using k by (cases "k = bi") (auto simp: r'_def r_def)
      show "load_gap (js[ji := j']) (rs[bi := r'] ! k) = load_gap js (rs ! k)"
        using k g by (cases "k = bi") (simp_all add: r_def load_gap_def qw)
    qed
    with w show ?thesis unfolding fr' fj' rs_def[symmetric] js_def[symmetric] by simp
  qed
qed

lemma queued_not_completed: "queued js h \<Longrightarrow> \<not> completed js h"
  by (auto simp: queued_def completed_def queued_state_def split: option.splits)

lemma tick_ar_gap:
  assumes t: "tick_ar e s = Next s'" and i: "inv_ar s" "time_ok (first_res s)"
    and r': "r' \<in> set (first_res s')"
  shows "(\<exists>r\<in>set (first_res s). gap_step (first_job s) (first_job s') r r') \<or>
         resource_number s < r_code r' \<and> r_total_time r' = 0 \<and>
         load_gap (first_job s') r' = 0"
proof -
  from tick_ar_Next[OF t] obtain s1 s2 s3 where
    st: "traceall_ar s = Next s1" "add_remove_ar e s1 = Inr s2"
        "run_send_ar e s2 = Inr s3" "s' = schedule_ar e s3" by blast
  from traceall_ar_inv[OF st(1) i] have i1: "inv_ar s1" "time_mid_ar (first_res s1)" by blast+
  from add_remove_ar_inv[OF st(2) i1] have i2: "inv_ar s2" "time_mid_ar (first_res s2)"
    by blast+
  from run_send_ar_inv[OF i2, of e] st(3) have i3: "inv_ar s3"
    and stp: "list_all2 (ar_step (first_job s2) (first_job s3)) (first_res s2) (first_res s3)"
    by auto
  from tick_ar_inv[OF t i] have i': "inv_ar s'" by blast
  note sc = schedule_ar_gap[OF i3, of e, folded st(4)]
  from sc have l3: "length (first_res s') = length (first_res s3)"
    by (auto dest: list_all2_lengthD)
  from stp have l2: "length (first_res s3) = length (first_res s2)"
    by (simp add: list_all2_lengthD)
  from r' obtain k where k: "k < length (first_res s')" "first_res s' ! k = r'"
    by (auto simp: in_set_conv_nth)
  define r3 where "r3 = first_res s3 ! k"
  define r2 where "r2 = first_res s2 ! k"
  from sc k l3 have a: "r_code r' = r_code r3" "r_total_time r' = r_total_time r3"
    "set (r_rsv r3) \<subseteq> set (r_rsv r')"
    "load_gap (first_job s') r' = load_gap (first_job s3) r3"
    by (auto simp: list_all2_conv_all_nth r3_def)
  from stp k l3 l2 have b: "ar_step (first_job s2) (first_job s3) r2 r3"
    by (simp add: list_all2_conv_all_nth r3_def r2_def)
  from k l3 l2 have m2: "r2 \<in> set (first_res s2)" by (simp add: r2_def)
  from b have b1: "r_code r3 = r_code r2" "r_total_time r3 = r_total_time r2"
    and b2: "r_rsv r3 = r_rsv r2 \<and> load_gap (first_job s3) r3 = load_gap (first_job s2) r2 \<or>
      r_rsv r2 \<noteq> [] \<and> completed (first_job s3) (hd (r_rsv r2)) \<and>
      workload_of (first_job s3) (hd (r_rsv r2)) < 0 \<and>
      load_gap (first_job s3) r3 = load_gap (first_job s2) r2
                                   - workload_of (first_job s3) (hd (r_rsv r2))"
    by (auto simp: ar_step_def)
  note an = add_remove_ar_new[OF st(2) i1]
  from an[THEN conjunct1] m2 consider (old) "r2 \<in> set (first_res s1)"
    | (new) "r_rsv r2 = []" "r_total_workload r2 = 0" "r_total_time r2 = 0"
        "resource_number s1 < r_code r2" by auto
  then show ?thesis
  proof cases
    case new
    from new(1) b2 have "load_gap (first_job s3) r3 = load_gap (first_job s2) r2" by simp
    also have "\<dots> = 0" using new by (simp add: load_gap_def queue_workload_def)
    finally have z: "load_gap (first_job s3) r3 = 0" .
    have "resource_number s1 = resource_number s"
      using st(1) by (simp add: traceall_ar_fields(4))
    with z a b1 new(3,4) show ?thesis by simp
  next
    case old
    have f1: "first_res s1 = map trace_res (first_res s)"
      "first_job s1 = map trace_job_ar (first_job s)"
      using st(1) by (simp_all add: traceall_ar_fields)
    from old obtain r where r: "r \<in> set (first_res s)" "r2 = trace_res r"
      by (auto simp: f1)
    from i1 old have "\<forall>h\<in>set (r_rsv r2). queued (first_job s1) h"
      by (simp add: inv_ar_def pool_ar_def)
    with an[THEN conjunct2]
    have "\<forall>h\<in>set (r_rsv r2). job_of (first_job s2) h = job_of (first_job s1) h"
      by auto
    from load_gap_frame[OF this] have g2: "load_gap (first_job s2) r2 = load_gap (first_job s) r"
      by (simp add: f1 r(2))
    have q: "r_rsv r2 = r_rsv r" "r_code r2 = r_code r" by (simp_all add: r(2))
    from i3 have dj: "distinct (map j_code (first_job s3))"
      unfolding inv_ar_def by (blast intro: chain_ok_distinct)
    from b2 show ?thesis
    proof
      assume keep: "r_rsv r3 = r_rsv r2 \<and>
        load_gap (first_job s3) r3 = load_gap (first_job s2) r2"
      have "\<not> head_done (first_job s') r"
      proof
        assume "head_done (first_job s') r"
        then have ne: "r_rsv r \<noteq> []" and c: "completed (first_job s') (hd (r_rsv r))"
          by (simp_all add: head_done_def)
        from ne keep q a(3) have "hd (r_rsv r) \<in> set (r_rsv r')" by auto
        with i' r' have "queued (first_job s') (hd (r_rsv r))"
          by (simp add: inv_ar_def pool_ar_def)
        from queued_not_completed[OF this] c show False by simp
      qed
      with keep a b1 g2 q have "gap_step (first_job s) (first_job s') r r'"
        by (simp add: gap_step_def)
      with r(1) show ?thesis by blast
    next
      assume p: "r_rsv r2 \<noteq> [] \<and> completed (first_job s3) (hd (r_rsv r2)) \<and>
        workload_of (first_job s3) (hd (r_rsv r2)) < 0 \<and>
        load_gap (first_job s3) r3 = load_gap (first_job s2) r2
                                     - workload_of (first_job s3) (hd (r_rsv r2))"
      from p schedule_ar_completed[OF dj, of "hd (r_rsv r2)" e]
      have c: "completed (first_job s') (hd (r_rsv r))" by (simp add: st(4) q)
      from sc[THEN conjunct2] have w: "workload_of (first_job s') (hd (r_rsv r))
          = workload_of (first_job s3) (hd (r_rsv r))" by simp
      from p q c have "head_done (first_job s') r" by (simp add: head_done_def)
      with p a b1 g2 q w have "gap_step (first_job s) (first_job s') r r'"
        by (simp add: gap_step_def)
      with r(1) show ?thesis by blast
    qed
  qed
qed

text \<open>The execution with a workload of 52\<close>

lemma rest_tick_1: "tick_ar env_rest init = Next (rest_start WAITING_TO_SEND_DATA 0 0 0)"
  by (simp add: ar_pair_tick_defs env_rest_def add_res_times_ar_5 init_def rest_start_def)

lemma rest_tick_2:
  "tick_ar env_rest (rest_start WAITING_TO_SEND_DATA 0 0 0) = Next (rest_start SENDING_DATA 0 1 1)"
  by (simp add: ar_pair_tick_defs env_rest_def rest_start_def)

lemma rest_tick_3:
  "tick_ar env_rest (rest_start SENDING_DATA 0 1 1) = Next (rest_start READY_TO_RUN (- 1) 1 2)"
  by (simp add: ar_pair_tick_defs env_rest_def rest_start_def)

lemma rest_tick_4:
  "tick_ar env_rest (rest_start READY_TO_RUN (- 1) 1 2) = Next (rest_run 0)"
  by (simp add: ar_pair_tick_defs env_rest_def rest_start_def rest_run_def)

lemma rest_tick_run: "k < 10 \<Longrightarrow> tick_ar env_rest (rest_run k) = Next (rest_run (Suc k))"
  by (simp add: ar_pair_tick_defs env_rest_def rest_run_def)

lemma rest_tick_done: "tick_ar env_rest (rest_run 10) = Next rest_done"
  by (simp add: ar_pair_tick_defs env_rest_def rest_run_def rest_done_def)

lemma reach_rest_run: "k \<le> 10 \<Longrightarrow> reach_ar env_rest (rest_run k)"
proof (induction k)
  case 0
  have "reach_ar env_rest (rest_start WAITING_TO_SEND_DATA 0 0 0)"
    by (rule reach_ar_tick[OF reach_ar_init rest_tick_1])
  then have "reach_ar env_rest (rest_start SENDING_DATA 0 1 1)"
    by (rule reach_ar_tick[OF _ rest_tick_2])
  then have "reach_ar env_rest (rest_start READY_TO_RUN (- 1) 1 2)"
    by (rule reach_ar_tick[OF _ rest_tick_3])
  then show ?case by (rule reach_ar_tick[OF _ rest_tick_4])
next
  case (Suc k)
  then have "reach_ar env_rest (rest_run k)" and "k < 10" by simp_all
  then show ?case by (rule reach_ar_tick[OF _ rest_tick_run])
qed

lemma reach_rest_done: "reach_ar env_rest rest_done"
  by (rule reach_ar_tick[OF reach_rest_run rest_tick_done]) simp

text \<open>What \<open>schedule\<close> of \<open>ar-sim.c\<close> does when a job is \<open>WAITING\<close>\<close>

lemma schedule_ar_bind:
  assumes "first_at (\<lambda>j. j_state j = WAITING) (first_job s) ji"
  shows "if malloc_src e (mallocs s) \<and> (\<exists>r\<in>set (first_res s). r_state r \<noteq> NO_ACCEPT_JOBS)
         then \<exists>bi. least_loaded (first_res s) bi \<and>
                first_res (schedule_ar e s) = (first_res s)
                  [bi := (first_res s ! bi)
                     \<lparr>r_state := HAS_JOBS,
                      r_total_workload := r_total_workload (first_res s ! bi)
                                          + j_workload (first_job s ! ji),
                      r_rsv := r_rsv (first_res s ! bi) @ [j_code (first_job s ! ji)]\<rparr>] \<and>
                first_job (schedule_ar e s) = (first_job s)
                  [ji := (first_job s ! ji)\<lparr>j_state := WAITING_TO_SEND_DATA\<rparr>]
         else first_res (schedule_ar e s) = first_res s \<and>
              first_job (schedule_ar e s) = first_job s"
proof -
  have ji: "first_index (\<lambda>j. j_state j = WAITING) (first_job s) = Some ji"
    using assms(1) by (simp add: first_index_Some)
  show ?thesis
  proof (cases "malloc_src e (mallocs s)")
    case False
    with ji show ?thesis by (simp add: schedule_ar_def)
  next
    case True
    show ?thesis
    proof (cases "first_index (\<lambda>r. r_state r \<noteq> NO_ACCEPT_JOBS) (first_res s)")
      case None
      then have "\<not> (\<exists>r\<in>set (first_res s). r_state r \<noteq> NO_ACCEPT_JOBS)"
        by (simp add: first_index_None)
      then show ?thesis using None ji True by (simp add: schedule_ar_def)
    next
      case (Some ri)
      then have fa: "first_at (\<lambda>r. r_state r \<noteq> NO_ACCEPT_JOBS) (first_res s) ri"
        by (simp add: first_index_Some)
      then have ex: "\<exists>r\<in>set (first_res s). r_state r \<noteq> NO_ACCEPT_JOBS"
        unfolding first_at_def by (metis nth_mem)
      let ?bi = "select_best_res (first_res s) ri ri (drop ri (first_res s))"
      have "least_loaded (first_res s) ?bi" by (rule select_best_res_first[OF fa])
      then show ?thesis using ex Some ji True
        by (auto simp: schedule_ar_def Let_def intro!: exI[of _ ?bi])
    qed
  qed
qed

lemma first_at_unique: "first_at P xs i \<Longrightarrow> first_at P xs k \<Longrightarrow> i = k"
  unfolding first_at_def by (meson linorder_neqE_nat)

section \<open>The mixed scheduler does not pick the best score\<close>

text \<open>
  Claim C1. The mixed scheduler is claimed to bind the free resource to the waiting job of
  maximal score, the earliest one among equals. \<open>schedule\<close> compares every waiting job with
  \<open>best_score\<close>, which holds the score of the first waiting job and is never assigned again,
  so the job chosen is the last one that beats the first. With waiting jobs of scores 102, 301
  and 200 (in pool order) the third job is bound (it becomes \<open>SENDING_DATA\<close> and points at
  resource 1), though the second has the greatest score.
\<close>

theorem schedule_mixed_binds_last_improver:
  "map score (first_job c1_state) = [102, 301, 200] \<and>
   map j_state (first_job c1_state) = [WAITING, WAITING, WAITING] \<and>
   map j_state (first_job (schedule_mixed c1_state)) = [WAITING, WAITING, SENDING_DATA] \<and>
   map j_run_on (first_job (schedule_mixed c1_state)) = [None, None, Some 1]"
  by (simp add: c1_state_def init_def schedule_mixed_def score_def)

section \<open>The draw of \<open>add_remove\<close>\<close>

lemma add_remove_mixed_adds_job:
  "adds_job (c2_state [c2_res_mixed]) (add_remove_mixed (env_draw v) (c2_state [c2_res_mixed]))
     \<longleftrightarrow> 800 \<le> v mod 1000"
  by (simp add: adds_job_def add_remove_mixed_def add_draw_mixed_def add_job_def
      add_res_mixed_def env_draw_def c2_state_def init_def append_node_def Let_def
      remove_done_jobs_def remove_leaving_resources_def c2_job_def c2_res_mixed_def)

lemma add_remove_ar_adds_job:
  "adds_job (c2_state [c2_res_ar]) (add_remove_ar (env_draw v) (c2_state [c2_res_ar]))
     \<longleftrightarrow> 50 \<le> v mod 1000"
  by (simp add: adds_job_def add_remove_ar_def add_draw_ar_def add_job_def
      add_res_ar_def env_draw_def c2_state_def init_def append_node_def Let_def
      remove_done_jobs_def remove_leaving_resources_def c2_job_def c2_res_ar_def)

lemma draws_from: "{v \<in> {0..<1000}. k \<le> v mod 1000} = {k..<1000::nat}"
  by auto

text \<open>
  Claim C2. A job is claimed to be created for exactly \<open>ADD_JOB_PROB\<close> of the 1000 values of
  the draw. \<open>add_remove\<close> creates a job when \<open>i > ADD_JOB_PROB\<close> (and \<open>i > ADD_RESOURCE_PROB\<close>):
  of the 1000 values of \<open>random() % 1000\<close>, 200 create a job in \<open>mixed-sim.c\<close>, where
  \<open>ADD_JOB_PROB\<close> is 800, and 950 in \<open>ar-sim.c\<close>, where it is 50.
\<close>

theorem add_remove_job_draws:
  "card {v \<in> {0..<1000}.
      adds_job (c2_state [c2_res_mixed])
        (add_remove_mixed (env_draw v) (c2_state [c2_res_mixed]))} = 200 \<and>
   card {v \<in> {0..<1000}.
      adds_job (c2_state [c2_res_ar])
        (add_remove_ar (env_draw v) (c2_state [c2_res_ar]))} = 950"
  unfolding add_remove_mixed_adds_job add_remove_ar_adds_job draws_from by simp

section \<open>Completion of a running job\<close>

text \<open>
  Claim C3. A running job is claimed to become \<open>DONE\<close> in the executor pass in which its
  workload becomes non-positive. \<open>run_send\<close> of \<open>ar-sim.c\<close> tests \<open>workload < 0\<close>: on a resource
  of level 5 a running job with 5 units left ends the pass with workload 0, still \<open>RUNNING\<close>,
  and its reservation still at the head of the queue.
\<close>

theorem run_send_ar_keeps_job_at_zero:
  "run_send_res_ar e c3_res [c3_job] n =
     Inr (c3_res\<lparr>r_total_workload := 0, r_used_time := 10\<rparr>, [c3_job\<lparr>j_workload := 0\<rparr>], n) \<and>
   j_state c3_job = RUNNING \<and> r_rsv c3_res = [j_code c3_job]"
  by (simp add: run_send_res_ar_def run_job_ar_def c3_res_def c3_job_def deref_def
      float_incr_def)

section \<open>The end of the run\<close>

text \<open>
  Claim C4. The run is claimed to end in the trace step as soon as \<open>jobs_done\<close> is at least
  \<open>MAX_JOBS\<close>. \<open>traceall\<close> of \<open>mixed-sim.c\<close> tests \<open>jobs_done == MAX_JOBS\<close> after the whole job
  loop: with 99999 jobs counted and two \<open>DONE\<close> jobs in the pool the counter becomes 100001
  and the step does not exit (\<open>ar-sim.c\<close> tests \<open>>=\<close>).
\<close>

theorem traceall_mixed_steps_over_max_jobs:
  "traceall_mixed c4_state =
     Next (c4_state\<lparr>first_res := map trace_res (first_res c4_state), jobs_done := 100001\<rparr>)"
  by (simp add: traceall_mixed_def c4_state_def init_def Let_def trace_job_mixed_def)

section \<open>Waiting time\<close>

lemma traceall_mixed_jobs:
  "traceall_mixed s = Next s' \<or> traceall_mixed s = Exit s' \<Longrightarrow>
   first_job s' = map trace_job_mixed (first_job s)"
  by (auto simp: traceall_mixed_def Let_def split: if_splits)

lemma traceall_ar_jobs:
  "traceall_ar s = Next s' \<or> traceall_ar s = Exit s' \<Longrightarrow>
   first_job s' = map trace_job_ar (first_job s)"
  by (auto simp: traceall_ar_def Let_def split: if_splits)

text \<open>
  Claim C5, as stated: every job that has not reached \<open>RUNNING\<close>, a job whose data is being
  transferred included, gets \<open>wait_time + 1\<close> in the trace step. In both programs a job in
  state \<open>SENDING_DATA\<close> keeps its \<open>wait_time\<close>: the trace step changes nothing but the
  \<open>total_time\<close> of the resource.
\<close>

theorem traceall_skips_sending_data:
  "j_state (first_job c5_mixed ! 0) = SENDING_DATA \<and>
   j_state (first_job c5_ar ! 0) = SENDING_DATA \<and>
   traceall_mixed c5_mixed = Next (c5_mixed\<lparr>first_res := map trace_res (first_res c5_mixed)\<rparr>) \<and>
   traceall_ar c5_ar = Next (c5_ar\<lparr>first_res := map trace_res (first_res c5_ar)\<rparr>)"
  by (simp add: traceall_mixed_def traceall_ar_def c5_mixed_def c5_ar_def c5_job_def init_def
      Let_def trace_job_mixed_def trace_job_ar_def)

text \<open>
  Claim C5, amended: in the trace step \<open>wait_time\<close> grows by exactly 1 for the jobs in state
  \<open>WAITING\<close> (mixed program) and for the jobs in state \<open>WAITING\<close>, \<open>WAITING_TO_SEND_DATA\<close> or
  \<open>READY_TO_RUN\<close> (AR program), whether or not the step exits; for a job in any other state
  (\<open>SENDING_DATA\<close>, \<open>RUNNING\<close>, \<open>DONE\<close>) it stays as it is. The step changes neither the
  number, the order nor the states of the jobs.
\<close>

theorem traceall_wait_time:
  "(traceall_mixed sm = Next sm' \<or> traceall_mixed sm = Exit sm' \<longrightarrow>
      length (first_job sm') = length (first_job sm) \<and>
      (\<forall>i<length (first_job sm).
         j_state (first_job sm' ! i) = j_state (first_job sm ! i) \<and>
         j_wait_time (first_job sm' ! i) =
           (if j_state (first_job sm ! i) = WAITING
            then j_wait_time (first_job sm ! i) + 1 else j_wait_time (first_job sm ! i)))) \<and>
   (traceall_ar sa = Next sa' \<or> traceall_ar sa = Exit sa' \<longrightarrow>
      length (first_job sa') = length (first_job sa) \<and>
      (\<forall>i<length (first_job sa).
         j_state (first_job sa' ! i) = j_state (first_job sa ! i) \<and>
         j_wait_time (first_job sa' ! i) =
           (if j_state (first_job sa ! i) \<in> {WAITING, WAITING_TO_SEND_DATA, READY_TO_RUN}
            then j_wait_time (first_job sa ! i) + 1 else j_wait_time (first_job sa ! i))))"
proof (intro conjI impI)
  assume h: "traceall_mixed sm = Next sm' \<or> traceall_mixed sm = Exit sm'"
  show "length (first_job sm') = length (first_job sm)"
    by (simp add: traceall_mixed_jobs[OF h])
  show "\<forall>i<length (first_job sm).
         j_state (first_job sm' ! i) = j_state (first_job sm ! i) \<and>
         j_wait_time (first_job sm' ! i) =
           (if j_state (first_job sm ! i) = WAITING
            then j_wait_time (first_job sm ! i) + 1 else j_wait_time (first_job sm ! i))"
    by (simp add: traceall_mixed_jobs[OF h] trace_job_mixed_def)
next
  assume h: "traceall_ar sa = Next sa' \<or> traceall_ar sa = Exit sa'"
  show "length (first_job sa') = length (first_job sa)"
    by (simp add: traceall_ar_jobs[OF h])
  show "\<forall>i<length (first_job sa).
         j_state (first_job sa' ! i) = j_state (first_job sa ! i) \<and>
         j_wait_time (first_job sa' ! i) =
           (if j_state (first_job sa ! i) \<in> {WAITING, WAITING_TO_SEND_DATA, READY_TO_RUN}
            then j_wait_time (first_job sa ! i) + 1 else j_wait_time (first_job sa ! i))"
    by (simp add: traceall_ar_jobs[OF h] trace_job_ar_def)
qed

theorem traceall_wait_time_witness:
  "traceall_mixed c1_state =
     Next (c1_state\<lparr>first_job := map trace_job_mixed (first_job c1_state),
                    first_res := map trace_res (first_res c1_state)\<rparr>) \<and>
   traceall_ar c8_state =
     Next (c8_state\<lparr>first_job := map trace_job_ar (first_job c8_state),
                    first_res := map trace_res (first_res c8_state)\<rparr>) \<and>
   map j_wait_time (first_job c1_state) = [2, 1, 0] \<and>
   map j_wait_time (map trace_job_mixed (first_job c1_state)) = [3, 2, 1] \<and>
   map j_wait_time (first_job c8_state) = [4, 9, 1] \<and>
   map j_wait_time (map trace_job_ar (first_job c8_state)) = [4, 9, 2]"
proof -
  let ?m = "c1_state\<lparr>first_job := map trace_job_mixed (first_job c1_state),
                    first_res := map trace_res (first_res c1_state)\<rparr>"
  let ?a = "c8_state\<lparr>first_job := map trace_job_ar (first_job c8_state),
                    first_res := map trace_res (first_res c8_state)\<rparr>"
  have m: "traceall_mixed c1_state = Next ?m"
    by (simp add: traceall_mixed_def c1_state_def init_def Let_def)
  have a: "traceall_ar c8_state = Next ?a"
    by (simp add: traceall_ar_def c8_state_def init_def Let_def)
  have lm: "length (first_job c1_state) = 3" and la: "length (first_job c8_state) = 3"
    by (simp_all add: c1_state_def c8_state_def init_def)
  from traceall_wait_time[of c1_state ?m c8_state ?a] m a
  have M: "\<And>i. i < 3 \<Longrightarrow> j_wait_time (first_job ?m ! i) =
           (if j_state (first_job c1_state ! i) = WAITING
            then j_wait_time (first_job c1_state ! i) + 1
            else j_wait_time (first_job c1_state ! i))"
    and A: "\<And>i. i < 3 \<Longrightarrow> j_wait_time (first_job ?a ! i) =
           (if j_state (first_job c8_state ! i) \<in> {WAITING, WAITING_TO_SEND_DATA, READY_TO_RUN}
            then j_wait_time (first_job c8_state ! i) + 1
            else j_wait_time (first_job c8_state ! i))"
    unfolding lm la by blast+
  from M[of 0] M[of 1] M[of 2] A[of 0] A[of 1] A[of 2]
  have "map j_wait_time (map trace_job_mixed (first_job c1_state)) = [3, 2, 1] \<and>
             map j_wait_time (map trace_job_ar (first_job c8_state)) = [4, 9, 2]"
    by (simp add: c1_state_def c8_state_def init_def)
  moreover have "map j_wait_time (first_job c1_state) = [2, 1, 0] \<and>
        map j_wait_time (first_job c8_state) = [4, 9, 1]"
    by (simp add: c1_state_def c8_state_def init_def)
  ultimately show ?thesis using m a by blast
qed

section \<open>The AR scheduler picks the least loaded resource\<close>

lemma least_loaded_unique: "least_loaded rs a \<Longrightarrow> least_loaded rs b \<Longrightarrow> a = b"
  unfolding least_loaded_def by (metis linorder_neqE_nat not_less)

text \<open>
  Claim C8. In \<open>ar-sim.c\<close> a \<open>WAITING\<close> job and an accepting resource do not suffice for
  \<open>schedule\<close> to bind: in the state with two accepting resources of \<open>total_workload\<close> 300
  and 100 and a \<open>WAITING\<close> job, when \<open>malloc\<close> of the reservation fails ("if can't malloc()
  return"), both pools are left as they are.
\<close>

theorem schedule_ar_malloc_fails:
  "first_at (\<lambda>j. j_state j = WAITING) (first_job c8_state) 2 \<and>
   map r_state (first_res c8_state) = [HAS_JOBS, HAS_JOBS] \<and>
   map r_total_workload (first_res c8_state) = [300, 100] \<and>
   least_loaded (first_res c8_state) 1 \<and>
   \<not> malloc_src env_full (mallocs c8_state) \<and>
   first_res (schedule_ar env_full c8_state) = first_res c8_state \<and>
   first_job (schedule_ar env_full c8_state) = first_job c8_state"
  by (simp add: first_at_def least_loaded_def c8_state_def init_def env_full_def
      schedule_ar_def less_Suc_eq numeral_2_eq_2)

text \<open>
  Claim C8, as it holds. Let a \<open>WAITING\<close> job exist, \<open>ji\<close> being the position of the first
  one. If the reservation is allocated and some resource is not \<open>NO_ACCEPT_JOBS\<close>,
  \<open>schedule\<close> of \<open>ar-sim.c\<close> binds that job to the resource at the one position \<open>bi\<close> that
  is \<open>least_loaded\<close> (smallest \<open>total_workload\<close> among the accepting resources, the earliest
  of them in pool order): the resource becomes \<open>HAS_JOBS\<close>, its \<open>total_workload\<close> grows by
  the job's workload, the job is appended to its reservations, and the job becomes
  \<open>WAITING_TO_SEND_DATA\<close>; nothing else in the pools changes. If the allocation fails, or
  if every resource is \<open>NO_ACCEPT_JOBS\<close> (or there is none), both pools stay as they are.
\<close>

theorem schedule_ar_least_loaded:
  assumes "first_at (\<lambda>j. j_state j = WAITING) (first_job s) ji"
  shows "if malloc_src e (mallocs s) \<and> (\<exists>r\<in>set (first_res s). r_state r \<noteq> NO_ACCEPT_JOBS)
         then \<exists>bi. least_loaded (first_res s) bi \<and>
                first_res (schedule_ar e s) = (first_res s)
                  [bi := (first_res s ! bi)
                     \<lparr>r_state := HAS_JOBS,
                      r_total_workload := r_total_workload (first_res s ! bi)
                                          + j_workload (first_job s ! ji),
                      r_rsv := r_rsv (first_res s ! bi) @ [j_code (first_job s ! ji)]\<rparr>] \<and>
                first_job (schedule_ar e s) = (first_job s)
                  [ji := (first_job s ! ji)\<lparr>j_state := WAITING_TO_SEND_DATA\<rparr>]
         else first_res (schedule_ar e s) = first_res s \<and>
              first_job (schedule_ar e s) = first_job s"
  by (rule schedule_ar_bind[OF assms])

theorem schedule_ar_least_loaded_witness:
  "first_at (\<lambda>j. j_state j = WAITING) (first_job c8_state) 2 \<and>
   malloc_src env_ok (mallocs c8_state) \<and>
   map r_total_workload (first_res c8_state) = [300, 100] \<and>
   least_loaded (first_res c8_state) 1 \<and>
   map r_rsv (first_res (schedule_ar env_ok c8_state)) = [[1], [2, 3]] \<and>
   map r_total_workload (first_res (schedule_ar env_ok c8_state)) = [300, 170] \<and>
   map j_state (first_job (schedule_ar env_ok c8_state))
     = [RUNNING, RUNNING, WAITING_TO_SEND_DATA] \<and>
   \<not> malloc_src env_full (mallocs c8_state) \<and>
   first_res (schedule_ar env_full c8_state) = first_res c8_state \<and>
   first_job (schedule_ar env_full c8_state) = first_job c8_state"
proof -
  have h1: "first_at (\<lambda>j. j_state j = WAITING) (first_job c8_state) 2"
    by (simp add: first_at_def c8_state_def init_def less_Suc_eq numeral_2_eq_2)
  have h2: "malloc_src env_ok (mallocs c8_state)" by (simp add: env_ok_def)
  have h3: "\<not> malloc_src env_full (mallocs c8_state)" by (simp add: env_full_def)
  have ll: "least_loaded (first_res c8_state) 1"
    by (simp add: least_loaded_def c8_state_def init_def less_Suc_eq numeral_2_eq_2)
  have ex: "\<exists>r\<in>set (first_res c8_state). r_state r \<noteq> NO_ACCEPT_JOBS"
    by (simp add: c8_state_def init_def)
  from schedule_ar_least_loaded[OF h1, of env_ok] h2 ex
  obtain bi where bi: "least_loaded (first_res c8_state) bi"
    and r: "first_res (schedule_ar env_ok c8_state) = (first_res c8_state)
                  [bi := (first_res c8_state ! bi)
                     \<lparr>r_state := HAS_JOBS,
                      r_total_workload := r_total_workload (first_res c8_state ! bi)
                                          + j_workload (first_job c8_state ! 2),
                      r_rsv := r_rsv (first_res c8_state ! bi)
                               @ [j_code (first_job c8_state ! 2)]\<rparr>]"
    and j: "first_job (schedule_ar env_ok c8_state) = (first_job c8_state)
                  [2 := (first_job c8_state ! 2)\<lparr>j_state := WAITING_TO_SEND_DATA\<rparr>]"
    by auto
  have "bi = 1" using least_loaded_unique[OF bi ll] .
  with r j h1 h2 ll have a: "first_at (\<lambda>j. j_state j = WAITING) (first_job c8_state) 2 \<and>
   malloc_src env_ok (mallocs c8_state) \<and>
   map r_total_workload (first_res c8_state) = [300, 100] \<and>
   least_loaded (first_res c8_state) 1 \<and>
   map r_rsv (first_res (schedule_ar env_ok c8_state)) = [[1], [2, 3]] \<and>
   map r_total_workload (first_res (schedule_ar env_ok c8_state)) = [300, 170] \<and>
   map j_state (first_job (schedule_ar env_ok c8_state))
     = [RUNNING, RUNNING, WAITING_TO_SEND_DATA]"
    by (simp add: c8_state_def init_def)
  from schedule_ar_least_loaded[OF h1, of env_full] h3
  have "first_res (schedule_ar env_full c8_state) = first_res c8_state \<and>
        first_job (schedule_ar env_full c8_state) = first_job c8_state" by simp
  with a h3 show ?thesis by simp
qed

text \<open>
  Claim C6. In \<open>ar-sim.c\<close> the \<open>total_workload\<close> of a resource is not always the sum of the
  remaining workloads of the jobs in its reservation queue. In the execution with one
  resource of level 5 and one job of workload 52, the workload is 2 after ten turns of
  running; the eleventh takes the level from it and from \<open>total_workload\<close>, the job is
  \<open>DONE\<close> at -3 and leaves the queue, and the resource keeps a \<open>total_workload\<close> of -3 for an
  empty queue.
\<close>

theorem total_workload_below_queue:
  "reach_ar env_rest rest_done \<and>
   map r_rsv (first_res rest_done) = [[]] \<and>
   map (\<lambda>r. queue_workload (first_job rest_done) (r_rsv r)) (first_res rest_done) = [0] \<and>
   map r_total_workload (first_res rest_done) = [- 3]"
  using reach_rest_done by (simp add: rest_done_def queue_workload_def)

text \<open>
  Claim C6, as it holds. At the head of every turn of the loop of \<open>ar-sim.c\<close>, the
  \<open>total_workload\<close> of every resource is at most the sum of the remaining workloads of the
  jobs in its reservation queue. The difference \<open>load_gap\<close> is accounted for turn by turn:
  a resource at the head of the next turn is one created in this turn (its code is above
  the \<open>resource_number\<close> of this turn and its \<open>total_time\<close> is 0), with a difference of 0,
  or it has the code of a resource \<open>r\<close> of this turn, and then the difference is the same
  unless the job of the first reservation of \<open>r\<close> is \<open>DONE\<close> by now, in which case it has
  grown by exactly what that job's workload has gone below zero (\<open>gap_step\<close>).
  When a job is \<open>WAITING\<close>, the reservation is allocated and a resource accepts jobs,
  \<open>schedule\<close> adds the workload of the first \<open>WAITING\<close> job to the \<open>total_workload\<close> of one
  resource of the chain and appends the job to its queue; in any case \<open>schedule\<close> leaves
  both chains alone or does that to one job and one resource. The "run job" step of a
  \<open>RUNNING\<close> job subtracts the level of the resource from both the job's workload and the
  resource's \<open>total_workload\<close>.
\<close>

theorem total_workload_le_queue:
  "(reach_ar e s \<longrightarrow>
      (\<forall>r\<in>set (first_res s). r_total_workload r \<le> queue_workload (first_job s) (r_rsv r))) \<and>
   (reach_ar e u \<longrightarrow> tick_ar e u = Next u' \<longrightarrow>
      (\<forall>r'\<in>set (first_res u').
         (\<exists>r\<in>set (first_res u). gap_step (first_job u) (first_job u') r r') \<or>
         resource_number u < r_code r' \<and> r_total_time r' = 0 \<and>
         load_gap (first_job u') r' = 0)) \<and>
   (first_at (\<lambda>j. j_state j = WAITING) (first_job s0) ji \<longrightarrow> malloc_src e (mallocs s0) \<longrightarrow>
    (\<exists>r\<in>set (first_res s0). r_state r \<noteq> NO_ACCEPT_JOBS) \<longrightarrow>
      (\<exists>bi<length (first_res s0).
         r_total_workload (first_res (schedule_ar e s0) ! bi)
           = r_total_workload (first_res s0 ! bi) + j_workload (first_job s0 ! ji) \<and>
         r_rsv (first_res (schedule_ar e s0) ! bi)
           = r_rsv (first_res s0 ! bi) @ [j_code (first_job s0 ! ji)])) \<and>
   (first_res (schedule_ar e s0) = first_res s0 \<and> first_job (schedule_ar e s0) = first_job s0 \<or>
    (\<exists>ji bi. ji < length (first_job s0) \<and> bi < length (first_res s0) \<and>
       j_state (first_job s0 ! ji) = WAITING \<and>
       first_res (schedule_ar e s0) = (first_res s0)
         [bi := (first_res s0 ! bi)
            \<lparr>r_state := HAS_JOBS,
             r_total_workload := r_total_workload (first_res s0 ! bi)
                                 + j_workload (first_job s0 ! ji),
             r_rsv := r_rsv (first_res s0 ! bi) @ [j_code (first_job s0 ! ji)]\<rparr>] \<and>
       first_job (schedule_ar e s0) = (first_job s0)
         [ji := (first_job s0 ! ji)\<lparr>j_state := WAITING_TO_SEND_DATA\<rparr>])) \<and>
   (first_at (\<lambda>x. j_code x = h) js k \<longrightarrow> j_state (js ! k) = RUNNING \<longrightarrow>
      (\<exists>r' js' n'. run_job_ar e h r js n = Inr (r', js', n') \<and>
         r_total_workload r' = r_total_workload r - r_level r \<and>
         j_workload (js' ! k) = j_workload (js ! k) - r_level r))"
proof (intro conjI impI)
  assume "reach_ar e s"
  from reach_ar_inv[OF this] have "pool_ar (first_res s) (first_job s)"
    by (simp add: inv_ar_def)
  then show "\<forall>r\<in>set (first_res s).
      r_total_workload r \<le> queue_workload (first_job s) (r_rsv r)"
    by (simp add: pool_ar_def load_ok_def)
next
  assume r: "reach_ar e u" and t: "tick_ar e u = Next u'"
  from reach_ar_inv[OF r] have i: "inv_ar u" "time_ok (first_res u)" by blast+
  show "\<forall>r'\<in>set (first_res u').
         (\<exists>r\<in>set (first_res u). gap_step (first_job u) (first_job u') r r') \<or>
         resource_number u < r_code r' \<and> r_total_time r' = 0 \<and>
         load_gap (first_job u') r' = 0"
    using tick_ar_gap[OF t i] by blast
next
  assume w: "first_at (\<lambda>j. j_state j = WAITING) (first_job s0) ji"
    and m: "malloc_src e (mallocs s0)"
    and a: "\<exists>r\<in>set (first_res s0). r_state r \<noteq> NO_ACCEPT_JOBS"
  from schedule_ar_bind[OF w, of e] m a obtain bi where
    bi: "least_loaded (first_res s0) bi"
    and fr: "first_res (schedule_ar e s0) = (first_res s0)
         [bi := (first_res s0 ! bi)
            \<lparr>r_state := HAS_JOBS,
             r_total_workload := r_total_workload (first_res s0 ! bi)
                                 + j_workload (first_job s0 ! ji),
             r_rsv := r_rsv (first_res s0 ! bi) @ [j_code (first_job s0 ! ji)]\<rparr>]"
    by auto
  from bi have "bi < length (first_res s0)" by (simp add: least_loaded_def)
  then show "\<exists>bi<length (first_res s0).
         r_total_workload (first_res (schedule_ar e s0) ! bi)
           = r_total_workload (first_res s0 ! bi) + j_workload (first_job s0 ! ji) \<and>
         r_rsv (first_res (schedule_ar e s0) ! bi)
           = r_rsv (first_res s0 ! bi) @ [j_code (first_job s0 ! ji)]"
    unfolding fr by (intro exI[of _ bi]) simp
next
  from schedule_ar_cases[of e s0]
  show "first_res (schedule_ar e s0) = first_res s0 \<and>
        first_job (schedule_ar e s0) = first_job s0 \<or>
    (\<exists>ji bi. ji < length (first_job s0) \<and> bi < length (first_res s0) \<and>
       j_state (first_job s0 ! ji) = WAITING \<and>
       first_res (schedule_ar e s0) = (first_res s0)
         [bi := (first_res s0 ! bi)
            \<lparr>r_state := HAS_JOBS,
             r_total_workload := r_total_workload (first_res s0 ! bi)
                                 + j_workload (first_job s0 ! ji),
             r_rsv := r_rsv (first_res s0 ! bi) @ [j_code (first_job s0 ! ji)]\<rparr>] \<and>
       first_job (schedule_ar e s0) = (first_job s0)
         [ji := (first_job s0 ! ji)\<lparr>j_state := WAITING_TO_SEND_DATA\<rparr>])"
    unfolding first_at_def least_loaded_def by blast
next
  assume "first_at (\<lambda>x. j_code x = h) js k" and "j_state (js ! k) = RUNNING"
  then show "\<exists>r' js' n'. run_job_ar e h r js n = Inr (r', js', n') \<and>
         r_total_workload r' = r_total_workload r - r_level r \<and>
         j_workload (js' ! k) = j_workload (js ! k) - r_level r"
    by (rule run_job_ar_running)
qed

theorem total_workload_le_queue_witness:
  "reach_ar env_rest (rest_run 10) \<and>
   tick_ar env_rest (rest_run 10) = Next rest_done \<and>
   reach_ar env_rest rest_done \<and>
   list_all (\<lambda>r. r_total_workload r \<le> queue_workload (first_job rest_done) (r_rsv r))
     (first_res rest_done) \<and>
   head_done (first_job rest_done) (first_res (rest_run 10) ! 0) \<and>
   gap_step (first_job (rest_run 10)) (first_job rest_done)
     (first_res (rest_run 10) ! 0) (first_res rest_done ! 0) \<and>
   load_gap (first_job (rest_run 10)) (first_res (rest_run 10) ! 0) = 0 \<and>
   workload_of (first_job rest_done) 1 = - 3 \<and>
   load_gap (first_job rest_done) (first_res rest_done ! 0) = 3 \<and>
   tick_ar env_rest (rest_run 3) = Next (rest_run 4) \<and>
   \<not> head_done (first_job (rest_run 4)) (first_res (rest_run 3) ! 0) \<and>
   gap_step (first_job (rest_run 3)) (first_job (rest_run 4))
     (first_res (rest_run 3) ! 0) (first_res (rest_run 4) ! 0) \<and>
   load_gap (first_job (rest_run 4)) (first_res (rest_run 4) ! 0) = 0 \<and>
   tick_ar env_rest init = Next (rest_start WAITING_TO_SEND_DATA 0 0 0) \<and>
   resource_number (init :: asim)
     < r_code (first_res (rest_start WAITING_TO_SEND_DATA 0 0 0) ! 0) \<and>
   r_total_time (first_res (rest_start WAITING_TO_SEND_DATA 0 0 0) ! 0) = 0 \<and>
   load_gap (first_job (rest_start WAITING_TO_SEND_DATA 0 0 0))
     (first_res (rest_start WAITING_TO_SEND_DATA 0 0 0) ! 0) = 0 \<and>
   first_at (\<lambda>j. j_state j = WAITING) (first_job c8_state) 2 \<and>
   malloc_src env_ok (mallocs c8_state) \<and>
   map r_state (first_res c8_state) = [HAS_JOBS, HAS_JOBS] \<and>
   (\<exists>bi<length (first_res c8_state).
      r_total_workload (first_res (schedule_ar env_ok c8_state) ! bi)
        = r_total_workload (first_res c8_state ! bi) + 70 \<and>
      r_rsv (first_res (schedule_ar env_ok c8_state) ! bi)
        = r_rsv (first_res c8_state ! bi) @ [3]) \<and>
   first_at (\<lambda>x. j_code x = 1) (first_job (rest_run 4)) 0 \<and>
   map j_state (first_job (rest_run 4)) = [RUNNING] \<and>
   map r_total_workload (first_res (rest_run 4)) = [32] \<and>
   (\<exists>r' js' n'. run_job_ar env_rest 1 (first_res (rest_run 4) ! 0) (first_job (rest_run 4)) 11
        = Inr (r', js', n') \<and>
      r_total_workload r' = 27 \<and> j_workload (js' ! 0) = 27)"
proof -
  let ?R = "\<lambda>k. first_res (rest_run k) ! 0" and ?D = "first_res rest_done ! 0"
  have r10: "reach_ar env_rest (rest_run 10)" and r3: "reach_ar env_rest (rest_run 3)"
    by (rule reach_rest_run, simp)+
  have t3: "tick_ar env_rest (rest_run 3) = Next (rest_run 4)"
    using rest_tick_run[of 3] by (simp add: eval_nat_numeral)
  have f: "first_at (\<lambda>x. j_code x = 1) (first_job (rest_run 4)) 0"
    by (simp add: first_at_def rest_run_def)
  have st: "j_state (first_job (rest_run 4) ! 0) = RUNNING" by (simp add: rest_run_def)
  have w: "first_at (\<lambda>j. j_state j = WAITING) (first_job c8_state) 2"
    by (simp add: first_at_def c8_state_def init_def less_Suc_eq numeral_2_eq_2)
  have m: "malloc_src env_ok (mallocs c8_state)" by (simp add: env_ok_def)
  have ac: "\<exists>r\<in>set (first_res c8_state). r_state r \<noteq> NO_ACCEPT_JOBS"
    by (simp add: c8_state_def init_def)
  note T1 = total_workload_le_queue[where e = env_rest and s = rest_done
      and u = "rest_run 10" and u' = rest_done and s0 = init and ji = 0 and h = 1
      and js = "first_job (rest_run 4)" and k = 0 and r = "?R 4" and n = 11]
  note T2 = total_workload_le_queue[where e = env_rest and s = rest_done
      and u = "rest_run 3" and u' = "rest_run 4" and s0 = init and ji = 0 and h = 1
      and js = "first_job (rest_run 4)" and k = 0 and r = "?R 4" and n = 11]
  note T3 = total_workload_le_queue[where e = env_ok and s = init
      and u = init and u' = init and s0 = c8_state and ji = 2 and h = 1
      and js = "first_job (rest_run 4)" and k = 0 and r = "?R 4" and n = 11]
  from T1 reach_rest_done
  have a: "\<forall>r\<in>set (first_res rest_done).
      r_total_workload r \<le> queue_workload (first_job rest_done) (r_rsv r)" by blast
  have sd: "set (first_res rest_done) = {?D}" by (simp add: rest_done_def)
  have sr: "set (first_res (rest_run k)) = {?R k}" for k by (simp add: rest_run_def)
  from T1 r10 rest_tick_done
  have "\<forall>r'\<in>set (first_res rest_done).
         (\<exists>r\<in>set (first_res (rest_run 10)).
            gap_step (first_job (rest_run 10)) (first_job rest_done) r r') \<or>
         resource_number (rest_run 10) < r_code r' \<and> r_total_time r' = 0 \<and>
         load_gap (first_job rest_done) r' = 0" by blast
  then have "gap_step (first_job (rest_run 10)) (first_job rest_done) (?R 10) ?D \<or>
         r_total_time ?D = 0" unfolding sd sr by auto
  moreover have "r_total_time ?D \<noteq> 0" by (simp add: rest_done_def)
  ultimately have g10: "gap_step (first_job (rest_run 10)) (first_job rest_done) (?R 10) ?D"
    by simp
  from T2 r3 t3
  have "\<forall>r'\<in>set (first_res (rest_run 4)).
         (\<exists>r\<in>set (first_res (rest_run 3)).
            gap_step (first_job (rest_run 3)) (first_job (rest_run 4)) r r') \<or>
         resource_number (rest_run 3) < r_code r' \<and> r_total_time r' = 0 \<and>
         load_gap (first_job (rest_run 4)) r' = 0" by blast
  then have "gap_step (first_job (rest_run 3)) (first_job (rest_run 4)) (?R 3) (?R 4) \<or>
         r_total_time (?R 4) = 0" unfolding sr by auto
  moreover have "r_total_time (?R 4) \<noteq> 0" by (simp add: rest_run_def)
  ultimately have g3: "gap_step (first_job (rest_run 3)) (first_job (rest_run 4)) (?R 3) (?R 4)"
    by simp
  let ?S = "rest_start WAITING_TO_SEND_DATA 0 0 0"
  note T4 = total_workload_le_queue[where e = env_rest and s = rest_done
      and u = init and u' = ?S and s0 = init and ji = 0 and h = 1
      and js = "first_job (rest_run 4)" and k = 0 and r = "?R 4" and n = 11]
  from T4 reach_ar_init[of env_rest] rest_tick_1
  have "\<forall>r'\<in>set (first_res ?S).
         (\<exists>r\<in>set (first_res (init :: asim)). gap_step (first_job (init :: asim)) (first_job ?S) r r') \<or>
         resource_number (init :: asim) < r_code r' \<and> r_total_time r' = 0 \<and>
         load_gap (first_job ?S) r' = 0" by blast
  moreover have "set (first_res ?S) = {first_res ?S ! 0}" by (simp add: rest_start_def)
  moreover have "set (first_res (init :: asim)) = {}" by (simp add: init_def)
  ultimately have g0: "resource_number (init :: asim) < r_code (first_res ?S ! 0) \<and>
      r_total_time (first_res ?S ! 0) = 0 \<and> load_gap (first_job ?S) (first_res ?S ! 0) = 0"
    by simp
  from T3 w m ac
  have "\<exists>bi<length (first_res c8_state).
         r_total_workload (first_res (schedule_ar env_ok c8_state) ! bi)
           = r_total_workload (first_res c8_state ! bi) + j_workload (first_job c8_state ! 2) \<and>
         r_rsv (first_res (schedule_ar env_ok c8_state) ! bi)
           = r_rsv (first_res c8_state ! bi) @ [j_code (first_job c8_state ! 2)]" by blast
  moreover have "j_workload (first_job c8_state ! 2) = 70" "j_code (first_job c8_state ! 2) = 3"
    by (simp_all add: c8_state_def init_def)
  ultimately have b: "\<exists>bi<length (first_res c8_state).
      r_total_workload (first_res (schedule_ar env_ok c8_state) ! bi)
        = r_total_workload (first_res c8_state ! bi) + 70 \<and>
      r_rsv (first_res (schedule_ar env_ok c8_state) ! bi)
        = r_rsv (first_res c8_state ! bi) @ [3]" by simp
  from T1 f st
  have "\<exists>r' js' n'.
      run_job_ar env_rest 1 (?R 4) (first_job (rest_run 4)) 11 = Inr (r', js', n') \<and>
      r_total_workload r' = r_total_workload (?R 4) - r_level (?R 4) \<and>
      j_workload (js' ! 0) = j_workload (first_job (rest_run 4) ! 0) - r_level (?R 4)"
    by blast
  then have c: "\<exists>r' js' n'.
      run_job_ar env_rest 1 (?R 4) (first_job (rest_run 4)) 11 = Inr (r', js', n') \<and>
      r_total_workload r' = 27 \<and> j_workload (js' ! 0) = 27"
    by (simp add: rest_run_def)
  have v: "head_done (first_job rest_done) (?R 10)"
    "load_gap (first_job (rest_run 10)) (?R 10) = 0"
    "workload_of (first_job rest_done) 1 = - 3"
    "load_gap (first_job rest_done) ?D = 3"
    "\<not> head_done (first_job (rest_run 4)) (?R 3)"
    "load_gap (first_job (rest_run 4)) (?R 4) = 0"
    "map r_state (first_res c8_state) = [HAS_JOBS, HAS_JOBS]"
    "map j_state (first_job (rest_run 4)) = [RUNNING]"
    "map r_total_workload (first_res (rest_run 4)) = [32]"
    by (simp_all add: head_done_def completed_def load_gap_def queue_workload_def
        workload_of_def job_of_def rest_run_def rest_done_def c8_state_def init_def)
  from a have a': "list_all (\<lambda>r. r_total_workload r
      \<le> queue_workload (first_job rest_done) (r_rsv r)) (first_res rest_done)"
    by (simp add: list_all_iff)
  from r10 rest_tick_done reach_rest_done a' v g10 t3 g3 rest_tick_1 g0 w m b f c
  show ?thesis by (intro conjI) (assumption | simp)+
qed

text \<open>
  Claim C7. In both programs, at the head of every turn of the loop every resource has
  \<open>used_time \<le> total_time\<close>. Within a turn, \<open>traceall\<close> increments the \<open>total_time\<close> of every
  resource of the chain (\<open>trace_res\<close>), and \<open>run_send\<close> keeps every node and its
  \<open>total_time\<close> and increments its \<open>used_time\<close> at most once (\<open>used_once\<close>).
\<close>

theorem used_time_le_total_time:
  "(reach_mixed e s \<longrightarrow>
      time_ok (first_res s) \<and>
      (\<forall>s1 s2 s3. traceall_mixed s = Next s1 \<longrightarrow> add_remove_mixed e s1 = Inr s2 \<longrightarrow>
         run_send_mixed e s2 = Inr s3 \<longrightarrow>
         first_res s1 = map trace_res (first_res s) \<and>
         used_once (first_res s2) (first_res s3) \<and> time_ok (first_res s3))) \<and>
   (reach_ar e a \<longrightarrow>
      time_ok (first_res a) \<and>
      (\<forall>a1 a2 a3. traceall_ar a = Next a1 \<longrightarrow> add_remove_ar e a1 = Inr a2 \<longrightarrow>
         run_send_ar e a2 = Inr a3 \<longrightarrow>
         first_res a1 = map trace_res (first_res a) \<and>
         used_once (first_res a2) (first_res a3) \<and> time_ok (first_res a3)))"
proof (intro conjI impI allI)
  assume r: "reach_mixed e s"
  from reach_mixed_inv[OF r] have i: "inv_mixed s" "time_ok (first_res s)" by blast+
  show "time_ok (first_res s)" by (rule i(2))
  fix s1 s2 s3
  assume t: "traceall_mixed s = Next s1" and ad: "add_remove_mixed e s1 = Inr s2"
    and rs: "run_send_mixed e s2 = Inr s3"
  from t show "first_res s1 = map trace_res (first_res s)"
    by (simp add: traceall_mixed_fields(2))
  from traceall_mixed_inv[OF t i] have i1: "inv_mixed s1" "time_mid_mixed (first_res s1)"
    by blast+
  from add_remove_mixed_inv[OF ad i1] have i2: "inv_mixed s2" "time_mid_mixed (first_res s2)"
    by blast+
  from run_send_mixed_inv[OF i2, of e] rs
  have "res_step (first_job s2) (first_res s2) (first_res s3)" and t3: "time_ok (first_res s3)"
    by auto
  then show "used_once (first_res s2) (first_res s3)" by (simp add: res_step_used_once)
  show "time_ok (first_res s3)" by (rule t3)
next
  assume r: "reach_ar e a"
  from reach_ar_inv[OF r] have i: "inv_ar a" "time_ok (first_res a)" by blast+
  show "time_ok (first_res a)" by (rule i(2))
  fix a1 a2 a3
  assume t: "traceall_ar a = Next a1" and ad: "add_remove_ar e a1 = Inr a2"
    and rs: "run_send_ar e a2 = Inr a3"
  from t show "first_res a1 = map trace_res (first_res a)"
    by (simp add: traceall_ar_fields(2))
  from traceall_ar_inv[OF t i] have i1: "inv_ar a1" "time_mid_ar (first_res a1)"
    by blast+
  from add_remove_ar_inv[OF ad i1] have i2: "inv_ar a2" "time_mid_ar (first_res a2)"
    by blast+
  from run_send_ar_inv[OF i2, of e] rs
  have "list_all2 (ar_step (first_job a2) (first_job a3)) (first_res a2) (first_res a3)"
    and t3: "time_ok (first_res a3)" by auto
  then show "used_once (first_res a2) (first_res a3)" by (simp add: ar_step_used_once)
  show "time_ok (first_res a3)" by (rule t3)
qed

theorem used_time_le_total_time_witness:
  "reach_mixed env_single_mixed (mixed_run 3) \<and>
   map r_used_time (first_res (mixed_run 3)) = [3] \<and>
   map r_total_time (first_res (mixed_run 3)) = [4] \<and>
   time_ok (first_res (mixed_run 3)) \<and>
   reach_ar env_single (ar_run 10) \<and>
   map r_used_time (first_res (ar_run 10)) = [10] \<and>
   map r_total_time (first_res (ar_run 10)) = [13] \<and>
   time_ok (first_res (ar_run 10)) \<and>
   (\<exists>s1 s2 s3. traceall_mixed (mixed_run 3) = Next s1 \<and>
      add_remove_mixed env_single_mixed s1 = Inr s2 \<and>
      run_send_mixed env_single_mixed s2 = Inr s3 \<and>
      first_res s1 = map trace_res (first_res (mixed_run 3)) \<and>
      used_once (first_res s2) (first_res s3) \<and> time_ok (first_res s3)) \<and>
   (\<exists>a1 a2 a3. traceall_ar (ar_run 10) = Next a1 \<and>
      add_remove_ar env_single a1 = Inr a2 \<and>
      run_send_ar env_single a2 = Inr a3 \<and>
      first_res a1 = map trace_res (first_res (ar_run 10)) \<and>
      used_once (first_res a2) (first_res a3) \<and> time_ok (first_res a3))"
proof -
  have m: "reach_mixed env_single_mixed (mixed_run 3)" by (rule reach_mixed_run) simp
  have a: "reach_ar env_single (ar_run 10)" by (rule reach_ar_run) simp
  have tm: "tick_mixed env_single_mixed (mixed_run 3) = Next (mixed_run (Suc 3))"
    by (rule mixed_tick_run) simp
  from tick_mixed_Next[OF tm] obtain s1 s2 s3 where
    s: "traceall_mixed (mixed_run 3) = Next s1" "add_remove_mixed env_single_mixed s1 = Inr s2"
       "run_send_mixed env_single_mixed s2 = Inr s3" by blast
  from tick_ar_Next[OF ar_tick_done] obtain a1 a2 a3 where
    t: "traceall_ar (ar_run 10) = Next a1" "add_remove_ar env_single a1 = Inr a2"
       "run_send_ar env_single a2 = Inr a3" by blast
  note M = used_time_le_total_time[of env_single_mixed "mixed_run 3" init]
  note A = used_time_le_total_time[of env_single init "ar_run 10"]
  from M m have m1: "time_ok (first_res (mixed_run 3))" by blast
  from M m s have m2: "first_res s1 = map trace_res (first_res (mixed_run 3)) \<and>
      used_once (first_res s2) (first_res s3) \<and> time_ok (first_res s3)" by blast
  from A a have a1: "time_ok (first_res (ar_run 10))" by blast
  from A a t have a2: "first_res a1 = map trace_res (first_res (ar_run 10)) \<and>
      used_once (first_res a2) (first_res a3) \<and> time_ok (first_res a3)" by blast
  have v: "map r_used_time (first_res (mixed_run 3)) = [3]"
    "map r_total_time (first_res (mixed_run 3)) = [4]"
    "map r_used_time (first_res (ar_run 10)) = [10]"
    "map r_total_time (first_res (ar_run 10)) = [13]"
    by (simp_all add: mixed_run_def ar_run_def)
  from m a m1 a1 v s m2 t a2 show ?thesis by blast
qed

text \<open>
  Claim C10. In \<open>mixed-sim.c\<close>, at the head of every turn of the loop, every job that is
  \<open>SENDING_DATA\<close> or \<open>RUNNING\<close> has a \<open>run_on\<close> pointer to a resource of the chain, which is
  \<open>RECEIVING_DATA\<close> or \<open>USED\<close> respectively (\<open>bound_ok\<close>), and every resource that is
  \<open>LEAVING\<close> has a \<open>DONE\<close> job pointing at it. The same holds for the jobs when \<open>run_send\<close>
  is entered, after \<open>traceall\<close> and \<open>add_remove\<close>, and \<open>run_send\<close> then returns without
  following a pointer to a removed node. In the step of one job, a resource becomes
  \<open>LEAVING\<close> only if that job was \<open>RUNNING\<close> on it and becomes \<open>DONE\<close>.
\<close>

theorem mixed_run_on_live:
  "(reach_mixed e s \<longrightarrow>
      (\<forall>j\<in>set (first_job s). bound_ok (first_res s) j) \<and>
      leaving_ok s \<and>
      (\<forall>s1 s2. traceall_mixed s = Next s1 \<longrightarrow> add_remove_mixed e s1 = Inr s2 \<longrightarrow>
         (\<forall>j\<in>set (first_job s2). bound_ok (first_res s2) j) \<and>
         (\<exists>s3. run_send_mixed e s2 = Inr s3))) \<and>
   (run_send_job_mixed e j rs n = Inr (j', rs', n') \<longrightarrow>
      length rs' = length rs \<and>
      (\<forall>k<length rs. r_code (rs' ! k) = r_code (rs ! k) \<and>
         (r_state (rs' ! k) = LEAVING \<longrightarrow> r_state (rs ! k) = LEAVING \<or>
            j_state j = RUNNING \<and> j_state j' = DONE \<and> j_run_on j' = Some (r_code (rs ! k)))))"
proof (intro conjI impI)
  assume r: "reach_mixed e s"
  from reach_mixed_inv[OF r] have i: "inv_mixed s" "time_ok (first_res s)" "leaving_ok s"
    by blast+
  from i(1) show "\<forall>j\<in>set (first_job s). bound_ok (first_res s) j" by (simp add: inv_mixed_def)
  show "leaving_ok s" by (rule i(3))
  show "\<forall>s1 s2. traceall_mixed s = Next s1 \<longrightarrow> add_remove_mixed e s1 = Inr s2 \<longrightarrow>
            (\<forall>j\<in>set (first_job s2). bound_ok (first_res s2) j) \<and>
            (\<exists>s3. run_send_mixed e s2 = Inr s3)"
  proof (intro allI impI)
    fix s1 s2 assume t: "traceall_mixed s = Next s1" and a: "add_remove_mixed e s1 = Inr s2"
    from traceall_mixed_inv[OF t i(1,2)] have i1: "inv_mixed s1" "time_mid_mixed (first_res s1)"
      by blast+
    from add_remove_mixed_inv[OF a i1] have i2: "inv_mixed s2" "time_mid_mixed (first_res s2)"
      by blast+
    from run_send_mixed_inv[OF i2, of e] i2(1)
    show "(\<forall>j\<in>set (first_job s2). bound_ok (first_res s2) j) \<and>
            (\<exists>s3. run_send_mixed e s2 = Inr s3)" by (auto simp: inv_mixed_def)
  qed
next
  assume "run_send_job_mixed e j rs n = Inr (j', rs', n')"
  from run_send_job_mixed_leaving[OF this]
  show "length rs' = length rs" 
    and "\<forall>k<length rs. r_code (rs' ! k) = r_code (rs ! k) \<and>
         (r_state (rs' ! k) = LEAVING \<longrightarrow> r_state (rs ! k) = LEAVING \<or>
            j_state j = RUNNING \<and> j_state j' = DONE \<and> j_run_on j' = Some (r_code (rs ! k)))"
    by blast+
qed

theorem mixed_run_on_live_witness:
  "reach_mixed env_single_mixed (mixed_run 9) \<and>
   map j_state (first_job (mixed_run 9)) = [RUNNING] \<and>
   map j_run_on (first_job (mixed_run 9)) = [Some 1] \<and>
   map r_code (first_res (mixed_run 9)) = [1] \<and>
   map r_state (first_res (mixed_run 9)) = [USED] \<and>
   bound_ok (first_res (mixed_run 9)) (first_job (mixed_run 9) ! 0) \<and>
   leaving_ok (mixed_run 9) \<and>
   (\<exists>s1 s2 s3. traceall_mixed (mixed_run 9) = Next s1 \<and>
      add_remove_mixed env_single_mixed s1 = Inr s2 \<and>
      list_all (bound_ok (first_res s2)) (first_job s2) \<and>
      run_send_mixed env_single_mixed s2 = Inr s3) \<and>
   (\<exists>j' rs' n'. run_send_job_mixed env_single_mixed (first_job (mixed_run 9) ! 0)
        (first_res (mixed_run 9)) 14 = Inr (j', rs', n') \<and>
      r_state (first_res (mixed_run 9) ! 0) = USED \<and> r_state (rs' ! 0) = LEAVING \<and>
      j_state j' = DONE \<and> j_run_on j' = Some (r_code (first_res (mixed_run 9) ! 0)))"
proof -
  let ?j = "first_job (mixed_run 9) ! 0" and ?rs = "first_res (mixed_run 9)"
  have m: "reach_mixed env_single_mixed (mixed_run 9)" by (rule reach_mixed_run) simp
  have tr: "traceall_mixed (mixed_run 9) =
      Next ((mixed_run 9)\<lparr>first_job := map trace_job_mixed (first_job (mixed_run 9)),
                          first_res := map trace_res (first_res (mixed_run 9))\<rparr>)"
    (is "_ = Next ?s1")
    by (simp add: traceall_mixed_def mixed_run_def Let_def)
  have ad: "\<exists>s2. add_remove_mixed env_single_mixed ?s1 = Inr s2"
    by (simp add: mixed_tick_defs mixed_run_def)
  then obtain s2 where s2: "add_remove_mixed env_single_mixed ?s1 = Inr s2" by blast
  have st: "run_send_job_mixed env_single_mixed ?j ?rs 14 =
      Inr (?j\<lparr>j_workload := 0, j_state := DONE\<rparr>,
           [(?rs ! 0)\<lparr>r_used_time := 10, r_state := LEAVING\<rparr>], 15)"
    by (simp add: run_send_job_mixed_def deref_def mixed_run_def env_single_mixed_def Let_def
        float_incr_def)
  note T = mixed_run_on_live[of env_single_mixed "mixed_run 9" ?j ?rs 14
      "?j\<lparr>j_workload := 0, j_state := DONE\<rparr>"
      "[(?rs ! 0)\<lparr>r_used_time := 10, r_state := LEAVING\<rparr>]" 15]
  from T m have b: "\<forall>j\<in>set (first_job (mixed_run 9)). bound_ok (first_res (mixed_run 9)) j"
    and l: "leaving_ok (mixed_run 9)" by blast+
  from b have b0: "bound_ok ?rs ?j" by (simp add: mixed_run_def)
  from T m tr s2 have c: "(\<forall>j\<in>set (first_job s2). bound_ok (first_res s2) j) \<and>
      (\<exists>s3. run_send_mixed env_single_mixed s2 = Inr s3)" by blast
  then have c': "\<exists>s1 s2 s3. traceall_mixed (mixed_run 9) = Next s1 \<and>
      add_remove_mixed env_single_mixed s1 = Inr s2 \<and>
      list_all (bound_ok (first_res s2)) (first_job s2) \<and>
      run_send_mixed env_single_mixed s2 = Inr s3"
    using tr s2 by (auto simp: list_all_iff)
  from T st have "\<forall>k<length ?rs.
      (r_state ([(?rs ! 0)\<lparr>r_used_time := 10, r_state := LEAVING\<rparr>] ! k) = LEAVING \<longrightarrow>
         r_state (?rs ! k) = LEAVING \<or>
         j_state ?j = RUNNING \<and> j_state (?j\<lparr>j_workload := 0, j_state := DONE\<rparr>) = DONE \<and>
         j_run_on (?j\<lparr>j_workload := 0, j_state := DONE\<rparr>) = Some (r_code (?rs ! k)))"
    by blast
  then have d: "j_run_on (?j\<lparr>j_workload := 0, j_state := DONE\<rparr>) = Some (r_code (?rs ! 0))"
    by (simp add: mixed_run_def)
  have e: "\<exists>j' rs' n'. run_send_job_mixed env_single_mixed ?j ?rs 14 = Inr (j', rs', n') \<and>
      r_state (?rs ! 0) = USED \<and> r_state (rs' ! 0) = LEAVING \<and>
      j_state j' = DONE \<and> j_run_on j' = Some (r_code (?rs ! 0))"
    unfolding st using d by (simp add: mixed_run_def)
  have v: "map j_state (first_job (mixed_run 9)) = [RUNNING]"
    "map j_run_on (first_job (mixed_run 9)) = [Some 1]"
    "map r_code (first_res (mixed_run 9)) = [1]"
    "map r_state (first_res (mixed_run 9)) = [USED]"
    by (simp_all add: mixed_run_def)
  from m v b0 l c' e show ?thesis by blast
qed

text \<open>
  Claim C9. In \<open>ar-sim.c\<close> the jobs reserved on one resource are completed in the order of
  its queue. If, at the head of a turn of the loop, the reservation for job \<open>a\<close> stands
  before the one for job \<open>b\<close> in the queue of a resource, and \<open>b\<close> is \<open>DONE\<close> \<open>n\<close> turns
  later, then \<open>a\<close> was \<open>DONE\<close> at the head of an earlier turn, at which \<open>b\<close> still had its
  reservation. In a pass of \<open>run_send\<close> every queue stays as it is or loses its first
  reservation, whose job is then \<open>DONE\<close> (\<open>pop_step\<close>), and a job whose state changes to
  anything but \<open>READY_TO_RUN\<close> or \<open>SENDING_DATA\<close>, so to \<open>RUNNING\<close> or \<open>DONE\<close>, is the job of a
  first reservation (\<open>head_step\<close>). \<open>schedule\<close> leaves the queues alone or appends one
  reservation at the end of one queue.
\<close>

theorem ar_queue_fifo:
  "(reach_ar e s \<longrightarrow> ahead (first_res s) a b \<longrightarrow> ticks_ar e n s = Some s' \<longrightarrow>
      completed (first_job s') b \<longrightarrow>
      (\<exists>k s1. 0 < k \<and> k < n \<and> ticks_ar e k s = Some s1 \<and>
         completed (first_job s1) a \<and> in_queue (first_res s1) b)) \<and>
   (reach_ar e u \<longrightarrow> traceall_ar u = Next u1 \<longrightarrow> add_remove_ar e u1 = Inr u2 \<longrightarrow>
      run_send_ar e u2 = Inr u3 \<longrightarrow>
      list_all2 (pop_step (first_job u3)) (first_res u2) (first_res u3) \<and>
      list_all2 (head_step (heads (first_res u2))) (first_job u2) (first_job u3)) \<and>
   (first_res (schedule_ar e s0) = first_res s0 \<and> first_job (schedule_ar e s0) = first_job s0 \<or>
    (\<exists>ji bi. first_at (\<lambda>j. j_state j = WAITING) (first_job s0) ji \<and>
       first_res (schedule_ar e s0) = (first_res s0)
         [bi := (first_res s0 ! bi)
            \<lparr>r_state := HAS_JOBS,
             r_total_workload := r_total_workload (first_res s0 ! bi)
                                 + j_workload (first_job s0 ! ji),
             r_rsv := r_rsv (first_res s0 ! bi) @ [j_code (first_job s0 ! ji)]\<rparr>] \<and>
       first_job (schedule_ar e s0) = (first_job s0)
         [ji := (first_job s0 ! ji)\<lparr>j_state := WAITING_TO_SEND_DATA\<rparr>]))"
proof (intro conjI impI)
  assume r: "reach_ar e s" and a: "ahead (first_res s) a b"
    and t: "ticks_ar e n s = Some s'" and c: "completed (first_job s') b"
  from reach_ar_inv[OF r] have "inv_ar s" "time_ok (first_res s)" by blast+
  from ticks_ar_fifo[OF t this a c]
  show "\<exists>k s1. 0 < k \<and> k < n \<and> ticks_ar e k s = Some s1 \<and>
         completed (first_job s1) a \<and> in_queue (first_res s1) b" .
next
  assume r: "reach_ar e u" and t: "traceall_ar u = Next u1"
    and ad: "add_remove_ar e u1 = Inr u2" and rs: "run_send_ar e u2 = Inr u3"
  from reach_ar_inv[OF r] have i: "inv_ar u" "time_ok (first_res u)" by blast+
  from traceall_ar_inv[OF t i] have i1: "inv_ar u1" "time_mid_ar (first_res u1)" by blast+
  from add_remove_ar_inv[OF ad i1] have i2: "inv_ar u2" "time_mid_ar (first_res u2)"
    by blast+
  from run_send_ar_inv[OF i2, of e] rs
  have "list_all2 (ar_step (first_job u2) (first_job u3)) (first_res u2) (first_res u3)"
    by auto
  then show "list_all2 (pop_step (first_job u3)) (first_res u2) (first_res u3)"
    by (rule list_all2_mono) (rule ar_step_pop)
  show "list_all2 (head_step (heads (first_res u2))) (first_job u2) (first_job u3)"
    by (rule run_send_ar_states[OF rs])
next
  from schedule_ar_cases[of e s0]
  show "first_res (schedule_ar e s0) = first_res s0 \<and>
        first_job (schedule_ar e s0) = first_job s0 \<or>
    (\<exists>ji bi. first_at (\<lambda>j. j_state j = WAITING) (first_job s0) ji \<and>
       first_res (schedule_ar e s0) = (first_res s0)
         [bi := (first_res s0 ! bi)
            \<lparr>r_state := HAS_JOBS,
             r_total_workload := r_total_workload (first_res s0 ! bi)
                                 + j_workload (first_job s0 ! ji),
             r_rsv := r_rsv (first_res s0 ! bi) @ [j_code (first_job s0 ! ji)]\<rparr>] \<and>
       first_job (schedule_ar e s0) = (first_job s0)
         [ji := (first_job s0 ! ji)\<lparr>j_state := WAITING_TO_SEND_DATA\<rparr>])"
    by blast
qed

theorem ar_queue_fifo_witness:
  "reach_ar env_pair pair_queued \<and>
   map r_rsv (first_res pair_queued) = [[1, 2]] \<and>
   ahead (first_res pair_queued) 1 2 \<and>
   ticks_ar env_pair 25 pair_queued = Some pair_done \<and>
   completed (first_job pair_done) 2 \<and>
   (\<exists>k s1. 0 < k \<and> k < 25 \<and> ticks_ar env_pair k pair_queued = Some s1 \<and>
      completed (first_job s1) 1 \<and> in_queue (first_res s1) 2) \<and>
   ticks_ar env_pair 13 pair_queued = Some pair_popped \<and>
   completed (first_job pair_popped) 1 \<and>
   in_queue (first_res pair_popped) 2 \<and>
   reach_ar env_pair (pair_first 10) \<and>
   (\<exists>u1 u2 u3. traceall_ar (pair_first 10) = Next u1 \<and>
      add_remove_ar env_pair u1 = Inr u2 \<and> run_send_ar env_pair u2 = Inr u3 \<and>
      list_all2 (pop_step (first_job u3)) (first_res u2) (first_res u3) \<and>
      list_all2 (head_step (heads (first_res u2))) (first_job u2) (first_job u3))"
proof -
  note r = reach_pair_queued
  have q: "map r_rsv (first_res pair_queued) = [[1, 2]]"
    by (simp add: pair_queued_def pair_state_def pair_res_def)
  have a: "ahead (first_res pair_queued) 1 2"
    by (simp add: ahead_def pair_queued_def pair_state_def pair_res_def)
  note t = ticks_pair_done
  have c: "completed (first_job pair_done) 2"
    by (simp add: completed_def job_of_def pair_done_def pair_state_def pair_job_def)
  have p: "completed (first_job pair_popped) 1" "in_queue (first_res pair_popped) 2"
    by (simp_all add: completed_def job_of_def in_queue_def pair_popped_def pair_state_def
        pair_job_def pair_res_def)
  have "ticks_ar env_pair 12 pair_queued = Some (pair_first 10)"
  proof -
    have "ticks_ar env_pair 2 pair_queued = Some (pair_first 0)"
      by (simp add: numeral_2_eq_2 pair_tick_3 pair_tick_4)
    moreover have "ticks_ar env_pair 10 (pair_first 0) = Some (pair_first 10)"
      using ticks_pair_first[of 0 10] by simp
    ultimately have "ticks_ar env_pair (2 + 10) pair_queued = Some (pair_first 10)"
      unfolding ticks_ar_add by simp
    then show ?thesis by simp
  qed
  from reach_ar_ticks[OF this r] have r10: "reach_ar env_pair (pair_first 10)" .
  from tick_ar_Next[OF pair_tick_pop] obtain u1 u2 u3 where
    u: "traceall_ar (pair_first 10) = Next u1" "add_remove_ar env_pair u1 = Inr u2"
       "run_send_ar env_pair u2 = Inr u3" by blast
  note T = ar_queue_fifo[of env_pair pair_queued 1 2 25 pair_done "pair_first 10" u1 u2 u3 init]
  from T r a t c have f: "\<exists>k s1. 0 < k \<and> k < 25 \<and> ticks_ar env_pair k pair_queued = Some s1 \<and>
      completed (first_job s1) 1 \<and> in_queue (first_res s1) 2" by blast
  from T r10 u have g: "list_all2 (pop_step (first_job u3)) (first_res u2) (first_res u3) \<and>
      list_all2 (head_step (heads (first_res u2))) (first_job u2) (first_job u3)" by blast
  from r q a t c f ticks_pair_popped p r10 u g show ?thesis by blast
qed

end
